(* ===== verification/External_Api.thy ===== *)
theory External_Api
  imports Eiyaro_Prelude
begin

text \<open>
  The data model of the consensus code (domain/consensus/model/externalapi): hashes,
  outpoints, script public keys, UTXO entries and transactions, the equality and ordering
  operations the code defines on them, the built-in subnetworks and the consensus constants.

  A \<^typ>\<open>bytes\<close> value stands for the 32-byte array of a \<open>DomainHash\<close>; the functions below do
  not depend on its width. Go pointers that may be nil are options, and a Go panic is the
  result \<^term>\<open>Inl e\<close> of the functions that can raise it.
\<close>

section \<open>Hashes\<close>

type_synonym DomainHash = bytes
type_synonym DomainTransactionID = bytes
type_synonym DomainSubnetworkID = bytes

definition DomainHashSize :: nat where
  "DomainHashSize = 32"

definition NewZeroHash :: DomainHash where
  "NewZeroHash = replicate DomainHashSize 0"

datatype hash_error = InvalidHashSize nat

definition NewDomainHashFromByteSlice :: "bytes \<Rightarrow> hash_error + DomainHash" where
  "NewDomainHashFromByteSlice hashBytes =
     (if length hashBytes \<noteq> DomainHashSize then Inl (InvalidHashSize (length hashBytes))
      else Inr hashBytes)"

text \<open>\<open>bytes.Compare\<close>, which the hash order is defined by.\<close>

fun bytesCompare :: "bytes \<Rightarrow> bytes \<Rightarrow> int" where
  "bytesCompare [] [] = 0"
| "bytesCompare [] (b # bs) = - 1"
| "bytesCompare (a # as) [] = 1"
| "bytesCompare (a # as) (b # bs) =
     (if a < b then - 1 else if b < a then 1 else bytesCompare as bs)"

definition hashEqual :: "DomainHash option \<Rightarrow> DomainHash option \<Rightarrow> bool" where
  "hashEqual hash other =
     (case (hash, other) of
        (Some h, Some o') \<Rightarrow> h = o'
      | (None, None) \<Rightarrow> True
      | _ \<Rightarrow> False)"

definition hashLess :: "DomainHash \<Rightarrow> DomainHash \<Rightarrow> bool" where
  "hashLess hash other \<longleftrightarrow> bytesCompare hash other < 0"

definition hashLessOrEqual :: "DomainHash \<Rightarrow> DomainHash \<Rightarrow> bool" where
  "hashLessOrEqual hash other \<longleftrightarrow> bytesCompare hash other \<le> 0"

definition CloneHashes :: "DomainHash list \<Rightarrow> DomainHash list" where
  "CloneHashes hashes = map (\<lambda>h. h) hashes"

fun HashesEqual :: "DomainHash list \<Rightarrow> DomainHash list \<Rightarrow> bool" where
  "HashesEqual a b =
     (if length a \<noteq> length b then False else list_all2 (\<lambda>x y. x = y) a b)"

section \<open>Transactions\<close>

record ScriptPublicKey =
  spkScript :: bytes
  spkVersion :: u16

record UTXOEntry =
  amount :: u64
  scriptPublicKey :: ScriptPublicKey
  blockDAAScore :: u64
  isCoinbase :: bool

record DomainOutpoint =
  outpointTransactionID :: DomainTransactionID
  outpointIndex :: u32

record DomainTransactionInput =
  PreviousOutpoint :: DomainOutpoint
  SignatureScript :: bytes
  Sequence :: u64
  SigOpCount :: byte
  inputUTXOEntry :: "UTXOEntry option"

record DomainTransactionOutput =
  outputValue :: u64
  outputScriptPublicKey :: ScriptPublicKey

record DomainTransaction =
  txVersion :: u16
  Inputs :: "DomainTransactionInput list"
  Outputs :: "DomainTransactionOutput list"
  LockTime :: u64
  SubnetworkID :: DomainSubnetworkID
  Gas :: u64
  Payload :: bytes
  txFee :: u64
  txMass :: u64
  txID :: "DomainTransactionID option"

definition ScriptPublicKey_Equal :: "ScriptPublicKey \<Rightarrow> ScriptPublicKey \<Rightarrow> bool" where
  "ScriptPublicKey_Equal spk other =
     (if spkVersion spk \<noteq> spkVersion other then False else spkScript spk = spkScript other)"

definition UTXOEntry_Equal :: "UTXOEntry \<Rightarrow> UTXOEntry \<Rightarrow> bool" where
  "UTXOEntry_Equal u other =
     (if amount u \<noteq> amount other then False
      else if \<not> ScriptPublicKey_Equal (scriptPublicKey u) (scriptPublicKey other) then False
      else if blockDAAScore u \<noteq> blockDAAScore other then False
      else if isCoinbase u \<noteq> isCoinbase other then False
      else True)"

definition NewUTXOEntry :: "u64 \<Rightarrow> ScriptPublicKey \<Rightarrow> bool \<Rightarrow> u64 \<Rightarrow> UTXOEntry" where
  "NewUTXOEntry amt scriptPubKey isCb daaScore =
     \<lparr>amount = amt,
      scriptPublicKey = \<lparr>spkScript = spkScript scriptPubKey, spkVersion = spkVersion scriptPubKey\<rparr>,
      blockDAAScore = daaScore, isCoinbase = isCb\<rparr>"

definition Outpoint_Equal :: "DomainOutpoint \<Rightarrow> DomainOutpoint \<Rightarrow> bool" where
  "Outpoint_Equal op other \<longleftrightarrow> op = other"

datatype tx_panic = DifferentUTXOEntry | DifferentFee | DifferentMass | DifferentID

definition Input_Equal :: "DomainTransactionInput \<Rightarrow> DomainTransactionInput \<Rightarrow> tx_panic + bool" where
  "Input_Equal input other =
     (if \<not> Outpoint_Equal (PreviousOutpoint input) (PreviousOutpoint other) then Inr False
      else if SignatureScript input \<noteq> SignatureScript other then Inr False
      else if Sequence input \<noteq> Sequence other then Inr False
      else if SigOpCount input \<noteq> SigOpCount other then Inr False
      else (case (inputUTXOEntry input, inputUTXOEntry other) of
              (Some e, Some f) \<Rightarrow> if \<not> UTXOEntry_Equal e f then Inl DifferentUTXOEntry else Inr True
            | _ \<Rightarrow> Inr True))"

definition Output_Equal :: "DomainTransactionOutput \<Rightarrow> DomainTransactionOutput \<Rightarrow> bool" where
  "Output_Equal output other =
     (if outputValue output \<noteq> outputValue other then False
      else ScriptPublicKey_Equal (outputScriptPublicKey output) (outputScriptPublicKey other))"

fun inputs_Equal :: "DomainTransactionInput list \<Rightarrow> DomainTransactionInput list \<Rightarrow> tx_panic + bool" where
  "inputs_Equal (i # is) (j # js) =
     rbind (Input_Equal i j) (\<lambda>eq. if \<not> eq then Inr False else inputs_Equal is js)"
| "inputs_Equal _ _ = Inr True"

definition Transaction_Equal :: "DomainTransaction \<Rightarrow> DomainTransaction \<Rightarrow> tx_panic + bool" where
  "Transaction_Equal tx other =
     (if txVersion tx \<noteq> txVersion other then Inr False
      else if length (Inputs tx) \<noteq> length (Inputs other) then Inr False
      else rbind (inputs_Equal (Inputs tx) (Inputs other)) (\<lambda>ins.
        if \<not> ins then Inr False
        else if length (Outputs tx) \<noteq> length (Outputs other) then Inr False
        else if \<not> list_all2 Output_Equal (Outputs tx) (Outputs other) then Inr False
        else if LockTime tx \<noteq> LockTime other then Inr False
        else if SubnetworkID tx \<noteq> SubnetworkID other then Inr False
        else if Gas tx \<noteq> Gas other then Inr False
        else if Payload tx \<noteq> Payload other then Inr False
        else if txFee tx \<noteq> 0 \<and> txFee other \<noteq> 0 \<and> txFee tx \<noteq> txFee other then Inl DifferentFee
        else if txMass tx \<noteq> 0 \<and> txMass other \<noteq> 0 \<and> txMass tx \<noteq> txMass other then Inl DifferentMass
        else (case (txID tx, txID other) of
                (Some i, Some j) \<Rightarrow> if i \<noteq> j then Inl DifferentID else Inr True
              | _ \<Rightarrow> Inr True)))"

section \<open>Subnetworks and constants\<close>

definition SubnetworkIDNative :: DomainSubnetworkID where
  "SubnetworkIDNative = replicate 20 0"

definition SubnetworkIDCoinbase :: DomainSubnetworkID where
  "SubnetworkIDCoinbase = 1 # replicate 19 0"

definition SubnetworkIDRegistry :: DomainSubnetworkID where
  "SubnetworkIDRegistry = 2 # replicate 19 0"

definition SubnetworkIDData :: DomainSubnetworkID where
  "SubnetworkIDData = 3 # replicate 19 0"

definition IsBuiltIn :: "DomainSubnetworkID \<Rightarrow> bool" where
  "IsBuiltIn sid \<longleftrightarrow> sid = SubnetworkIDCoinbase \<or> sid = SubnetworkIDRegistry \<or> sid = SubnetworkIDData"

definition IsBuiltInOrNative :: "DomainSubnetworkID \<Rightarrow> bool" where
  "IsBuiltInOrNative sid \<longleftrightarrow> sid = SubnetworkIDNative \<or> IsBuiltIn sid"

definition IsCoinBase :: "DomainTransaction \<Rightarrow> bool" where
  "IsCoinBase tx \<longleftrightarrow> SubnetworkID tx = SubnetworkIDCoinbase"

definition MaxScriptPublicKeyVersion :: u16 where
  "MaxScriptPublicKeyVersion = 0"

definition MaxTransactionVersion :: u16 where
  "MaxTransactionVersion = 0"

definition SeyPerEY :: u64 where
  "SeyPerEY = 100000000"

definition MaxSey :: u64 where
  "MaxSey = 17100000000 * SeyPerEY"

definition MaxTxInSequenceNum :: u64 where
  "MaxTxInSequenceNum = - 1"

definition SequenceLockTimeDisabled :: u64 where
  "SequenceLockTimeDisabled = push_bit 63 1"

definition SequenceLockTimeMask :: u64 where
  "SequenceLockTimeMask = 0x00000000ffffffff"

definition LockTimeThreshold :: u64 where
  "LockTimeThreshold = 500000000000"

definition UnacceptedDAAScore :: u64 where
  "UnacceptedDAAScore = - 1"

section \<open>The hash order is a strict linear order\<close>

lemma bytesCompare_refl [simp]: "bytesCompare a a = 0"
  by (induction a) auto

lemma bytesCompare_zero_iff: "bytesCompare a b = 0 \<longleftrightarrow> a = b"
  by (induction a b rule: bytesCompare.induct) auto

lemma bytesCompare_antisym: "bytesCompare b a = - bytesCompare a b"
  by (induction a b rule: bytesCompare.induct) auto

lemma bytesCompare_trans:
  "bytesCompare a b < 0 \<Longrightarrow> bytesCompare b c < 0 \<Longrightarrow> bytesCompare a c < 0"
proof (induction a b arbitrary: c rule: bytesCompare.induct)
  case (2 b bs)
  then show ?case by (cases c) (auto split: if_splits)
next
  case (4 a as b bs)
  then show ?case by (cases c) (auto split: if_splits)
qed auto

lemma hashLess_irrefl [simp]: "\<not> hashLess a a"
  by (simp add: hashLess_def)

lemma hashLess_trans: "hashLess a b \<Longrightarrow> hashLess b c \<Longrightarrow> hashLess a c"
  unfolding hashLess_def by (rule bytesCompare_trans)

lemma hashLess_total: "a \<noteq> b \<Longrightarrow> hashLess a b \<or> hashLess b a"
  using bytesCompare_zero_iff [of a b] bytesCompare_antisym [of a b]
  by (auto simp: hashLess_def)

lemma hashLess_asym: "hashLess a b \<Longrightarrow> \<not> hashLess b a"
  using hashLess_trans hashLess_irrefl by blast

lemma hashLessOrEqual_iff: "hashLessOrEqual a b \<longleftrightarrow> a = b \<or> hashLess a b"
  using bytesCompare_zero_iff [of a b] by (auto simp: hashLessOrEqual_def hashLess_def)

section \<open>Equality operations decide equality\<close>

lemma ScriptPublicKey_Equal_iff: "ScriptPublicKey_Equal a b \<longleftrightarrow> a = b"
  by (cases a; cases b) (auto simp: ScriptPublicKey_Equal_def)

lemma UTXOEntry_Equal_iff: "UTXOEntry_Equal a b \<longleftrightarrow> a = b"
  by (cases a; cases b) (auto simp: UTXOEntry_Equal_def ScriptPublicKey_Equal_iff)

lemma Output_Equal_iff: "Output_Equal a b \<longleftrightarrow> a = b"
  by (cases a; cases b) (auto simp: Output_Equal_def ScriptPublicKey_Equal_iff)

lemma HashesEqual_iff: "HashesEqual a b \<longleftrightarrow> a = b"
  by (auto simp: list.rel_eq list_all2_eq [symmetric])

lemma CloneHashes_id [simp]: "CloneHashes hs = hs"
  by (simp add: CloneHashes_def)

end
