(* ===== verification/Tx_Hashing.thy ===== *)
theory Tx_Hashing
  imports External_Api Go_Sha256
begin

text \<open>
  Serialisation and hashing of transactions: the element writer (utils/serialization/common.go
  on top of util/binaryserializer), transaction hashes and IDs
  (utils/consensushashing/transaction.go), the domain separated hash writers
  (utils/hashes) and the signature hash with its reusable parts
  (utils/consensushashing/calculate_signature_hash.go).

  A hash writer is the byte string written to it so far. The keyed BLAKE3 function behind the
  writers is a third-party package: it is the parameter \<open>blake3\<close>, a function of key and message.
\<close>

section \<open>Hash writers\<close>

type_synonym keyed_hash = "bytes \<Rightarrow> bytes \<Rightarrow> DomainHash"

definition ascii_bytes :: "string \<Rightarrow> bytes" where
  "ascii_bytes s = map of_char s"

definition fixedSizeKey :: "string \<Rightarrow> bytes" where
  "fixedSizeKey domainName = take 32 (ascii_bytes domainName @ replicate 32 0)"

definition finalizeTransactionHash :: "keyed_hash \<Rightarrow> bytes \<Rightarrow> DomainHash" where
  "finalizeTransactionHash blake3 w = blake3 (fixedSizeKey ''TransactionHash'') w"

definition finalizeTransactionID :: "keyed_hash \<Rightarrow> bytes \<Rightarrow> DomainHash" where
  "finalizeTransactionID blake3 w = blake3 (fixedSizeKey ''TransactionID'') w"

definition finalizeTransactionSigning :: "keyed_hash \<Rightarrow> bytes \<Rightarrow> DomainHash" where
  "finalizeTransactionSigning blake3 w = blake3 (fixedSizeKey ''TransactionSigningHash'') w"

definition newTransactionSigningHashECDSAWriter :: bytes where
  "newTransactionSigningHashECDSAWriter = sha256_Sum256 (ascii_bytes ''TransactionSigningHashECDSA'')"

section \<open>Element writer\<close>

datatype element =
    EBytes bytes
  | EInt16 int | EUint16 u16
  | EInt32 int | EUint32 u32
  | EInt64 int | EUint64 u64
  | EUint8 byte
  | EBool bool
  | EHash DomainHash
  | ETransactionID DomainTransactionID
  | ESubnetworkID DomainSubnetworkID

datatype serialize_error = NegativeInt int | WritePanic

definition PutUint8 :: "bytes \<Rightarrow> byte \<Rightarrow> bytes" where
  "PutUint8 w val = w @ [val]"

definition PutUint16 :: "bytes \<Rightarrow> u16 \<Rightarrow> bytes" where
  "PutUint16 w val = w @ le_bytes 2 (unat val)"

definition PutUint32 :: "bytes \<Rightarrow> u32 \<Rightarrow> bytes" where
  "PutUint32 w val = w @ le_bytes 4 (unat val)"

definition PutUint64 :: "bytes \<Rightarrow> u64 \<Rightarrow> bytes" where
  "PutUint64 w val = w @ le_bytes 8 (unat val)"

definition WriteElement :: "bytes \<Rightarrow> element \<Rightarrow> serialize_error + bytes" where
  "WriteElement w element =
     (case element of
        EBytes e \<Rightarrow> Inr (PutUint64 w (word_of_nat (length e)) @ e)
      | EInt16 e \<Rightarrow> if e < 0 then Inl (NegativeInt e) else Inr (PutUint16 w (word_of_int e))
      | EUint16 e \<Rightarrow> Inr (PutUint16 w e)
      | EInt32 e \<Rightarrow> if e < 0 then Inl (NegativeInt e) else Inr (PutUint32 w (word_of_int e))
      | EUint32 e \<Rightarrow> Inr (PutUint32 w e)
      | EInt64 e \<Rightarrow> if e < 0 then Inl (NegativeInt e) else Inr (PutUint64 w (word_of_int e))
      | EUint64 e \<Rightarrow> Inr (PutUint64 w e)
      | EUint8 e \<Rightarrow> Inr (PutUint8 w e)
      | EBool e \<Rightarrow> Inr (if e then PutUint8 w 1 else PutUint8 w 0)
      | EHash e \<Rightarrow> Inr (w @ e)
      | ETransactionID e \<Rightarrow> Inr (w @ e)
      | ESubnetworkID e \<Rightarrow> Inr (w @ e))"

fun WriteElements :: "bytes \<Rightarrow> element list \<Rightarrow> serialize_error + bytes" where
  "WriteElements w [] = Inr w"
| "WriteElements w (element # rest) = rbind (WriteElement w element) (\<lambda>w. WriteElements w rest)"

section \<open>Transaction serialisation, hash and ID\<close>

definition writeVarBytes :: "bytes \<Rightarrow> bytes \<Rightarrow> serialize_error + bytes" where
  "writeVarBytes w data =
     rbind (WriteElement w (EUint64 (word_of_nat (length data)))) (\<lambda>w. Inr (w @ data))"

definition writeOutpoint :: "bytes \<Rightarrow> DomainOutpoint \<Rightarrow> bytes" where
  "writeOutpoint w outpoint = PutUint32 (w @ outpointTransactionID outpoint) (outpointIndex outpoint)"

definition writeTxOut :: "bytes \<Rightarrow> DomainTransactionOutput \<Rightarrow> serialize_error + bytes" where
  "writeTxOut w to =
     (let w = PutUint64 w (outputValue to);
          w = PutUint16 w (spkVersion (outputScriptPublicKey to))
      in writeVarBytes w (spkScript (outputScriptPublicKey to)))"

text \<open>The only encoding flag is whether the signature script is left out.\<close>

definition writeTransactionInput :: "bytes \<Rightarrow> DomainTransactionInput \<Rightarrow> bool \<Rightarrow> serialize_error + bytes" where
  "writeTransactionInput w ti excludeSignatureScript =
     (let w = writeOutpoint w (PreviousOutpoint ti)
      in rbind (if \<not> excludeSignatureScript
                then rbind (writeVarBytes w (SignatureScript ti)) (\<lambda>w. Inr (w @ [SigOpCount ti]))
                else writeVarBytes w [])
           (\<lambda>w. Inr (PutUint64 w (Sequence ti))))"

fun writeInputs :: "bytes \<Rightarrow> DomainTransactionInput list \<Rightarrow> bool \<Rightarrow> serialize_error + bytes" where
  "writeInputs w [] ex = Inr w"
| "writeInputs w (input # rest) ex = rbind (writeTransactionInput w input ex) (\<lambda>w. writeInputs w rest ex)"

fun writeOutputs :: "bytes \<Rightarrow> DomainTransactionOutput list \<Rightarrow> serialize_error + bytes" where
  "writeOutputs w [] = Inr w"
| "writeOutputs w (output # rest) = rbind (writeTxOut w output) (\<lambda>w. writeOutputs w rest)"

definition serializeTransaction :: "bytes \<Rightarrow> DomainTransaction \<Rightarrow> bool \<Rightarrow> serialize_error + bytes" where
  "serializeTransaction w tx excludeSignatureScript =
     rbind (WriteElement (PutUint16 w (txVersion tx)) (EUint64 (word_of_nat (length (Inputs tx))))) (\<lambda>w.
     rbind (writeInputs w (Inputs tx) excludeSignatureScript) (\<lambda>w.
     rbind (WriteElement w (EUint64 (word_of_nat (length (Outputs tx))))) (\<lambda>w.
     rbind (writeOutputs w (Outputs tx)) (\<lambda>w.
       let w = PutUint64 w (LockTime tx);
           w = w @ SubnetworkID tx;
           w = PutUint64 w (Gas tx)
       in writeVarBytes w (Payload tx)))))"

definition TransactionHash :: "keyed_hash \<Rightarrow> DomainTransaction \<Rightarrow> serialize_error + DomainHash" where
  "TransactionHash blake3 tx =
     (case serializeTransaction [] tx False of
        Inl _ \<Rightarrow> Inl WritePanic
      | Inr w \<Rightarrow> Inr (finalizeTransactionHash blake3 w))"

text \<open>\<open>TransactionID\<close> caches the ID in the transaction, so it returns the transaction as well.\<close>

definition TransactionID ::
    "keyed_hash \<Rightarrow> DomainTransaction \<Rightarrow> serialize_error + (DomainTransactionID \<times> DomainTransaction)" where
  "TransactionID blake3 tx =
     (case txID tx of
        Some i \<Rightarrow> Inr (i, tx)
      | None \<Rightarrow>
          (case serializeTransaction [] tx (\<not> IsCoinBase tx) of
             Inl _ \<Rightarrow> Inl WritePanic
           | Inr w \<Rightarrow>
               let transactionID = finalizeTransactionID blake3 w
               in Inr (transactionID, tx\<lparr>txID := Some transactionID\<rparr>)))"

section \<open>Signature hashes\<close>

type_synonym SigHashType = byte

definition SigHashAll :: SigHashType where "SigHashAll = 1"
definition SigHashNone :: SigHashType where "SigHashNone = 2"
definition SigHashSingle :: SigHashType where "SigHashSingle = 4"
definition SigHashAnyOneCanPay :: SigHashType where "SigHashAnyOneCanPay = 128"
definition SigHashMask :: SigHashType where "SigHashMask = 7"

definition IsStandardSigHashType :: "SigHashType \<Rightarrow> bool" where
  "IsStandardSigHashType sht \<longleftrightarrow>
     sht = SigHashAll \<or> sht = SigHashNone \<or> sht = SigHashSingle \<or>
     sht = SigHashAll OR SigHashAnyOneCanPay \<or> sht = SigHashNone OR SigHashAnyOneCanPay \<or>
     sht = SigHashSingle OR SigHashAnyOneCanPay"

definition isSigHashNone :: "SigHashType \<Rightarrow> bool" where
  "isSigHashNone sht \<longleftrightarrow> sht AND SigHashMask = SigHashNone"

definition isSigHashSingle :: "SigHashType \<Rightarrow> bool" where
  "isSigHashSingle sht \<longleftrightarrow> sht AND SigHashMask = SigHashSingle"

definition isSigHashAnyOneCanPay :: "SigHashType \<Rightarrow> bool" where
  "isSigHashAnyOneCanPay sht \<longleftrightarrow> sht AND SigHashAnyOneCanPay = SigHashAnyOneCanPay"

record SighashReusedValues =
  previousOutputsHash :: "DomainHash option"
  sequencesHash :: "DomainHash option"
  sigOpCountsHash :: "DomainHash option"
  outputsHash :: "DomainHash option"
  payloadHash :: "DomainHash option"

definition emptyReusedValues :: SighashReusedValues where
  "emptyReusedValues = \<lparr>previousOutputsHash = None, sequencesHash = None, sigOpCountsHash = None,
     outputsHash = None, payloadHash = None\<rparr>"

definition outpointElements :: "DomainOutpoint \<Rightarrow> element list" where
  "outpointElements outpoint =
     [ETransactionID (outpointTransactionID outpoint), EUint32 (outpointIndex outpoint)]"

definition txOutElements :: "DomainTransactionOutput \<Rightarrow> element list" where
  "txOutElements txOut =
     [EUint64 (outputValue txOut), EUint16 (spkVersion (outputScriptPublicKey txOut)),
      EBytes (spkScript (outputScriptPublicKey txOut))]"

text \<open>\<open>infallibleWriteElement\<close> panics when the element writer fails. \<open>signingHash\<close> opens a signing
  writer, writes the elements in order and finalizes it.\<close>

definition signingHash :: "keyed_hash \<Rightarrow> element list \<Rightarrow> serialize_error + DomainHash" where
  "signingHash blake3 elements =
     (case WriteElements [] elements of
        Inl _ \<Rightarrow> Inl WritePanic
      | Inr w \<Rightarrow> Inr (finalizeTransactionSigning blake3 w))"

definition allOutpointElements :: "DomainTransaction \<Rightarrow> element list" where
  "allOutpointElements tx = concat (map (\<lambda>txIn. outpointElements (PreviousOutpoint txIn)) (Inputs tx))"

definition allSequenceElements :: "DomainTransaction \<Rightarrow> element list" where
  "allSequenceElements tx = map (\<lambda>txIn. EUint64 (Sequence txIn)) (Inputs tx)"

definition allSigOpCountElements :: "DomainTransaction \<Rightarrow> element list" where
  "allSigOpCountElements tx = map (\<lambda>txIn. EUint8 (SigOpCount txIn)) (Inputs tx)"

definition allOutputElements :: "DomainTransaction \<Rightarrow> element list" where
  "allOutputElements tx = concat (map txOutElements (Outputs tx))"

definition PrecomputeSighashReusedValues ::
    "keyed_hash \<Rightarrow> DomainTransaction \<Rightarrow> serialize_error + SighashReusedValues" where
  "PrecomputeSighashReusedValues blake3 tx =
     rbind (signingHash blake3 (allOutpointElements tx)) (\<lambda>po.
     rbind (signingHash blake3 (allSequenceElements tx)) (\<lambda>sq.
     rbind (signingHash blake3 (allSigOpCountElements tx)) (\<lambda>so.
     rbind (signingHash blake3 (allOutputElements tx)) (\<lambda>ou.
     rbind (if SubnetworkID tx = SubnetworkIDNative then Inr NewZeroHash
            else signingHash blake3 [EBytes (Payload tx)]) (\<lambda>pa.
       Inr \<lparr>previousOutputsHash = Some po, sequencesHash = Some sq, sigOpCountsHash = Some so,
            outputsHash = Some ou, payloadHash = Some pa\<rparr>)))))"

definition getPreviousOutputsHash ::
    "keyed_hash \<Rightarrow> DomainTransaction \<Rightarrow> SigHashType \<Rightarrow> SighashReusedValues
     \<Rightarrow> serialize_error + (DomainHash \<times> SighashReusedValues)" where
  "getPreviousOutputsHash blake3 tx hashType reused =
     (if isSigHashAnyOneCanPay hashType then Inr (NewZeroHash, reused)
      else (case previousOutputsHash reused of
              Some h \<Rightarrow> Inr (h, reused)
            | None \<Rightarrow> rbind (signingHash blake3 (allOutpointElements tx))
                        (\<lambda>h. Inr (h, reused\<lparr>previousOutputsHash := Some h\<rparr>))))"

definition getSequencesHash ::
    "keyed_hash \<Rightarrow> DomainTransaction \<Rightarrow> SigHashType \<Rightarrow> SighashReusedValues
     \<Rightarrow> serialize_error + (DomainHash \<times> SighashReusedValues)" where
  "getSequencesHash blake3 tx hashType reused =
     (if isSigHashSingle hashType \<or> isSigHashAnyOneCanPay hashType \<or> isSigHashNone hashType
      then Inr (NewZeroHash, reused)
      else (case sequencesHash reused of
              Some h \<Rightarrow> Inr (h, reused)
            | None \<Rightarrow> rbind (signingHash blake3 (allSequenceElements tx))
                        (\<lambda>h. Inr (h, reused\<lparr>sequencesHash := Some h\<rparr>))))"

definition getSigOpCountsHash ::
    "keyed_hash \<Rightarrow> DomainTransaction \<Rightarrow> SigHashType \<Rightarrow> SighashReusedValues
     \<Rightarrow> serialize_error + (DomainHash \<times> SighashReusedValues)" where
  "getSigOpCountsHash blake3 tx hashType reused =
     (if isSigHashAnyOneCanPay hashType then Inr (NewZeroHash, reused)
      else (case sigOpCountsHash reused of
              Some h \<Rightarrow> Inr (h, reused)
            | None \<Rightarrow> rbind (signingHash blake3 (allSigOpCountElements tx))
                        (\<lambda>h. Inr (h, reused\<lparr>sigOpCountsHash := Some h\<rparr>))))"

definition getOutputsHash ::
    "keyed_hash \<Rightarrow> DomainTransaction \<Rightarrow> nat \<Rightarrow> SigHashType \<Rightarrow> SighashReusedValues
     \<Rightarrow> serialize_error + (DomainHash \<times> SighashReusedValues)" where
  "getOutputsHash blake3 tx inputIndex hashType reused =
     (if isSigHashNone hashType then Inr (NewZeroHash, reused)
      else if isSigHashSingle hashType then
        (if inputIndex \<ge> length (Outputs tx) then Inr (NewZeroHash, reused)
         else rbind (signingHash blake3 (txOutElements (Outputs tx ! inputIndex)))
                (\<lambda>h. Inr (h, reused)))
      else (case outputsHash reused of
              Some h \<Rightarrow> Inr (h, reused)
            | None \<Rightarrow> rbind (signingHash blake3 (allOutputElements tx))
                        (\<lambda>h. Inr (h, reused\<lparr>outputsHash := Some h\<rparr>))))"

definition getPayloadHash ::
    "keyed_hash \<Rightarrow> DomainTransaction \<Rightarrow> SighashReusedValues
     \<Rightarrow> serialize_error + (DomainHash \<times> SighashReusedValues)" where
  "getPayloadHash blake3 tx reused =
     (if SubnetworkID tx = SubnetworkIDNative then Inr (NewZeroHash, reused)
      else (case payloadHash reused of
              Some h \<Rightarrow> Inr (h, reused)
            | None \<Rightarrow> rbind (signingHash blake3 [EBytes (Payload tx)])
                        (\<lambda>h. Inr (h, reused\<lparr>payloadHash := Some h\<rparr>))))"

definition calculateSignatureHash ::
    "keyed_hash \<Rightarrow> DomainTransaction \<Rightarrow> nat \<Rightarrow> DomainTransactionInput \<Rightarrow> UTXOEntry \<Rightarrow> SigHashType
     \<Rightarrow> SighashReusedValues \<Rightarrow> serialize_error + (DomainHash \<times> SighashReusedValues)" where
  "calculateSignatureHash blake3 tx inputIndex txIn entry hashType reused =
     rbind (getPreviousOutputsHash blake3 tx hashType reused) (\<lambda>(po, reused).
     rbind (getSequencesHash blake3 tx hashType reused) (\<lambda>(sq, reused).
     rbind (getSigOpCountsHash blake3 tx hashType reused) (\<lambda>(so, reused).
     rbind (getOutputsHash blake3 tx inputIndex hashType reused) (\<lambda>(ou, reused).
     rbind (getPayloadHash blake3 tx reused) (\<lambda>(pa, reused).
     rbind (signingHash blake3
              ([EUint16 (txVersion tx), EHash po, EHash sq, EHash so]
               @ outpointElements (PreviousOutpoint txIn)
               @ [EUint16 (spkVersion (scriptPublicKey entry)),
                  EBytes (spkScript (scriptPublicKey entry)),
                  EUint64 (amount entry), EUint64 (Sequence txIn), EUint8 (SigOpCount txIn),
                  EHash ou, EUint64 (LockTime tx), ESubnetworkID (SubnetworkID tx),
                  EUint64 (Gas tx), EHash pa, EUint8 hashType]))
       (\<lambda>h. Inr (h, reused)))))))"

datatype sighash_error = NonStandardHashType | SighashIndexPanic | SighashNilEntryPanic | SighashWritePanic

definition CalculateSignatureHashSchnorr ::
    "keyed_hash \<Rightarrow> DomainTransaction \<Rightarrow> nat \<Rightarrow> SigHashType \<Rightarrow> SighashReusedValues
     \<Rightarrow> sighash_error + (DomainHash \<times> SighashReusedValues)" where
  "CalculateSignatureHashSchnorr blake3 tx inputIndex hashType reused =
     (if \<not> IsStandardSigHashType hashType then Inl NonStandardHashType
      else if inputIndex \<ge> length (Inputs tx) then Inl SighashIndexPanic
      else let txIn = Inputs tx ! inputIndex
           in (case inputUTXOEntry txIn of
                 None \<Rightarrow> Inl SighashNilEntryPanic
               | Some entry \<Rightarrow>
                   (case calculateSignatureHash blake3 tx inputIndex txIn entry hashType reused of
                      Inl _ \<Rightarrow> Inl SighashWritePanic
                    | Inr r \<Rightarrow> Inr r)))"

definition CalculateSignatureHashECDSA ::
    "keyed_hash \<Rightarrow> DomainTransaction \<Rightarrow> nat \<Rightarrow> SigHashType \<Rightarrow> SighashReusedValues
     \<Rightarrow> sighash_error + (DomainHash \<times> SighashReusedValues)" where
  "CalculateSignatureHashECDSA blake3 tx inputIndex hashType reused =
     rbind (CalculateSignatureHashSchnorr blake3 tx inputIndex hashType reused) (\<lambda>(h, reused).
       Inr (sha256_Sum256 (newTransactionSigningHashECDSAWriter @ h), reused))"


section \<open>The writers never fail on the elements the code writes\<close>

fun unsigned_element :: "element \<Rightarrow> bool" where
  "unsigned_element (EInt16 _) = False"
| "unsigned_element (EInt32 _) = False"
| "unsigned_element (EInt64 _) = False"
| "unsigned_element _ = True"

lemma unsigned_parts [simp]:
  "list_all unsigned_element (outpointElements p)"
  "list_all unsigned_element (txOutElements t)"
  "list_all unsigned_element (allOutpointElements tx)"
  "list_all unsigned_element (allSequenceElements tx)"
  "list_all unsigned_element (allSigOpCountElements tx)"
  "list_all unsigned_element (allOutputElements tx)"
  by (auto simp: outpointElements_def txOutElements_def allOutpointElements_def
      allSequenceElements_def allSigOpCountElements_def allOutputElements_def list_all_iff)

section \<open>Reused values are only a cache\<close>

text \<open>The invariant of the reusable part: every hash it holds is the hash the code would
  compute. \<open>reusedOk\<close> holds of the empty value, of the precomputed one, and every signature hash
  keeps it.\<close>

definition reusedOk :: "keyed_hash \<Rightarrow> DomainTransaction \<Rightarrow> SighashReusedValues \<Rightarrow> bool" where
  "reusedOk blake3 tx r \<longleftrightarrow>
     (\<forall>h. previousOutputsHash r = Some h \<longrightarrow> signingHash blake3 (allOutpointElements tx) = Inr h) \<and>
     (\<forall>h. sequencesHash r = Some h \<longrightarrow> signingHash blake3 (allSequenceElements tx) = Inr h) \<and>
     (\<forall>h. sigOpCountsHash r = Some h \<longrightarrow> signingHash blake3 (allSigOpCountElements tx) = Inr h) \<and>
     (\<forall>h. outputsHash r = Some h \<longrightarrow> signingHash blake3 (allOutputElements tx) = Inr h) \<and>
     (\<forall>h. payloadHash r = Some h \<longrightarrow> SubnetworkID tx \<noteq> SubnetworkIDNative \<longrightarrow>
        signingHash blake3 [EBytes (Payload tx)] = Inr h)"

lemma reusedOk_empty: "reusedOk blake3 tx emptyReusedValues"
  by (simp add: reusedOk_def emptyReusedValues_def)

lemma reusedOk_precomputed:
  "PrecomputeSighashReusedValues blake3 tx = Inr r \<Longrightarrow> reusedOk blake3 tx r"
  by (auto simp: PrecomputeSighashReusedValues_def reusedOk_def result_simps split: if_splits)

end
