(* ===== verification/Patch_Algebra.thy ===== *)
theory Patch_Algebra
  imports Eiyaro_Prelude
begin

text \<open>
  The interface between the UTXO diffs and the code that accumulates, compares and reverses
  chains of them. A patch algebra has states, patches that may be applicable to a state, the
  application of a patch, and three operations on patches that may fail: composition,
  difference and inversion. The laws say that the operations succeed on applicable patches
  and what the result does to a state. The lemmas on sequences of patches follow from the laws.
\<close>

fun rfold :: "('a \<Rightarrow> 'b \<Rightarrow> 'e + 'a) \<Rightarrow> 'a \<Rightarrow> 'b list \<Rightarrow> 'e + 'a" where
  "rfold f x [] = Inr x"
| "rfold f x (y # ys) = rbind (f x y) (\<lambda>x. rfold f x ys)"

fun seq_ok :: "('d \<Rightarrow> 's \<Rightarrow> bool) \<Rightarrow> ('d \<Rightarrow> 's \<Rightarrow> 's) \<Rightarrow> 'd list \<Rightarrow> 's \<Rightarrow> bool" where
  "seq_ok ok app [] s = True"
| "seq_ok ok app (d # ds) s = (ok d s \<and> seq_ok ok app ds (app d s))"

lemma seq_ok_append:
  "seq_ok ok app (ds @ es) s \<longleftrightarrow> seq_ok ok app ds s \<and> seq_ok ok app es (fold app ds s)"
  by (induction ds arbitrary: s) auto

locale patch_algebra =
  fixes valid :: "'s \<Rightarrow> bool"
    and ok :: "'d \<Rightarrow> 's \<Rightarrow> bool"
    and app :: "'d \<Rightarrow> 's \<Rightarrow> 's"
    and empty :: 'd
    and compose :: "'d \<Rightarrow> 'd \<Rightarrow> 'e + 'd"
    and difference :: "'d \<Rightarrow> 'd \<Rightarrow> 'e + 'd"
    and inverse :: "'d \<Rightarrow> 'd"
  assumes empty_law: "valid s \<Longrightarrow> ok empty s \<and> app empty s = s"
    and valid_law: "ok d s \<Longrightarrow> valid s \<and> valid (app d s)"
    and compose_law: "ok d s \<Longrightarrow> ok e (app d s) \<Longrightarrow>
      \<exists>r. compose d e = Inr r \<and> ok r s \<and> app r s = app e (app d s)"
    and difference_law: "ok d s \<Longrightarrow> ok e s \<Longrightarrow>
      \<exists>r. difference d e = Inr r \<and> ok r (app d s) \<and> app r (app d s) = app e s"
    and inverse_law: "ok d s \<Longrightarrow> ok (inverse d) (app d s) \<and> app (inverse d) (app d s) = s"
begin

text \<open>Accumulating a sequence of patches by composition.\<close>

lemma accumulate_from:
  assumes "ok d s" and "seq_ok ok app ds (app d s)"
  shows "\<exists>r. rfold compose d ds = Inr r \<and> ok r s \<and> app r s = fold app ds (app d s)"
  using assms
proof (induction ds arbitrary: d)
  case (Cons e ds)
  obtain r where r: "compose d e = Inr r" "ok r s" "app r s = app e (app d s)"
    using compose_law Cons.prems by fastforce
  then show ?case
    using Cons.IH [of r] Cons.prems by simp
qed simp

lemma accumulate:
  assumes "valid s" and "seq_ok ok app ds s"
  shows "\<exists>r. rfold compose empty ds = Inr r \<and> ok r s \<and> app r s = fold app ds s"
  using accumulate_from [of empty s ds] empty_law [OF assms(1)] assms(2) by simp

text \<open>A difference composed with its base is the other patch.\<close>

lemma difference_compose:
  assumes "ok d s" and "ok e s"
  shows "\<exists>r q. difference d e = Inr r \<and> compose d r = Inr q \<and> ok q s \<and> app q s = app e s"
  using difference_law [OF assms] compose_law [OF assms(1)] by metis

text \<open>A composed patch can be undone, in one step or patch by patch.\<close>

lemma compose_undo:
  assumes "ok d s" and "ok e (app d s)"
  shows "\<exists>r. compose d e = Inr r \<and> app (inverse r) (app e (app d s)) = s"
  using compose_law [OF assms] inverse_law by metis

lemma undo_sequence:
  assumes "seq_ok ok app ds s"
  shows "seq_ok ok app (map inverse (rev ds)) (fold app ds s) \<and>
         fold app (map inverse (rev ds)) (fold app ds s) = s"
  using assms
proof (induction ds arbitrary: s)
  case (Cons d ds)
  then show ?case
    using inverse_law [of d s] by (simp add: seq_ok_append)
qed simp

end

end
