(* ===== verification/Utxo_Diff.thy ===== *)
theory Utxo_Diff
  imports Tx_Hashing Patch_Algebra
begin

text \<open>
  The UTXO diff algebra (domain/consensus/utils/utxo: utxo_collection.go, diff_algebra.go and
  the value operations of mutable_utxo_diff.go).

  A collection is a Go map from outpoints to entries. A diff is a pair of collections, what to
  add to a UTXO set and what to remove from it. The code tells two entries of one outpoint
  apart by their DAA score only, so an outpoint may be in both collections of a diff: an old
  incarnation is removed and a new one, accepted at another DAA score, is added.

  The abstract meaning of a diff is the function \<open>applyDiff\<close> on UTXO sets. The refinement
  lemmas state that the in-place map surgery of \<open>withDiffInPlace\<close> and \<open>diffFrom\<close> computes
  composition and difference of that meaning. The interface \<open>patch_algebra\<close> records these
  laws, and its lemmas on sequences of diffs are proved from the laws alone.
\<close>

section \<open>Collections\<close>

type_synonym utxoCollection = "(DomainOutpoint, UTXOEntry) gomap"

definition Get :: "utxoCollection \<Rightarrow> DomainOutpoint \<Rightarrow> UTXOEntry option" where
  "Get uc outpoint = map_of uc outpoint"

definition Contains :: "utxoCollection \<Rightarrow> DomainOutpoint \<Rightarrow> bool" where
  "Contains uc outpoint = (case map_of uc outpoint of None \<Rightarrow> False | Some _ \<Rightarrow> True)"

definition Len :: "utxoCollection \<Rightarrow> nat" where
  "Len uc = length uc"

definition add :: "utxoCollection \<Rightarrow> DomainOutpoint \<Rightarrow> UTXOEntry \<Rightarrow> utxoCollection" where
  "add uc outpoint entry = AList.update outpoint entry uc"

definition remove :: "utxoCollection \<Rightarrow> DomainOutpoint \<Rightarrow> utxoCollection" where
  "remove uc outpoint = AList.delete outpoint uc"

fun removeMultiple :: "utxoCollection \<Rightarrow> utxoCollection \<Rightarrow> utxoCollection" where
  "removeMultiple uc [] = uc"
| "removeMultiple uc ((outpoint, _) # rest) = removeMultiple (remove uc outpoint) rest"

definition containsWithDAAScore :: "utxoCollection \<Rightarrow> DomainOutpoint \<Rightarrow> u64 \<Rightarrow> bool" where
  "containsWithDAAScore uc outpoint daaScore =
     (case Get uc outpoint of None \<Rightarrow> False | Some entry \<Rightarrow> blockDAAScore entry = daaScore)"

section \<open>Loops over collections\<close>

fun checkIntersection :: "utxoCollection \<Rightarrow> utxoCollection \<Rightarrow> bool" where
  "checkIntersection [] collection2 = False"
| "checkIntersection ((outpoint, _) # rest) collection2 =
     (if Contains collection2 outpoint then True else checkIntersection rest collection2)"

fun checkIntersectionWithRule ::
    "utxoCollection \<Rightarrow> utxoCollection \<Rightarrow> (DomainOutpoint \<Rightarrow> UTXOEntry \<Rightarrow> UTXOEntry \<Rightarrow> bool)
     \<Rightarrow> DomainOutpoint option" where
  "checkIntersectionWithRule [] collection2 extraRule = None"
| "checkIntersectionWithRule ((outpoint, utxoEntry) # rest) collection2 extraRule =
     (case Get collection2 outpoint of
        Some diffEntry \<Rightarrow>
          if extraRule outpoint utxoEntry diffEntry then Some outpoint
          else checkIntersectionWithRule rest collection2 extraRule
      | None \<Rightarrow> checkIntersectionWithRule rest collection2 extraRule)"

fun intersectionWithRemainderHavingDAAScoreInPlace ::
    "utxoCollection \<Rightarrow> utxoCollection \<Rightarrow> utxoCollection \<Rightarrow> utxoCollection
     \<Rightarrow> utxoCollection \<times> utxoCollection" where
  "intersectionWithRemainderHavingDAAScoreInPlace [] collection2 res remainder = (res, remainder)"
| "intersectionWithRemainderHavingDAAScoreInPlace ((outpoint, utxoEntry) # rest) collection2 res remainder =
     (if containsWithDAAScore collection2 outpoint (blockDAAScore utxoEntry)
      then intersectionWithRemainderHavingDAAScoreInPlace rest collection2
             (add res outpoint utxoEntry) remainder
      else intersectionWithRemainderHavingDAAScoreInPlace rest collection2
             res (add remainder outpoint utxoEntry))"

fun subtractionHavingDAAScoreInPlace ::
    "utxoCollection \<Rightarrow> utxoCollection \<Rightarrow> utxoCollection \<Rightarrow> utxoCollection" where
  "subtractionHavingDAAScoreInPlace [] collection2 res = res"
| "subtractionHavingDAAScoreInPlace ((outpoint, utxoEntry) # rest) collection2 res =
     (if \<not> containsWithDAAScore collection2 outpoint (blockDAAScore utxoEntry)
      then subtractionHavingDAAScoreInPlace rest collection2 (add res outpoint utxoEntry)
      else subtractionHavingDAAScoreInPlace rest collection2 res)"

fun subtractionWithRemainderHavingDAAScoreInPlace ::
    "utxoCollection \<Rightarrow> utxoCollection \<Rightarrow> utxoCollection \<Rightarrow> utxoCollection
     \<Rightarrow> utxoCollection \<times> utxoCollection" where
  "subtractionWithRemainderHavingDAAScoreInPlace [] collection2 res remainder = (res, remainder)"
| "subtractionWithRemainderHavingDAAScoreInPlace ((outpoint, utxoEntry) # rest) collection2 res remainder =
     (if \<not> containsWithDAAScore collection2 outpoint (blockDAAScore utxoEntry)
      then subtractionWithRemainderHavingDAAScoreInPlace rest collection2
             (add res outpoint utxoEntry) remainder
      else subtractionWithRemainderHavingDAAScoreInPlace rest collection2
             res (add remainder outpoint utxoEntry))"

fun utxoCollectionsEqual_loop :: "utxoCollection \<Rightarrow> utxoCollection \<Rightarrow> bool" where
  "utxoCollectionsEqual_loop [] b = True"
| "utxoCollectionsEqual_loop ((outpoint, entryA) # rest) b =
     (case Get b outpoint of
        None \<Rightarrow> False
      | Some entryB \<Rightarrow>
          if \<not> UTXOEntry_Equal entryA entryB then False else utxoCollectionsEqual_loop rest b)"

definition utxoCollectionsEqual :: "utxoCollection \<Rightarrow> utxoCollection \<Rightarrow> bool" where
  "utxoCollectionsEqual a b =
     (if Len a \<noteq> Len b then False else utxoCollectionsEqual_loop a b)"

section \<open>Diffs\<close>

record mutableUTXODiff =
  toAdd :: utxoCollection
  toRemove :: utxoCollection

datatype utxo_error =
    DiffFrom_RemoveAdd DomainOutpoint
  | DiffFrom_AddRemove DomainOutpoint
  | DiffFrom_RemoveRemove DomainOutpoint
  | DiffFrom_BaseMismatch
  | WithDiff_RemoveRemove DomainOutpoint
  | WithDiff_AddAdd DomainOutpoint
  | AddEntry_Twice DomainOutpoint
  | RemoveEntry_Twice DomainOutpoint
  | OutputIndex_TooBig nat
  | NilEntryPanic DomainOutpoint
  | TransactionIDPanic

definition newMutableUTXODiff :: mutableUTXODiff where
  "newMutableUTXODiff = \<lparr>toAdd = [], toRemove = []\<rparr>"

definition isNotAddedOutputRemovedWithDAAScore ::
    "mutableUTXODiff \<Rightarrow> mutableUTXODiff \<Rightarrow> DomainOutpoint \<Rightarrow> UTXOEntry \<Rightarrow> UTXOEntry \<Rightarrow> bool" where
  "isNotAddedOutputRemovedWithDAAScore this other outpoint utxoEntry diffEntry \<longleftrightarrow>
     \<not> (blockDAAScore diffEntry \<noteq> blockDAAScore utxoEntry \<and>
        (containsWithDAAScore (toAdd this) outpoint (blockDAAScore diffEntry) \<or>
         containsWithDAAScore (toRemove other) outpoint (blockDAAScore utxoEntry)))"

definition isNotRemovedOutputAddedWithDAAScore ::
    "mutableUTXODiff \<Rightarrow> mutableUTXODiff \<Rightarrow> DomainOutpoint \<Rightarrow> UTXOEntry \<Rightarrow> UTXOEntry \<Rightarrow> bool" where
  "isNotRemovedOutputAddedWithDAAScore this other outpoint utxoEntry diffEntry \<longleftrightarrow>
     \<not> (blockDAAScore diffEntry \<noteq> blockDAAScore utxoEntry \<and>
        (containsWithDAAScore (toRemove this) outpoint (blockDAAScore diffEntry) \<or>
         containsWithDAAScore (toAdd other) outpoint (blockDAAScore utxoEntry)))"

definition diffFrom :: "mutableUTXODiff \<Rightarrow> mutableUTXODiff \<Rightarrow> utxo_error + mutableUTXODiff" where
  "diffFrom this other =
    (case checkIntersectionWithRule (toRemove this) (toAdd other)
            (isNotAddedOutputRemovedWithDAAScore this other) of
       Some offendingOutpoint \<Rightarrow> Inl (DiffFrom_RemoveAdd offendingOutpoint)
     | None \<Rightarrow>
    (case checkIntersectionWithRule (toAdd this) (toRemove other)
            (isNotRemovedOutputAddedWithDAAScore this other) of
       Some offendingOutpoint \<Rightarrow> Inl (DiffFrom_AddRemove offendingOutpoint)
     | None \<Rightarrow>
    (case checkIntersectionWithRule (toRemove this) (toRemove other)
            (\<lambda>_ utxoEntry diffEntry. blockDAAScore utxoEntry \<noteq> blockDAAScore diffEntry) of
       Some offendingOutpoint \<Rightarrow> Inl (DiffFrom_RemoveRemove offendingOutpoint)
     | None \<Rightarrow>
    (let (resultToRemove, inBothToAdd) =
           subtractionWithRemainderHavingDAAScoreInPlace (toAdd this) (toAdd other) [] []
     in if checkIntersection inBothToAdd (toRemove this) \<noteq> checkIntersection inBothToAdd (toRemove other)
        then Inl DiffFrom_BaseMismatch
        else
          let resultToRemove = subtractionHavingDAAScoreInPlace (toRemove other) (toRemove this) resultToRemove;
              resultToAdd = subtractionHavingDAAScoreInPlace (toRemove this) (toRemove other) [];
              resultToAdd = subtractionHavingDAAScoreInPlace (toAdd other) (toAdd this) resultToAdd
          in Inr \<lparr>toAdd = resultToAdd, toRemove = resultToRemove\<rparr>))))"

definition withDiffInPlace :: "mutableUTXODiff \<Rightarrow> mutableUTXODiff \<Rightarrow> utxo_error + mutableUTXODiff" where
  "withDiffInPlace this other =
    (case checkIntersectionWithRule (toRemove other) (toRemove this)
            (\<lambda>outpoint entryToAdd _.
               \<not> containsWithDAAScore (toAdd this) outpoint (blockDAAScore entryToAdd)) of
       Some offendingOutpoint \<Rightarrow> Inl (WithDiff_RemoveRemove offendingOutpoint)
     | None \<Rightarrow>
    (case checkIntersectionWithRule (toAdd other) (toAdd this)
            (\<lambda>outpoint _ existingEntry.
               \<not> containsWithDAAScore (toRemove other) outpoint (blockDAAScore existingEntry)) of
       Some offendingOutpoint \<Rightarrow> Inl (WithDiff_AddAdd offendingOutpoint)
     | None \<Rightarrow>
    (let (intersection, thisToRemove) =
           intersectionWithRemainderHavingDAAScoreInPlace (toRemove other) (toAdd this) [] (toRemove this);
         thisToAdd = removeMultiple (toAdd this) intersection;
         (intersection, thisToAdd) =
           intersectionWithRemainderHavingDAAScoreInPlace (toAdd other) thisToRemove [] thisToAdd;
         thisToRemove = removeMultiple thisToRemove intersection
     in Inr \<lparr>toAdd = thisToAdd, toRemove = thisToRemove\<rparr>)))"

definition clone :: "mutableUTXODiff \<Rightarrow> mutableUTXODiff" where
  "clone mud = \<lparr>toAdd = toAdd mud, toRemove = toRemove mud\<rparr>"

definition withDiff :: "mutableUTXODiff \<Rightarrow> mutableUTXODiff \<Rightarrow> utxo_error + mutableUTXODiff" where
  "withDiff this diff = withDiffInPlace (clone this) diff"

definition Reversed :: "mutableUTXODiff \<Rightarrow> mutableUTXODiff" where
  "Reversed mud = \<lparr>toAdd = toRemove mud, toRemove = toAdd mud\<rparr>"

definition diffEqual :: "mutableUTXODiff \<Rightarrow> mutableUTXODiff \<Rightarrow> bool" where
  "diffEqual mud other \<longleftrightarrow>
     utxoCollectionsEqual (toAdd mud) (toAdd other) \<and> utxoCollectionsEqual (toRemove mud) (toRemove other)"

definition addEntry :: "mutableUTXODiff \<Rightarrow> DomainOutpoint \<Rightarrow> UTXOEntry \<Rightarrow> utxo_error + mutableUTXODiff" where
  "addEntry mud outpoint entry =
     (if containsWithDAAScore (toRemove mud) outpoint (blockDAAScore entry)
      then Inr (mud\<lparr>toRemove := remove (toRemove mud) outpoint\<rparr>)
      else if Contains (toAdd mud) outpoint then Inl (AddEntry_Twice outpoint)
      else Inr (mud\<lparr>toAdd := add (toAdd mud) outpoint entry\<rparr>))"

definition removeEntry :: "mutableUTXODiff \<Rightarrow> DomainOutpoint \<Rightarrow> UTXOEntry \<Rightarrow> utxo_error + mutableUTXODiff" where
  "removeEntry mud outpoint entry =
     (if containsWithDAAScore (toAdd mud) outpoint (blockDAAScore entry)
      then Inr (mud\<lparr>toAdd := remove (toAdd mud) outpoint\<rparr>)
      else if Contains (toRemove mud) outpoint then Inl (RemoveEntry_Twice outpoint)
      else Inr (mud\<lparr>toRemove := add (toRemove mud) outpoint entry\<rparr>))"

text \<open>The two loops of \<open>AddTransaction\<close>. Reading the DAA score of an input that carries no
  UTXO entry is a nil dereference.\<close>

fun removeInputs :: "mutableUTXODiff \<Rightarrow> DomainTransactionInput list \<Rightarrow> utxo_error + mutableUTXODiff" where
  "removeInputs mud [] = Inr mud"
| "removeInputs mud (input # rest) =
     (case inputUTXOEntry input of
        None \<Rightarrow> Inl (NilEntryPanic (PreviousOutpoint input))
      | Some entry \<Rightarrow>
          rbind (removeEntry mud (PreviousOutpoint input) entry) (\<lambda>mud. removeInputs mud rest))"

fun addOutputs ::
    "mutableUTXODiff \<Rightarrow> DomainTransactionID \<Rightarrow> bool \<Rightarrow> u64 \<Rightarrow> nat \<Rightarrow> DomainTransactionOutput list
     \<Rightarrow> utxo_error + mutableUTXODiff" where
  "addOutputs mud transactionID isCb daaScore i [] = Inr mud"
| "addOutputs mud transactionID isCb daaScore i (output # rest) =
     (if i > 2 ^ 32 - 1 then Inl (OutputIndex_TooBig i)
      else rbind (addEntry mud
                    \<lparr>outpointTransactionID = transactionID, outpointIndex = word_of_nat i\<rparr>
                    (NewUTXOEntry (outputValue output) (outputScriptPublicKey output) isCb daaScore))
             (\<lambda>mud. addOutputs mud transactionID isCb daaScore (Suc i) rest))"

text \<open>\<open>AddTransaction\<close> caches the transaction ID in the transaction, as \<open>TransactionID\<close> does,
  so it returns the transaction as well.\<close>

definition AddTransaction ::
    "keyed_hash \<Rightarrow> mutableUTXODiff \<Rightarrow> DomainTransaction \<Rightarrow> u64
     \<Rightarrow> utxo_error + (mutableUTXODiff \<times> DomainTransaction)" where
  "AddTransaction blake3 mud transaction daaScore =
     rbind (removeInputs mud (Inputs transaction)) (\<lambda>mud.
       (case TransactionID blake3 transaction of
          Inl _ \<Rightarrow> Inl TransactionIDPanic
        | Inr (transactionID, transaction) \<Rightarrow>
            rbind (addOutputs mud transactionID (IsCoinBase transaction) daaScore 0
                     (Outputs transaction))
              (\<lambda>mud. Inr (mud, transaction))))"

section \<open>Meaning of a diff\<close>

type_synonym utxoSet = "DomainOutpoint \<rightharpoonup> UTXOEntry"

definition applyDiff :: "mutableUTXODiff \<Rightarrow> utxoSet \<Rightarrow> utxoSet" where
  "applyDiff d base = (base |` (- dom (map_of (toRemove d)))) ++ map_of (toAdd d)"

text \<open>
  The documented assumption of the algebra, that an outpoint and its DAA score determine the
  entry, is the parameter \<open>E\<close>. A diff is applicable to a UTXO set when it removes entries of the
  set and adds outpoints the set does not have or that it removes, with another DAA score.
\<close>

definition entriesFrom :: "(DomainOutpoint \<Rightarrow> u64 \<Rightarrow> UTXOEntry) \<Rightarrow> utxoSet \<Rightarrow> bool" where
  "entriesFrom E m \<longleftrightarrow> (\<forall>p e. m p = Some e \<longrightarrow> e = E p (blockDAAScore e))"

definition applicable :: "(DomainOutpoint \<Rightarrow> u64 \<Rightarrow> UTXOEntry) \<Rightarrow> mutableUTXODiff \<Rightarrow> utxoSet \<Rightarrow> bool" where
  "applicable E d base \<longleftrightarrow>
     gomap_ok (toAdd d) \<and> gomap_ok (toRemove d) \<and>
     entriesFrom E base \<and> entriesFrom E (map_of (toAdd d)) \<and>
     map_of (toRemove d) \<subseteq>\<^sub>m base \<and>
     (\<forall>p e. map_of (toAdd d) p = Some e \<longrightarrow>
        base p = None \<or>
        (\<exists>e'. map_of (toRemove d) p = Some e' \<and> blockDAAScore e' \<noteq> blockDAAScore e))"


section \<open>What the loops compute\<close>

definition pick :: "(DomainOutpoint \<Rightarrow> UTXOEntry \<Rightarrow> bool) \<Rightarrow> utxoSet \<Rightarrow> utxoSet" where
  "pick P m = (\<lambda>p. case m p of None \<Rightarrow> None | Some e \<Rightarrow> if P p e then Some e else None)"

lemma pick_Some_iff: "pick P m p = Some e \<longleftrightarrow> m p = Some e \<and> P p e"
  by (auto simp: pick_def split: option.splits if_splits)

lemma pick_None_iff: "pick P m p = None \<longleftrightarrow> m p = None \<or> (\<exists>e. m p = Some e \<and> \<not> P p e)"
  by (auto simp: pick_def split: option.splits if_splits)

lemma pick_empty [simp]: "pick P Map.empty = Map.empty"
  by (simp add: pick_def fun_eq_iff)

lemma Contains_iff [simp]: "Contains c p \<longleftrightarrow> p \<in> dom (map_of c)"
  by (auto simp: Contains_def split: option.splits)

lemma containsWithDAAScore_iff:
  "containsWithDAAScore c p s \<longleftrightarrow> (\<exists>e. map_of c p = Some e \<and> blockDAAScore e = s)"
  by (auto simp: containsWithDAAScore_def Get_def split: option.splits)

lemma map_of_add [simp]: "map_of (add c p e) = (map_of c)(p \<mapsto> e)"
  by (simp add: add_def)

lemma map_of_remove [simp]: "map_of (remove c p) = (map_of c)(p := None)"
  by (simp add: remove_def)

lemma gomap_ok_add [simp]: "gomap_ok c \<Longrightarrow> gomap_ok (add c p e)"
  by (simp add: add_def)

lemma gomap_ok_remove [simp]: "gomap_ok c \<Longrightarrow> gomap_ok (remove c p)"
  by (simp add: remove_def)

lemma map_of_removeMultiple:
  "map_of (removeMultiple uc c) = map_of uc |` (- dom (map_of c))"
  by (induction uc c rule: removeMultiple.induct) (auto simp: restrict_map_def fun_eq_iff)

lemma gomap_ok_removeMultiple: "gomap_ok uc \<Longrightarrow> gomap_ok (removeMultiple uc c)"
  by (induction uc c rule: removeMultiple.induct) auto

lemma checkIntersection_iff:
  "checkIntersection c1 c2 \<longleftrightarrow> dom (map_of c1) \<inter> dom (map_of c2) \<noteq> {}"
proof (induction c1 c2 rule: checkIntersection.induct)
  case (2 p e rest c2)
  then show ?case
    by (auto simp: dom_def)
qed simp

lemma map_of_Cons_all:
  assumes "map_of c p = None"
  shows "(\<forall>q f. map_of ((p, e) # c) q = Some f \<longrightarrow> P q f) \<longleftrightarrow>
    P p e \<and> (\<forall>q f. map_of c q = Some f \<longrightarrow> P q f)"
proof -
  have "map_of ((p, e) # c) q = Some f \<longleftrightarrow> (q = p \<and> f = e) \<or> map_of c q = Some f" for q f
    using assms by auto
  then show ?thesis
    by (simp del: map_of.simps) blast
qed

lemma checkIntersectionWithRule_None_iff:
  assumes "gomap_ok c1"
  shows "checkIntersectionWithRule c1 c2 rule = None \<longleftrightarrow>
    (\<forall>p e. map_of c1 p = Some e \<longrightarrow> (\<forall>e'. map_of c2 p = Some e' \<longrightarrow> \<not> rule p e e'))"
  using assms
proof (induction c1 c2 rule rule: checkIntersectionWithRule.induct)
  case (2 p e rest c2 rule)
  have fresh: "map_of rest p = None" and ok: "gomap_ok rest"
    using "2.prems" by (auto simp: gomap_ok_Cons map_of_eq_None_iff)
  show ?case
  proof (cases "map_of c2 p")
    case None
    then show ?thesis
      using "2.IH" ok by (simp add: Get_def map_of_Cons_all [OF fresh] del: map_of.simps)
  next
    case (Some f')
    then show ?thesis
      using "2.IH" ok by (simp add: Get_def map_of_Cons_all [OF fresh] del: map_of.simps)
  qed
qed simp

lemma checkIntersectionWithRule_SomeD:
  "checkIntersectionWithRule c1 c2 rule = Some p \<Longrightarrow>
   \<exists>e e'. (p, e) \<in> set c1 \<and> map_of c2 p = Some e' \<and> rule p e e'"
  by (induction c1 c2 rule rule: checkIntersectionWithRule.induct)
    (auto simp: Get_def split: option.splits if_splits)

lemma pick_Cons:
  assumes "gomap_ok ((p, e) # c)"
  shows "pick P (map_of ((p, e) # c)) = (if P p e then (pick P (map_of c))(p \<mapsto> e) else pick P (map_of c))"
proof -
  have "map_of c p = None"
    using assms by (auto simp: gomap_ok_Cons map_of_eq_None_iff)
  then show ?thesis
    by (auto simp: pick_def fun_eq_iff)
qed

lemma map_add_upd_fresh: "m p = None \<Longrightarrow> a(p \<mapsto> e) ++ m = a ++ m(p \<mapsto> e)"
  by (auto simp: map_add_def fun_eq_iff split: option.splits)

lemma pick_fresh: "gomap_ok ((p, e) # c) \<Longrightarrow> pick P (map_of c) p = None"
  by (auto simp: pick_None_iff gomap_ok_Cons map_of_eq_None_iff)

lemma intersectionWithRemainder_spec:
  assumes "gomap_ok c1"
    and "intersectionWithRemainderHavingDAAScoreInPlace c1 c2 res remd = (res', rem')"
  shows "map_of res' = map_of res ++ pick (\<lambda>p e. containsWithDAAScore c2 p (blockDAAScore e)) (map_of c1)"
    and "map_of rem' = map_of remd ++ pick (\<lambda>p e. \<not> containsWithDAAScore c2 p (blockDAAScore e)) (map_of c1)"
    and "gomap_ok res \<Longrightarrow> gomap_ok res'" and "gomap_ok remd \<Longrightarrow> gomap_ok rem'"
  using assms
  by (induction c1 c2 res remd rule: intersectionWithRemainderHavingDAAScoreInPlace.induct)
    (auto simp: pick_Cons map_add_upd_fresh pick_fresh gomap_ok_Cons split: if_splits
      simp del: map_of.simps(2))

lemma subtractionWithRemainder_eq:
  "subtractionWithRemainderHavingDAAScoreInPlace c1 c2 res remd =
   prod.swap (intersectionWithRemainderHavingDAAScoreInPlace c1 c2 remd res)"
  by (induction c1 c2 res remd rule: subtractionWithRemainderHavingDAAScoreInPlace.induct) auto

lemma subtraction_eq:
  "subtractionHavingDAAScoreInPlace c1 c2 res =
   snd (intersectionWithRemainderHavingDAAScoreInPlace c1 c2 remd res)"
  by (induction c1 c2 res arbitrary: remd rule: subtractionHavingDAAScoreInPlace.induct) auto

lemma subtraction_spec:
  assumes "gomap_ok c1"
  shows "map_of (subtractionHavingDAAScoreInPlace c1 c2 res) =
           map_of res ++ pick (\<lambda>p e. \<not> containsWithDAAScore c2 p (blockDAAScore e)) (map_of c1)"
    and "gomap_ok res \<Longrightarrow> gomap_ok (subtractionHavingDAAScoreInPlace c1 c2 res)"
  using intersectionWithRemainder_spec(2,4) [OF assms, of c2 "[]" res _
      "snd (intersectionWithRemainderHavingDAAScoreInPlace c1 c2 [] res)", OF prod.collapse [symmetric]]
  by (simp_all add: subtraction_eq [of c1 c2 res "[]"])


section \<open>Composition\<close>

lemma clone_same [simp]: "clone d = d"
  by (simp add: clone_def)

lemmas applicable_defs = applicable_def entriesFrom_def map_le_def applyDiff_def

lemma applyDiff_simp:
  "applyDiff d s p =
     (case map_of (toAdd d) p of Some e \<Rightarrow> Some e
      | None \<Rightarrow> if p \<in> dom (map_of (toRemove d)) then None else s p)"
  by (auto simp: applyDiff_def map_add_def restrict_map_def split: option.splits)

lemma applicable_at:
  assumes "applicable E d s"
  shows "map_of (toRemove d) p = Some e \<Longrightarrow> s p = Some e"
    and "s p = Some e \<Longrightarrow> e = E p (blockDAAScore e)"
    and "map_of (toAdd d) p = Some e \<Longrightarrow> e = E p (blockDAAScore e)"
    and "map_of (toAdd d) p = Some e \<Longrightarrow> s p = None \<or>
        (\<exists>e'. map_of (toRemove d) p = Some e' \<and> blockDAAScore e' \<noteq> blockDAAScore e)"
    and "gomap_ok (toAdd d)" and "gomap_ok (toRemove d)"
  using assms unfolding applicable_def entriesFrom_def map_le_def dom_def
  by (metis (mono_tags, lifting) mem_Collect_eq option.distinct(1), blast+)

lemma entriesFrom_applyDiff: "applicable E d s \<Longrightarrow> entriesFrom E (applyDiff d s)"
  using applicable_at(2,3) unfolding entriesFrom_def
  by (simp add: applyDiff_simp split: option.split)

lemma withDiff_checks_pass:
  assumes d: "applicable E d s" and d': "applicable E d' (applyDiff d s)"
  shows "checkIntersectionWithRule (toRemove d') (toRemove d)
           (\<lambda>p e _. \<not> containsWithDAAScore (toAdd d) p (blockDAAScore e)) = None"
    and "checkIntersectionWithRule (toAdd d') (toAdd d)
           (\<lambda>p _ e. \<not> containsWithDAAScore (toRemove d') p (blockDAAScore e)) = None"
proof -
  show "checkIntersectionWithRule (toRemove d') (toRemove d)
           (\<lambda>p e _. \<not> containsWithDAAScore (toAdd d) p (blockDAAScore e)) = None"
    unfolding checkIntersectionWithRule_None_iff [OF applicable_at(6) [OF d']]
    by (auto simp: containsWithDAAScore_iff applyDiff_simp dest!: applicable_at(1) [OF d']
        split: option.splits if_splits)
  show "checkIntersectionWithRule (toAdd d') (toAdd d)
           (\<lambda>p _ e. \<not> containsWithDAAScore (toRemove d') p (blockDAAScore e)) = None"
    unfolding checkIntersectionWithRule_None_iff [OF applicable_at(5) [OF d']]
    using applicable_at(1) [OF d']
    by (fastforce simp: containsWithDAAScore_iff applyDiff_simp dest!: applicable_at(4) [OF d'])
qed

definition hasDAA :: "UTXOEntry option \<Rightarrow> UTXOEntry \<Rightarrow> bool" where
  "hasDAA x e \<longleftrightarrow> (case x of None \<Rightarrow> False | Some e' \<Rightarrow> blockDAAScore e' = blockDAAScore e)"

lemma hasDAA_simps [simp]:
  "\<not> hasDAA None e" "hasDAA (Some e') e \<longleftrightarrow> blockDAAScore e' = blockDAAScore e"
  by (simp_all add: hasDAA_def)

lemma containsWithDAAScore_hasDAA:
  "containsWithDAAScore c p (blockDAAScore e) = hasDAA (map_of c p) e"
  by (auto simp: containsWithDAAScore_def Get_def hasDAA_def)

text \<open>What \<open>withDiffInPlace\<close> leaves at one outpoint, from what the two diffs have there.\<close>

definition removed_at ::
    "UTXOEntry option \<Rightarrow> UTXOEntry option \<Rightarrow> UTXOEntry option \<Rightarrow> UTXOEntry option" where
  "removed_at a r r' = (case r' of None \<Rightarrow> r | Some e \<Rightarrow> if hasDAA a e then r else Some e)"

definition result_remove_at ::
    "UTXOEntry option \<Rightarrow> UTXOEntry option \<Rightarrow> UTXOEntry option \<Rightarrow> UTXOEntry option \<Rightarrow> UTXOEntry option" where
  "result_remove_at a r a' r' =
     (case a' of None \<Rightarrow> removed_at a r r'
      | Some e \<Rightarrow> if hasDAA (removed_at a r r') e then None else removed_at a r r')"

definition result_add_at ::
    "UTXOEntry option \<Rightarrow> UTXOEntry option \<Rightarrow> UTXOEntry option \<Rightarrow> UTXOEntry option \<Rightarrow> UTXOEntry option" where
  "result_add_at a r a' r' =
     (let A = (case r' of None \<Rightarrow> a | Some e \<Rightarrow> if hasDAA a e then None else a)
      in case a' of None \<Rightarrow> A | Some e \<Rightarrow> if hasDAA (removed_at a r r') e then A else Some e)"

lemma withDiffInPlace_at:
  assumes d: "applicable E d s" and d': "applicable E d' (applyDiff d s)"
  obtains r where "withDiffInPlace d d' = Inr r"
    and "gomap_ok (toAdd r)" and "gomap_ok (toRemove r)"
    and "\<And>p. map_of (toRemove r) p = result_remove_at (map_of (toAdd d) p) (map_of (toRemove d) p)
                                        (map_of (toAdd d') p) (map_of (toRemove d') p)"
    and "\<And>p. map_of (toAdd r) p = result_add_at (map_of (toAdd d) p) (map_of (toRemove d) p)
                                        (map_of (toAdd d') p) (map_of (toRemove d') p)"
proof -
  obtain i1 R1 where 1: "intersectionWithRemainderHavingDAAScoreInPlace
      (toRemove d') (toAdd d) [] (toRemove d) = (i1, R1)" by fastforce
  obtain i2 A2 where 2: "intersectionWithRemainderHavingDAAScoreInPlace
      (toAdd d') R1 [] (removeMultiple (toAdd d) i1) = (i2, A2)" by fastforce
  note spec1 = intersectionWithRemainder_spec [OF applicable_at(6) [OF d'] 1]
  note spec2 = intersectionWithRemainder_spec [OF applicable_at(5) [OF d'] 2]
  have R1: "map_of R1 p = removed_at (map_of (toAdd d) p) (map_of (toRemove d) p) (map_of (toRemove d') p)" for p
    by (simp add: spec1 removed_at_def map_add_def pick_def containsWithDAAScore_hasDAA split: option.split)
  have "withDiffInPlace d d' = Inr \<lparr>toAdd = A2, toRemove = removeMultiple R1 i2\<rparr>"
    using 1 2 withDiff_checks_pass [OF d d'] by (simp add: withDiffInPlace_def)
  then show thesis
  proof (rule that)
    show "gomap_ok (toAdd \<lparr>toAdd = A2, toRemove = removeMultiple R1 i2\<rparr>)"
      and "gomap_ok (toRemove \<lparr>toAdd = A2, toRemove = removeMultiple R1 i2\<rparr>)"
      using spec1(4) spec2(4) applicable_at(5,6) [OF d] by (simp_all add: gomap_ok_removeMultiple)
  qed (simp_all add: map_of_removeMultiple spec1(1) spec2(1,2) result_remove_at_def result_add_at_def R1
        restrict_map_def map_add_def pick_def dom_def containsWithDAAScore_hasDAA Let_def split: option.split)
qed

lemma same_entry:
  assumes d: "applicable E d s" and d': "applicable E d' s'"
  shows "map_of (toAdd d') p = Some e' \<Longrightarrow> s p = Some e \<Longrightarrow> blockDAAScore e' = blockDAAScore e \<Longrightarrow> e' = e"
    and "map_of (toAdd d') p = Some e' \<Longrightarrow> map_of (toAdd d) p = Some e \<Longrightarrow>
         blockDAAScore e' = blockDAAScore e \<Longrightarrow> e' = e"
  using applicable_at(3) [OF d'] applicable_at(2,3) [OF d] by metis+

text \<open>The two results of \<open>withDiffInPlace\<close> at an outpoint, as a table over the cases that
  applicability leaves: \<open>s\<close> is the entry of the base set, \<open>a\<close>, \<open>r\<close> what the first diff adds
  and removes, \<open>a'\<close>, \<open>r'\<close> what the second does.\<close>

definition opt_applicable :: "UTXOEntry option \<Rightarrow> UTXOEntry option \<Rightarrow> UTXOEntry option \<Rightarrow> bool" where
  "opt_applicable a r s \<longleftrightarrow> (r = None \<or> r = s) \<and>
     (a = None \<or> s = None \<or> (\<exists>e e'. a = Some e \<and> r = Some e' \<and> blockDAAScore e' \<noteq> blockDAAScore e))"

definition opt_apply :: "UTXOEntry option \<Rightarrow> UTXOEntry option \<Rightarrow> UTXOEntry option \<Rightarrow> UTXOEntry option" where
  "opt_apply a r s = (case a of Some e \<Rightarrow> Some e | None \<Rightarrow> if r \<noteq> None then None else s)"

lemma opt_applicable_cases:
  assumes "opt_applicable a r s"
  obtains
    (keep) "r = None" "a = None"
  | (insert) x where "s = None" "r = None" "a = Some x"
  | (delete) y where "s = Some y" "r = Some y" "a = None"
  | (replace) x y where "s = Some y" "r = Some y" "a = Some x" "blockDAAScore y \<noteq> blockDAAScore x"
  using assms unfolding opt_applicable_def by (cases s; cases r; cases a) auto

lemma compose_table:
  assumes "opt_applicable a r s" and "opt_applicable a' r' (opt_apply a r s)"
    and same: "\<And>e e'. a' = Some e' \<Longrightarrow> s = Some e \<Longrightarrow> blockDAAScore e' = blockDAAScore e \<Longrightarrow> e' = e"
  shows "opt_apply (result_add_at a r a' r') (result_remove_at a r a' r') s = opt_apply a' r' (opt_apply a r s)
       \<and> opt_applicable (result_add_at a r a' r') (result_remove_at a r a' r') s"
  using assms(1)
proof (cases rule: opt_applicable_cases)
qed (use assms(2) in \<open>cases rule: opt_applicable_cases,
     auto simp: opt_apply_def opt_applicable_def result_remove_at_def result_add_at_def removed_at_def
       dest: same split: option.splits if_splits\<close>)+

lemma result_add_from:
  "result_add_at a r a' r' = Some e \<Longrightarrow> a = Some e \<or> a' = Some e"
  by (auto simp: result_add_at_def Let_def split: option.splits if_splits)

lemma applicable_iff_at:
  "applicable E d s \<longleftrightarrow> gomap_ok (toAdd d) \<and> gomap_ok (toRemove d) \<and>
     entriesFrom E s \<and> entriesFrom E (map_of (toAdd d)) \<and>
     (\<forall>p. opt_applicable (map_of (toAdd d) p) (map_of (toRemove d) p) (s p))"
proof -
  have "map_of (toRemove d) \<subseteq>\<^sub>m s \<longleftrightarrow> (\<forall>p. map_of (toRemove d) p = None \<or> map_of (toRemove d) p = s p)"
    unfolding map_le_def Ball_def domIff disj_imp ..
  moreover have "(\<forall>e. map_of (toAdd d) p = Some e \<longrightarrow> s p = None \<or>
        (\<exists>e'. map_of (toRemove d) p = Some e' \<and> blockDAAScore e' \<noteq> blockDAAScore e)) \<longleftrightarrow>
      (map_of (toAdd d) p = None \<or> s p = None \<or> (\<exists>e e'. map_of (toAdd d) p = Some e \<and>
        map_of (toRemove d) p = Some e' \<and> blockDAAScore e' \<noteq> blockDAAScore e))" for p
    by (cases "map_of (toAdd d) p") auto
  ultimately show ?thesis
    unfolding applicable_def opt_applicable_def by (simp add: all_conj_distrib)
qed

lemma applyDiff_at: "applyDiff d s p = opt_apply (map_of (toAdd d) p) (map_of (toRemove d) p) (s p)"
  unfolding applyDiff_simp opt_apply_def domIff ..

lemma withDiffInPlace_compose:
  assumes d: "applicable E d s" and d': "applicable E d' (applyDiff d s)"
  shows "\<exists>r. withDiffInPlace d d' = Inr r \<and> applicable E r s \<and>
             applyDiff r s = applyDiff d' (applyDiff d s)"
proof -
  obtain r where r: "withDiffInPlace d d' = Inr r" "gomap_ok (toAdd r)" "gomap_ok (toRemove r)"
    and R: "\<And>p. map_of (toRemove r) p = result_remove_at (map_of (toAdd d) p) (map_of (toRemove d) p)
                                        (map_of (toAdd d') p) (map_of (toRemove d') p)"
    and A: "\<And>p. map_of (toAdd r) p = result_add_at (map_of (toAdd d) p) (map_of (toRemove d) p)
                                        (map_of (toAdd d') p) (map_of (toRemove d') p)"
    using withDiffInPlace_at [OF d d'] by metis
  have "opt_applicable (map_of (toAdd d) p) (map_of (toRemove d) p) (s p)"
    and "opt_applicable (map_of (toAdd d') p) (map_of (toRemove d') p)
           (opt_apply (map_of (toAdd d) p) (map_of (toRemove d) p) (s p))" for p
    using d d' unfolding applicable_iff_at applyDiff_at by simp_all
  note table = compose_table [OF this same_entry(1) [OF d d'], folded A R, folded applyDiff_at]
  have "e = E p (blockDAAScore e)" if "map_of (toAdd r) p = Some e" for p e
    using result_add_from [OF that [unfolded A]] applicable_at(3) [OF d] applicable_at(3) [OF d'] by blast
  then have "entriesFrom E (map_of (toAdd r))"
    unfolding entriesFrom_def by blast
  then show ?thesis
    using r table d unfolding applicable_iff_at by (intro exI [of _ r]) (simp add: fun_eq_iff)
qed

section \<open>Difference\<close>

lemma diffFrom_checks_pass:
  assumes d: "applicable E d s" and d': "applicable E d' s"
  shows "checkIntersectionWithRule (toRemove d) (toAdd d') (isNotAddedOutputRemovedWithDAAScore d d') = None"
    and "checkIntersectionWithRule (toAdd d) (toRemove d') (isNotRemovedOutputAddedWithDAAScore d d') = None"
    and "checkIntersectionWithRule (toRemove d) (toRemove d')
           (\<lambda>_ e e'. blockDAAScore e \<noteq> blockDAAScore e') = None"
  unfolding checkIntersectionWithRule_None_iff [OF applicable_at(6) [OF d]]
    checkIntersectionWithRule_None_iff [OF applicable_at(5) [OF d]]
    isNotAddedOutputRemovedWithDAAScore_def isNotRemovedOutputAddedWithDAAScore_def containsWithDAAScore_iff
  using applicable_at(1) [OF d] applicable_at(1) [OF d'] applicable_at(4) [OF d] applicable_at(4) [OF d']
  by (metis option.distinct(1) option.inject)+

lemma diffFrom_base_check:
  assumes d: "applicable E d s" and d': "applicable E d' s"
    and both: "map_of both = pick (\<lambda>p e. containsWithDAAScore (toAdd d') p (blockDAAScore e)) (map_of (toAdd d))"
  shows "checkIntersection both (toRemove d) = checkIntersection both (toRemove d')"
proof -
  have "p \<in> dom (map_of (toRemove d)) \<longleftrightarrow> p \<in> dom (map_of (toRemove d'))" if p: "p \<in> dom (map_of both)" for p
  proof -
    obtain e e' where "map_of (toAdd d) p = Some e" "map_of (toAdd d') p = Some e'"
      using p unfolding both by (fastforce simp: pick_Some_iff containsWithDAAScore_iff dom_def)
    then show ?thesis
      using applicable_at(4) [OF d, of p e] applicable_at(4) [OF d', of p e']
        applicable_at(1) [OF d, of p] applicable_at(1) [OF d', of p] by force
  qed
  then show ?thesis
    unfolding checkIntersection_iff by blast
qed

definition minus_at :: "UTXOEntry option \<Rightarrow> UTXOEntry option \<Rightarrow> UTXOEntry option" where
  "minus_at x y = (case x of None \<Rightarrow> None | Some e \<Rightarrow> if hasDAA y e then None else Some e)"

definition override_at :: "UTXOEntry option \<Rightarrow> UTXOEntry option \<Rightarrow> UTXOEntry option" where
  "override_at x y = (case y of None \<Rightarrow> x | Some e \<Rightarrow> Some e)"

lemma subtraction_at:
  "gomap_ok c1 \<Longrightarrow> map_of (subtractionHavingDAAScoreInPlace c1 c2 res) p =
     override_at (map_of res p) (minus_at (map_of c1 p) (map_of c2 p))"
  by (simp add: subtraction_spec map_add_def pick_def override_at_def minus_at_def
      containsWithDAAScore_hasDAA split: option.split)

lemma diffFrom_at:
  assumes d: "applicable E d s" and d': "applicable E d' s"
  obtains r where "diffFrom d d' = Inr r" and "gomap_ok (toAdd r)" and "gomap_ok (toRemove r)"
    and "\<And>p. map_of (toRemove r) p =
      override_at (minus_at (map_of (toAdd d) p) (map_of (toAdd d') p))
                  (minus_at (map_of (toRemove d') p) (map_of (toRemove d) p))"
    and "\<And>p. map_of (toAdd r) p =
      override_at (minus_at (map_of (toRemove d) p) (map_of (toRemove d') p))
                  (minus_at (map_of (toAdd d') p) (map_of (toAdd d) p))"
proof -
  obtain both R where 1: "intersectionWithRemainderHavingDAAScoreInPlace
      (toAdd d) (toAdd d') [] [] = (both, R)" by fastforce
  note spec = intersectionWithRemainder_spec [OF applicable_at(5) [OF d] 1]
  have R: "map_of R p = minus_at (map_of (toAdd d) p) (map_of (toAdd d') p)" for p
    by (simp add: spec minus_at_def pick_def containsWithDAAScore_hasDAA split: option.split)
  let ?r = "\<lparr>toAdd = subtractionHavingDAAScoreInPlace (toAdd d') (toAdd d)
                  (subtractionHavingDAAScoreInPlace (toRemove d) (toRemove d') []),
             toRemove = subtractionHavingDAAScoreInPlace (toRemove d') (toRemove d) R\<rparr>"
  have "diffFrom d d' = Inr ?r"
    using 1 diffFrom_checks_pass [OF d d'] diffFrom_base_check [OF d d', of both] spec(1)
    by (simp add: diffFrom_def subtractionWithRemainder_eq Let_def)
  then show thesis
    using spec(4) subtraction_spec(2) applicable_at(5,6) [OF d] applicable_at(5,6) [OF d']
    by (rule_tac that [of ?r]) (simp_all add: subtraction_at R override_at_def split: option.split)
qed

lemma difference_table:
  assumes "opt_applicable a r s" and "opt_applicable a' r' s"
    and same: "\<And>e e'. a' = Some e' \<Longrightarrow> a = Some e \<Longrightarrow> blockDAAScore e' = blockDAAScore e \<Longrightarrow> e' = e"
  shows "opt_apply (override_at (minus_at r r') (minus_at a' a)) (override_at (minus_at a a') (minus_at r' r))
           (opt_apply a r s) = opt_apply a' r' s
       \<and> opt_applicable (override_at (minus_at r r') (minus_at a' a))
           (override_at (minus_at a a') (minus_at r' r)) (opt_apply a r s)"
  using assms(1)
proof (cases rule: opt_applicable_cases)
qed (use assms(2) in \<open>cases rule: opt_applicable_cases,
     auto simp: opt_apply_def opt_applicable_def override_at_def minus_at_def
       dest: same split: option.splits if_splits\<close>)+

lemma diffFrom_difference:
  assumes d: "applicable E d s" and d': "applicable E d' s"
  shows "\<exists>r. diffFrom d d' = Inr r \<and> applicable E r (applyDiff d s) \<and>
             applyDiff r (applyDiff d s) = applyDiff d' s"
proof -
  obtain r where r: "diffFrom d d' = Inr r" "gomap_ok (toAdd r)" "gomap_ok (toRemove r)"
    and R: "\<And>p. map_of (toRemove r) p =
      override_at (minus_at (map_of (toAdd d) p) (map_of (toAdd d') p))
                  (minus_at (map_of (toRemove d') p) (map_of (toRemove d) p))"
    and A: "\<And>p. map_of (toAdd r) p =
      override_at (minus_at (map_of (toRemove d) p) (map_of (toRemove d') p))
                  (minus_at (map_of (toAdd d') p) (map_of (toAdd d) p))"
    using diffFrom_at [OF d d'] by metis
  have "opt_applicable (map_of (toAdd d) p) (map_of (toRemove d) p) (s p)"
    and "opt_applicable (map_of (toAdd d') p) (map_of (toRemove d') p) (s p)" for p
    using d d' unfolding applicable_iff_at by simp_all
  note table = difference_table [OF this same_entry(2) [OF d d'], folded A R, folded applyDiff_at]
  have "map_of (toRemove d) p = Some e \<or> map_of (toAdd d') p = Some e" if "map_of (toAdd r) p = Some e" for p e
    using that unfolding A by (auto simp: override_at_def minus_at_def split: option.splits if_splits)
  then have "e = E p (blockDAAScore e)" if "map_of (toAdd r) p = Some e" for p e
    using that applicable_at(1,2) [OF d] applicable_at(3) [OF d'] by blast
  then have "entriesFrom E (map_of (toAdd r))"
    unfolding entriesFrom_def by blast
  then show ?thesis
    using r table entriesFrom_applyDiff [OF d] unfolding applicable_iff_at
    by (intro exI [of _ r]) (simp add: fun_eq_iff)
qed

section \<open>Inversion\<close>

lemma reversed_table:
  assumes "opt_applicable a r s"
  shows "opt_apply r a (opt_apply a r s) = s \<and> opt_applicable r a (opt_apply a r s)"
  using assms
  by (cases rule: opt_applicable_cases) (auto simp: opt_apply_def opt_applicable_def)

lemma Reversed_inverse:
  assumes d: "applicable E d s"
  shows "applicable E (Reversed d) (applyDiff d s) \<and> applyDiff (Reversed d) (applyDiff d s) = s"
proof -
  have "opt_applicable (map_of (toAdd d) p) (map_of (toRemove d) p) (s p)" for p
    using d unfolding applicable_iff_at by simp
  note table = reversed_table [OF this, folded applyDiff_at]
  have "entriesFrom E (map_of (toRemove d))"
    unfolding entriesFrom_def using applicable_at(1,2) [OF d] by blast
  then show ?thesis
    using d table entriesFrom_applyDiff [OF d] unfolding applicable_iff_at
    by (simp add: Reversed_def fun_eq_iff applyDiff_at)
qed

lemma newMutableUTXODiff_neutral:
  "entriesFrom E s \<Longrightarrow> applicable E newMutableUTXODiff s \<and> applyDiff newMutableUTXODiff s = s"
  by (simp add: applicable_iff_at opt_applicable_def newMutableUTXODiff_def entriesFrom_def
      applyDiff_at fun_eq_iff opt_apply_def)

interpretation utxo_diffs: patch_algebra "entriesFrom E" "applicable E" applyDiff newMutableUTXODiff
    withDiffInPlace diffFrom Reversed for E
proof
  show "applicable E d s \<Longrightarrow> entriesFrom E s \<and> entriesFrom E (applyDiff d s)" for d s
    using entriesFrom_applyDiff by (simp add: applicable_def)
qed (fact newMutableUTXODiff_neutral withDiffInPlace_compose diffFrom_difference Reversed_inverse)+

section \<open>Adding a transaction\<close>

lemma applicable_update_at:
  assumes d: "applicable E d s" and ok: "gomap_ok (toAdd r)" "gomap_ok (toRemove r)"
    and same: "\<And>q. q \<noteq> p \<Longrightarrow> map_of (toAdd r) q = map_of (toAdd d) q \<and> map_of (toRemove r) q = map_of (toRemove d) q"
    and at: "opt_applicable (map_of (toAdd r) p) (map_of (toRemove r) p) (s p)"
    and from_E: "\<And>e. map_of (toAdd r) p = Some e \<Longrightarrow> e = E p (blockDAAScore e)"
  shows "applicable E r s" and "applyDiff r s = (applyDiff d s)(p := applyDiff r s p)"
proof -
  have "opt_applicable (map_of (toAdd r) q) (map_of (toRemove r) q) (s q)" for q
    using d same at unfolding applicable_iff_at by metis
  moreover have "e = E q (blockDAAScore e)" if "map_of (toAdd r) q = Some e" for q e
    using that same [of q] from_E applicable_at(3) [OF d, of q e] by (cases "q = p"; metis)
  ultimately show "applicable E r s"
    using d ok unfolding applicable_iff_at entriesFrom_def by blast
  show "applyDiff r s = (applyDiff d s)(p := applyDiff r s p)"
    using same by (auto simp: fun_eq_iff applyDiff_at)
qed

lemma removeEntry_spec:
  assumes d: "applicable E d s" and p: "applyDiff d s p = Some e"
  shows "\<exists>r. removeEntry d p e = Inr r \<and> applicable E r s \<and> applyDiff r s = (applyDiff d s)(p := None)"
proof -
  obtain r where r: "removeEntry d p e = Inr r" "gomap_ok (toAdd r)" "gomap_ok (toRemove r)"
    and same: "\<And>q. q \<noteq> p \<Longrightarrow> map_of (toAdd r) q = map_of (toAdd d) q \<and> map_of (toRemove r) q = map_of (toRemove d) q"
    and at: "map_of (toAdd r) p = None"
      "map_of (toRemove r) p = (if map_of (toAdd d) p = Some e then map_of (toRemove d) p else Some e)"
    using p applicable_at(5,6) [OF d] unfolding applyDiff_simp removeEntry_def containsWithDAAScore_hasDAA
    by (auto split: option.splits if_splits)
  have "opt_applicable (map_of (toAdd d) p) (map_of (toRemove d) p) (s p)"
    using d unfolding applicable_iff_at by simp
  then have "opt_applicable (map_of (toAdd r) p) (map_of (toRemove r) p) (s p) \<and> applyDiff r s p = None"
    using p at unfolding applyDiff_at
    by (auto elim!: opt_applicable_cases simp: opt_apply_def opt_applicable_def split: if_splits option.splits)
  then show ?thesis
    using r at applicable_update_at [OF d r(2,3) same] by (metis option.distinct(1))
qed

lemma addEntry_spec:
  assumes d: "applicable E d s" and p: "applyDiff d s p = None" and e: "e = E p (blockDAAScore e)"
  shows "\<exists>r. addEntry d p e = Inr r \<and> applicable E r s \<and> applyDiff r s = (applyDiff d s)(p \<mapsto> e)"
proof -
  obtain r where r: "addEntry d p e = Inr r" "gomap_ok (toAdd r)" "gomap_ok (toRemove r)"
    and same: "\<And>q. q \<noteq> p \<Longrightarrow> map_of (toAdd r) q = map_of (toAdd d) q \<and> map_of (toRemove r) q = map_of (toRemove d) q"
    and at: "map_of (toRemove r) p =
        (if hasDAA (map_of (toRemove d) p) e then None else map_of (toRemove d) p)"
      "map_of (toAdd r) p = (if hasDAA (map_of (toRemove d) p) e then None else Some e)"
    using p applicable_at(5,6) [OF d] unfolding applyDiff_at addEntry_def containsWithDAAScore_hasDAA
    by (cases "hasDAA (map_of (toRemove d) p) e"; cases "map_of (toAdd d) p")
      (auto simp: opt_apply_def domIff)
  have same_e: "e' = e" if "s p = Some e'" "blockDAAScore e' = blockDAAScore e" for e'
    using applicable_at(2) [OF d that(1)] that(2) e by metis
  have "opt_applicable (map_of (toAdd d) p) (map_of (toRemove d) p) (s p)"
    using d unfolding applicable_iff_at by simp
  then have "opt_applicable (map_of (toAdd r) p) (map_of (toRemove r) p) (s p) \<and> applyDiff r s p = Some e"
    using p at same_e unfolding applyDiff_at
    by (cases "s p") (auto elim!: opt_applicable_cases simp: opt_apply_def opt_applicable_def split: if_splits option.splits)
  moreover have "e' = E p (blockDAAScore e')" if "map_of (toAdd r) p = Some e'" for e'
    using that at e by (auto split: if_splits)
  ultimately show ?thesis
    using r applicable_update_at [OF d r(2,3) same] by metis
qed

text \<open>What accepting a transaction means for a UTXO set: its inputs are spent, its outputs
  become entries under the transaction's ID, with the DAA score of the accepting block.\<close>

fun spendInputs :: "DomainTransactionInput list \<Rightarrow> utxoSet \<Rightarrow> utxoSet" where
  "spendInputs [] S = S"
| "spendInputs (input # rest) S = spendInputs rest (S(PreviousOutpoint input := None))"

fun createOutputs ::
    "DomainTransactionID \<Rightarrow> bool \<Rightarrow> u64 \<Rightarrow> nat \<Rightarrow> DomainTransactionOutput list \<Rightarrow> utxoSet \<Rightarrow> utxoSet" where
  "createOutputs txid isCb daaScore i [] S = S"
| "createOutputs txid isCb daaScore i (output # rest) S =
     createOutputs txid isCb daaScore (Suc i) rest
       (S(\<lparr>outpointTransactionID = txid, outpointIndex = word_of_nat i\<rparr> \<mapsto>
          NewUTXOEntry (outputValue output) (outputScriptPublicKey output) isCb daaScore))"

definition spendable :: "DomainTransactionInput list \<Rightarrow> utxoSet \<Rightarrow> bool" where
  "spendable inputs S \<longleftrightarrow> distinct (map PreviousOutpoint inputs) \<and>
     (\<forall>input \<in> set inputs. \<exists>e. inputUTXOEntry input = Some e \<and> S (PreviousOutpoint input) = Some e)"

definition creatable ::
    "(DomainOutpoint \<Rightarrow> u64 \<Rightarrow> UTXOEntry) \<Rightarrow> DomainTransactionID \<Rightarrow> bool \<Rightarrow> u64 \<Rightarrow> nat
     \<Rightarrow> DomainTransactionOutput list \<Rightarrow> utxoSet \<Rightarrow> bool" where
  "creatable E txid isCb daaScore i outs S \<longleftrightarrow> i + length outs \<le> 2 ^ 32 \<and>
     (\<forall>j < length outs. let p = \<lparr>outpointTransactionID = txid, outpointIndex = word_of_nat (i + j)\<rparr>
        in S p = None \<and> E p daaScore = NewUTXOEntry (outputValue (outs ! j))
                                  (outputScriptPublicKey (outs ! j)) isCb daaScore)"

lemma removeInputs_spec:
  assumes "applicable E d s" and "spendable inputs (applyDiff d s)"
  shows "\<exists>r. removeInputs d inputs = Inr r \<and> applicable E r s \<and>
             applyDiff r s = spendInputs inputs (applyDiff d s)"
  using assms
proof (induction inputs arbitrary: d)
  case (Cons input rest)
  obtain e where e: "inputUTXOEntry input = Some e" "applyDiff d s (PreviousOutpoint input) = Some e"
    using Cons.prems(2) by (auto simp: spendable_def)
  obtain r where r: "removeEntry d (PreviousOutpoint input) e = Inr r" "applicable E r s"
      "applyDiff r s = (applyDiff d s)(PreviousOutpoint input := None)"
    using removeEntry_spec [OF Cons.prems(1) e(2)] by blast
  have "spendable rest (applyDiff r s)"
    using Cons.prems(2) unfolding r(3) spendable_def by (auto simp: image_iff)
  from Cons.IH [OF r(2) this] show ?case
    by (simp only: removeInputs.simps spendInputs.simps e(1) r option.case rbind_simps)
qed simp

lemma u32_of_nat_eq_iff:
  "i < 2 ^ 32 \<Longrightarrow> j < 2 ^ 32 \<Longrightarrow> (word_of_nat i :: u32) = word_of_nat j \<longleftrightarrow> i = j"
  by (simp add: word_of_nat_eq_iff take_bit_nat_eq_self)

lemma addOutputs_spec:
  assumes "applicable E d s" and "creatable E txid isCb daaScore i outs (applyDiff d s)"
  shows "\<exists>r. addOutputs d txid isCb daaScore i outs = Inr r \<and> applicable E r s \<and>
             applyDiff r s = createOutputs txid isCb daaScore i outs (applyDiff d s)"
  using assms
proof (induction outs arbitrary: d i)
  case (Cons out rest)
  let ?p = "\<lambda>i. \<lparr>outpointTransactionID = txid, outpointIndex = word_of_nat i\<rparr>"
  let ?e = "NewUTXOEntry (outputValue out) (outputScriptPublicKey out) isCb daaScore"
  have bound: "i + length rest < 2 ^ 32"
    and here: "applyDiff d s (?p i) = None" "E (?p i) daaScore = ?e"
    using Cons.prems(2) unfolding creatable_def Let_def by fastforce+
  obtain r where r: "addEntry d (?p i) ?e = Inr r" "applicable E r s"
      "applyDiff r s = (applyDiff d s)(?p i \<mapsto> ?e)"
    using addEntry_spec [OF Cons.prems(1) here(1), of ?e] here(2)
    by (auto simp: NewUTXOEntry_def)
  have other: "?p (Suc i + j) \<noteq> ?p i" if "j < length rest" for j
    using bound that by (simp add: u32_of_nat_eq_iff del: of_nat_Suc of_nat_add)
  have "creatable E txid isCb daaScore (Suc i) rest (applyDiff r s)"
    unfolding creatable_def
  proof (intro conjI allI impI)
    fix j assume j: "j < length rest"
    have "applyDiff d s (?p (i + Suc j)) = None \<and> E (?p (i + Suc j)) daaScore =
        NewUTXOEntry (outputValue ((out # rest) ! Suc j)) (outputScriptPublicKey ((out # rest) ! Suc j)) isCb daaScore"
      using Cons.prems(2) j unfolding creatable_def Let_def by (metis Suc_less_eq length_Cons)
    then show "let p = ?p (Suc i + j) in applyDiff r s p = None \<and> E p daaScore =
        NewUTXOEntry (outputValue (rest ! j)) (outputScriptPublicKey (rest ! j)) isCb daaScore"
      using other [OF j] unfolding r(3) Let_def by (simp del: of_nat_add of_nat_Suc)
  qed (use bound in simp)
  moreover have small: "(i > 2 ^ 32 - 1) = False"
    using bound by simp
  ultimately show ?case
    using Cons.IH [OF r(2), of "Suc i"] by (simp only: addOutputs.simps createOutputs.simps r rbind_simps small if_False)
qed simp

lemma spendInputs_other: "S p = None \<Longrightarrow> spendInputs inputs S p = None"
  by (induction inputs S rule: spendInputs.induct) auto

lemma AddTransaction_spec:
  assumes d: "applicable E d s" and ins: "spendable (Inputs tx) (applyDiff d s)"
    and txid: "TransactionID blake3 tx = Inr (txid, tx')"
    and outs: "creatable E txid (IsCoinBase tx) daaScore 0 (Outputs tx) (applyDiff d s)"
  shows "\<exists>r. AddTransaction blake3 d tx daaScore = Inr (r, tx') \<and> applicable E r s \<and>
     applyDiff r s = createOutputs txid (IsCoinBase tx) daaScore 0 (Outputs tx)
                       (spendInputs (Inputs tx) (applyDiff d s))"
proof -
  have tx': "IsCoinBase tx' = IsCoinBase tx" "Outputs tx' = Outputs tx"
    using txid by (auto simp: TransactionID_def IsCoinBase_def Let_def
        split: option.splits if_splits sum.splits)
  obtain r where r: "removeInputs d (Inputs tx) = Inr r" "applicable E r s"
      "applyDiff r s = spendInputs (Inputs tx) (applyDiff d s)"
    using removeInputs_spec [OF d ins] by blast
  have "creatable E txid (IsCoinBase tx) daaScore 0 (Outputs tx) (applyDiff r s)"
    using outs spendInputs_other unfolding creatable_def r(3) Let_def by blast
  from addOutputs_spec [OF r(2) this] show ?thesis
    unfolding r(3) using r(1) txid tx' by (auto simp: AddTransaction_def)
qed

section \<open>A concrete history\<close>

lemma replicate_eq_Cons_iff: "replicate n x = y # ys \<longleftrightarrow> (\<exists>m. n = Suc m \<and> x = y \<and> ys = replicate m x)"
  by (cases n) auto

text \<open>Two outpoints and two diffs: the first diff adds the first outpoint, the second removes it,
  adds it again at a later DAA score, and adds the second outpoint.\<close>

definition exEntries :: "DomainOutpoint \<Rightarrow> u64 \<Rightarrow> UTXOEntry" where
  "exEntries p daaScore = NewUTXOEntry 50 \<lparr>spkScript = [81], spkVersion = 0\<rparr> False daaScore"

definition exPoint :: "nat \<Rightarrow> DomainOutpoint" where
  "exPoint n = \<lparr>outpointTransactionID = replicate 32 1, outpointIndex = word_of_nat n\<rparr>"

definition exDiff1 :: mutableUTXODiff where
  "exDiff1 = \<lparr>toAdd = [(exPoint 0, exEntries (exPoint 0) 5)], toRemove = []\<rparr>"

definition exDiff2 :: mutableUTXODiff where
  "exDiff2 = \<lparr>toAdd = [(exPoint 0, exEntries (exPoint 0) 7), (exPoint 1, exEntries (exPoint 1) 7)],
              toRemove = [(exPoint 0, exEntries (exPoint 0) 5)]\<rparr>"

definition exDiff3 :: mutableUTXODiff where
  "exDiff3 = \<lparr>toAdd = [(exPoint 1, exEntries (exPoint 1) 6)], toRemove = []\<rparr>"

lemmas ex_defs = exEntries_def exPoint_def exDiff1_def exDiff2_def exDiff3_def NewUTXOEntry_def

lemma ex_applicable:
  "applicable exEntries exDiff1 Map.empty"
  "applicable exEntries exDiff2 (applyDiff exDiff1 Map.empty)"
  "applicable exEntries exDiff3 Map.empty"
  by (simp_all add: applicable_def applyDiff_def entriesFrom_def ex_defs gomap_ok_def map_le_def
      restrict_map_def map_add_def split: if_splits)

definition exTx :: DomainTransaction where
  "exTx = \<lparr>txVersion = 0,
     Inputs = [\<lparr>PreviousOutpoint = exPoint 0, SignatureScript = [], Sequence = 0, SigOpCount = 1,
                inputUTXOEntry = Some (exEntries (exPoint 0) 5)\<rparr>],
     Outputs = [\<lparr>outputValue = 50, outputScriptPublicKey = \<lparr>spkScript = [81], spkVersion = 0\<rparr>\<rparr>],
     LockTime = 0, SubnetworkID = SubnetworkIDNative, Gas = 0, Payload = [], txFee = 0, txMass = 0,
     txID = Some (replicate 32 2)\<rparr>"

section \<open>Properties\<close>

text \<open>C10. Composition refines sequential application: if the first diff is applicable to a UTXO
  set and the second one to the result, then \<open>withDiff\<close> returns a diff, without error, that is
  applicable to the same set and has the effect of the first diff followed by the second.\<close>

theorem withDiff_composes:
  assumes "applicable E d s" and "applicable E d' (applyDiff d s)"
  shows "\<exists>r. withDiff d d' = Inr r \<and> applicable E r s \<and> applyDiff r s = applyDiff d' (applyDiff d s)"
  using withDiffInPlace_compose [OF assms] by (simp add: withDiff_def)

theorem withDiff_composes_witness:
  "\<exists>r. withDiff exDiff1 exDiff2 = Inr r \<and> applicable exEntries r Map.empty \<and>
       applyDiff r Map.empty = applyDiff exDiff2 (applyDiff exDiff1 Map.empty)"
  by (rule withDiff_composes [OF ex_applicable(1,2)])

text \<open>C12. Difference refines the change between two UTXO sets over one base: for two diffs
  applicable to the same set, \<open>diffFrom\<close> returns a diff, without error, that leads from the result
  of the first to the result of the second, and composing it onto the first diff gives a diff
  with the effect of the second.\<close>

theorem diffFrom_connects:
  assumes "applicable E d s" and "applicable E d' s"
  shows "\<exists>r q. diffFrom d d' = Inr r \<and> applyDiff r (applyDiff d s) = applyDiff d' s \<and>
               withDiff d r = Inr q \<and> applicable E q s \<and> applyDiff q s = applyDiff d' s"
  using utxo_diffs.difference_law [OF assms] utxo_diffs.difference_compose [OF assms]
  by (auto simp: withDiff_def)

theorem diffFrom_connects_witness:
  "\<exists>r q. diffFrom exDiff1 exDiff3 = Inr r \<and>
         applyDiff r (applyDiff exDiff1 Map.empty) = applyDiff exDiff3 Map.empty \<and>
         withDiff exDiff1 r = Inr q \<and> applicable exEntries q Map.empty \<and>
         applyDiff q Map.empty = applyDiff exDiff3 Map.empty"
  by (rule diffFrom_connects [OF ex_applicable(1,3)])

text \<open>C11. Accepting a transaction: when the accumulated diff is applicable, every input carries
  the entry the diffed UTXO set has for it, no outpoint is spent twice and the outputs' outpoints
  are new, \<open>AddTransaction\<close> succeeds, and the new diff stands for the UTXO set in which the inputs
  are spent and the outputs are created with the accepting DAA score.\<close>

theorem AddTransaction_accepts:
  assumes "applicable E d s" and "spendable (Inputs tx) (applyDiff d s)"
    and "TransactionID blake3 tx = Inr (txid, tx')"
    and "creatable E txid (IsCoinBase tx) daaScore 0 (Outputs tx) (applyDiff d s)"
  shows "\<exists>r. AddTransaction blake3 d tx daaScore = Inr (r, tx') \<and> applicable E r s \<and>
     applyDiff r s = createOutputs txid (IsCoinBase tx) daaScore 0 (Outputs tx)
                       (spendInputs (Inputs tx) (applyDiff d s))"
  by (rule AddTransaction_spec [OF assms])

theorem AddTransaction_accepts_witness:
  "\<exists>r. AddTransaction (\<lambda>k m. NewZeroHash) exDiff1 exTx 9 = Inr (r, exTx) \<and>
       applicable exEntries r Map.empty \<and>
       applyDiff r Map.empty = createOutputs (replicate 32 2) (IsCoinBase exTx) 9 0 (Outputs exTx)
                                 (spendInputs (Inputs exTx) (applyDiff exDiff1 Map.empty))"
  by (rule AddTransaction_accepts [OF ex_applicable(1)])
    (simp_all add: spendable_def creatable_def TransactionID_def exTx_def applyDiff_def ex_defs
      IsCoinBase_def SubnetworkIDNative_def SubnetworkIDCoinbase_def Let_def replicate_eq_Cons_iff)

text \<open>C13. Undoing a chain of diffs: reversing every diff of an applicable chain and applying
  them in the opposite order is applicable at the end of the chain and leads back to its start.\<close>

theorem Reversed_undoes_chain:
  assumes "seq_ok (applicable E) applyDiff ds s"
  shows "seq_ok (applicable E) applyDiff (map Reversed (rev ds)) (fold applyDiff ds s) \<and>
         fold applyDiff (map Reversed (rev ds)) (fold applyDiff ds s) = s"
  by (rule utxo_diffs.undo_sequence [OF assms])

theorem Reversed_undoes_chain_witness:
  "fold applyDiff (map Reversed (rev [exDiff1, exDiff2])) (fold applyDiff [exDiff1, exDiff2] Map.empty) = Map.empty"
  using Reversed_undoes_chain [of exEntries "[exDiff1, exDiff2]" Map.empty] ex_applicable by simp

end
