(* ===== verification/Tx_Encoding.thy ===== *)
theory Tx_Encoding
  imports Tx_Hashing
begin

text \<open>
  Properties of the transaction encodings of consensushashing: the serialisation under the
  transaction hash and the transaction ID is an injective encoding of the fields it covers, the
  writers never fail, and the signature hash covers what its hash type says. Injectivity is shown
  compositionally: an encoding is prefix injective when the encoded value and the rest of the
  input can both be recovered from a concatenation.
\<close>

section \<open>Prefix-injective encodings\<close>

definition prefix_inj :: "('a \<Rightarrow> bool) \<Rightarrow> ('a \<Rightarrow> 'b) \<Rightarrow> ('a \<Rightarrow> bytes) \<Rightarrow> bool" where
  "prefix_inj P f enc \<longleftrightarrow>
     (\<forall>x y r s. P x \<longrightarrow> P y \<longrightarrow> enc x @ r = enc y @ s \<longrightarrow> f x = f y \<and> r = s)"

lemma prefix_injD:
  "prefix_inj P f enc \<Longrightarrow> P x \<Longrightarrow> P y \<Longrightarrow> enc x @ r = enc y @ s \<Longrightarrow> f x = f y \<and> r = s"
  unfolding prefix_inj_def by blast

lemma prefix_inj_pair:
  assumes "prefix_inj P f enc" and "prefix_inj P g enc'"
  shows "prefix_inj P (\<lambda>x. (f x, g x)) (\<lambda>x. enc x @ enc' x)"
  unfolding prefix_inj_def
proof (intro allI impI)
  fix x y r s
  assume P: "P x" "P y" and eq: "(enc x @ enc' x) @ r = (enc y @ enc' y) @ s"
  have "f x = f y \<and> enc' x @ r = enc' y @ s"
    using prefix_injD [OF assms(1) P, of "enc' x @ r" "enc' y @ s"] eq by simp
  then show "(f x, g x) = (f y, g y) \<and> r = s"
    using prefix_injD [OF assms(2) P, of r s] by simp
qed

lemma prefix_inj_const: "prefix_inj P (\<lambda>x. ()) (\<lambda>x. c)"
  by (simp add: prefix_inj_def)

lemma prefix_inj_fixed:
  "(\<And>x. P x \<Longrightarrow> length (f x) = n) \<Longrightarrow> prefix_inj P f f"
  by (simp add: prefix_inj_def)

lemma prefix_inj_nat:
  assumes "\<And>x. P x \<Longrightarrow> f x < 256 ^ n"
  shows "prefix_inj P f (\<lambda>x. le_bytes n (f x))"
  unfolding prefix_inj_def
proof (intro allI impI)
  fix x y r s assume "P x" "P y" and eq: "le_bytes n (f x) @ r = le_bytes n (f y) @ s"
  then show "f x = f y \<and> r = s"
    using le_bytes_inj [of "f x" n "f y"] assms by simp
qed

lemma prefix_inj_word:
  assumes "2 ^ LENGTH('a::len) \<le> (256 :: nat) ^ n"
  shows "prefix_inj P (f :: 'b \<Rightarrow> 'a word) (\<lambda>x. le_bytes n (unat (f x)))"
proof -
  have "unat (f x) < 256 ^ n" for x
    using assms unsigned_less [of "f x", where 'a = nat] by linarith
  then have "prefix_inj P (\<lambda>x. unat (f x)) (\<lambda>x. le_bytes n (unat (f x)))"
    by (intro prefix_inj_nat)
  then show ?thesis
    unfolding prefix_inj_def by (metis unsigned_word_eqI)
qed

definition encVarBytes :: "bytes \<Rightarrow> bytes" where
  "encVarBytes bs = le_bytes 8 (unat (word_of_nat (length bs) :: u64)) @ bs"

lemma unat_u64_length: "length xs < 2 ^ 64 \<Longrightarrow> unat (word_of_nat (length xs) :: u64) = length xs"
  by (simp add: unsigned_of_nat take_bit_nat_eq_self)

lemma prefix_inj_varbytes:
  assumes "\<And>x. P x \<Longrightarrow> length (f x) < 2 ^ 64"
  shows "prefix_inj P f (\<lambda>x. encVarBytes (f x))"
  unfolding prefix_inj_def
proof (intro allI impI)
  fix x y r s assume P: "P x" "P y" and eq: "encVarBytes (f x) @ r = encVarBytes (f y) @ s"
  have "le_bytes 8 (length (f x)) @ f x @ r = le_bytes 8 (length (f y)) @ f y @ s"
    using eq P assms by (simp add: encVarBytes_def unat_u64_length)
  then have "le_bytes 8 (length (f x)) = le_bytes 8 (length (f y))" "f x @ r = f y @ s"
    by simp_all
  then show "f x = f y \<and> r = s"
    using le_bytes_inj [of "length (f x)" 8 "length (f y)"] assms [OF P(1)] assms [OF P(2)] by simp
qed

lemma prefix_inj_concat:
  assumes "prefix_inj P f enc"
  shows "length xs = length ys \<Longrightarrow> list_all P xs \<Longrightarrow> list_all P ys \<Longrightarrow>
    concat (map enc xs) @ r = concat (map enc ys) @ s \<Longrightarrow> map f xs = map f ys \<and> r = s"
proof (induction xs ys rule: list_induct2)
  case (Cons x xs y ys)
  then show ?case
    using prefix_injD [OF assms, of x y "concat (map enc xs) @ r" "concat (map enc ys) @ s"] by simp
qed simp

definition encList :: "('a \<Rightarrow> bytes) \<Rightarrow> 'a list \<Rightarrow> bytes" where
  "encList enc xs = le_bytes 8 (unat (word_of_nat (length xs) :: u64)) @ concat (map enc xs)"

lemma prefix_inj_list:
  assumes "prefix_inj Q f enc" and P: "\<And>x. P x \<Longrightarrow> length (g x) < 2 ^ 64 \<and> list_all Q (g x)"
  shows "prefix_inj P (\<lambda>x. map f (g x)) (\<lambda>x. encList enc (g x))"
  unfolding prefix_inj_def
proof (intro allI impI)
  fix x y r s assume xy: "P x" "P y" and eq: "encList enc (g x) @ r = encList enc (g y) @ s"
  have "le_bytes 8 (length (g x)) @ concat (map enc (g x)) @ r =
        le_bytes 8 (length (g y)) @ concat (map enc (g y)) @ s"
    using eq P xy by (simp add: encList_def unat_u64_length)
  then have "length (g x) = length (g y)" "concat (map enc (g x)) @ r = concat (map enc (g y)) @ s"
    using le_bytes_inj [of "length (g x)" 8 "length (g y)"] P [OF xy(1)] P [OF xy(2)] by simp_all
  then show "map f (g x) = map f (g y) \<and> r = s"
    using prefix_inj_concat [OF assms(1)] P xy by blast
qed

section \<open>The encoding of a transaction\<close>

definition encOutpoint :: "DomainOutpoint \<Rightarrow> bytes" where
  "encOutpoint p = outpointTransactionID p @ le_bytes 4 (unat (outpointIndex p))"

definition encTxOut :: "DomainTransactionOutput \<Rightarrow> bytes" where
  "encTxOut to = le_bytes 8 (unat (outputValue to)) @ le_bytes 2 (unat (spkVersion (outputScriptPublicKey to)))
     @ encVarBytes (spkScript (outputScriptPublicKey to))"

definition encInput :: "bool \<Rightarrow> DomainTransactionInput \<Rightarrow> bytes" where
  "encInput ex ti = encOutpoint (PreviousOutpoint ti)
     @ (if ex then encVarBytes [] else encVarBytes (SignatureScript ti) @ [SigOpCount ti])
     @ le_bytes 8 (unat (Sequence ti))"

definition encTx :: "bool \<Rightarrow> DomainTransaction \<Rightarrow> bytes" where
  "encTx ex tx = le_bytes 2 (unat (txVersion tx)) @ encList (encInput ex) (Inputs tx)
     @ encList encTxOut (Outputs tx) @ le_bytes 8 (unat (LockTime tx)) @ SubnetworkID tx
     @ le_bytes 8 (unat (Gas tx)) @ encVarBytes (Payload tx)"

lemmas put_defs = PutUint8_def PutUint16_def PutUint32_def PutUint64_def

lemma writeVarBytes_enc: "writeVarBytes w d = Inr (w @ encVarBytes d)"
  by (simp add: writeVarBytes_def WriteElement_def put_defs encVarBytes_def)

lemma writeTxOut_enc: "writeTxOut w to = Inr (w @ encTxOut to)"
  by (simp add: writeTxOut_def writeVarBytes_enc put_defs encTxOut_def)

lemma writeTransactionInput_enc: "writeTransactionInput w ti ex = Inr (w @ encInput ex ti)"
  by (simp add: writeTransactionInput_def writeVarBytes_enc writeOutpoint_def put_defs encInput_def
      encOutpoint_def)

lemma writeInputs_enc: "writeInputs w ins ex = Inr (w @ concat (map (encInput ex) ins))"
  by (induction w ins ex rule: writeInputs.induct) (simp_all add: writeTransactionInput_enc)

lemma writeOutputs_enc: "writeOutputs w outs = Inr (w @ concat (map encTxOut outs))"
  by (induction w outs rule: writeOutputs.induct) (simp_all add: writeTxOut_enc)

lemma serializeTransaction_enc: "serializeTransaction w tx ex = Inr (w @ encTx ex tx)"
  by (simp add: serializeTransaction_def WriteElement_def writeInputs_enc writeOutputs_enc
      writeVarBytes_enc put_defs encTx_def encList_def)

section \<open>What the encoding determines\<close>

text \<open>The Go types fix the sizes of IDs; slice lengths fit an \<open>int\<close>.\<close>

definition outpointSized :: "DomainOutpoint \<Rightarrow> bool" where
  "outpointSized p \<longleftrightarrow> length (outpointTransactionID p) = DomainHashSize"

definition inputSized :: "DomainTransactionInput \<Rightarrow> bool" where
  "inputSized ti \<longleftrightarrow> outpointSized (PreviousOutpoint ti) \<and> length (SignatureScript ti) < 2 ^ 63"

definition outputSized :: "DomainTransactionOutput \<Rightarrow> bool" where
  "outputSized to \<longleftrightarrow> length (spkScript (outputScriptPublicKey to)) < 2 ^ 63"

definition txSized :: "DomainTransaction \<Rightarrow> bool" where
  "txSized tx \<longleftrightarrow> list_all inputSized (Inputs tx) \<and> length (Inputs tx) < 2 ^ 63 \<and>
     list_all outputSized (Outputs tx) \<and> length (Outputs tx) < 2 ^ 63 \<and>
     length (SubnetworkID tx) = 20 \<and> length (Payload tx) < 2 ^ 63"

text \<open>The part of an input and of a transaction that the encodings cover: everything but the
  fields filled in by the node (UTXO entries, fee, mass, cached ID), and, for the ID of a
  non-coinbase transaction, without signature scripts and signature operation counts.\<close>

definition coveredInput :: "bool \<Rightarrow> DomainTransactionInput \<Rightarrow> DomainTransactionInput" where
  "coveredInput ex ti = ti\<lparr>inputUTXOEntry := None,
     SignatureScript := (if ex then [] else SignatureScript ti),
     SigOpCount := (if ex then 0 else SigOpCount ti)\<rparr>"

definition coveredTx :: "bool \<Rightarrow> DomainTransaction \<Rightarrow> DomainTransaction" where
  "coveredTx ex tx = tx\<lparr>Inputs := map (coveredInput ex) (Inputs tx), txFee := 0, txMass := 0, txID := None\<rparr>"

lemma prefix_inj_weaken:
  assumes "prefix_inj P f enc" and "\<And>x y. P x \<Longrightarrow> P y \<Longrightarrow> f x = f y \<Longrightarrow> h x = h y"
  shows "prefix_inj P h enc"
  using assms unfolding prefix_inj_def by blast

lemma prefix_inj_outpoint: "prefix_inj outpointSized (\<lambda>p. p) encOutpoint"
proof -
  have "prefix_inj outpointSized (\<lambda>p. (outpointTransactionID p, outpointIndex p)) encOutpoint"
    unfolding encOutpoint_def
    by (rule prefix_inj_pair [OF prefix_inj_fixed [where n = DomainHashSize] prefix_inj_word])
      (simp_all add: outpointSized_def)
  then show ?thesis
    by (rule prefix_inj_weaken) simp
qed

lemma prefix_inj_comp:
  "prefix_inj P f enc \<Longrightarrow> (\<And>x. Q x \<Longrightarrow> P (g x)) \<Longrightarrow> prefix_inj Q (\<lambda>x. f (g x)) (\<lambda>x. enc (g x))"
  unfolding prefix_inj_def by blast

lemma prefix_inj_txout: "prefix_inj outputSized (\<lambda>to. to) encTxOut"
proof -
  have "prefix_inj outputSized (\<lambda>to. (outputValue to, spkVersion (outputScriptPublicKey to),
      spkScript (outputScriptPublicKey to))) encTxOut"
    unfolding encTxOut_def
    by (rule prefix_inj_pair [OF prefix_inj_word prefix_inj_pair [OF prefix_inj_word prefix_inj_varbytes]])
      (simp_all add: outputSized_def)
  then show ?thesis
    by (rule prefix_inj_weaken) simp
qed

lemma prefix_inj_single: "prefix_inj P f (\<lambda>x. [f x])"
  by (simp add: prefix_inj_def)

lemma prefix_inj_input: "prefix_inj inputSized (coveredInput ex) (encInput ex)"
proof (cases ex)
  case True
  have "prefix_inj inputSized (\<lambda>ti. (PreviousOutpoint ti, (), Sequence ti)) (encInput ex)"
    unfolding encInput_def if_P [OF True]
    by (rule prefix_inj_pair [OF prefix_inj_comp [OF prefix_inj_outpoint]
          prefix_inj_pair [OF prefix_inj_const prefix_inj_word]])
      (simp_all add: inputSized_def)
  then show ?thesis
    by (rule prefix_inj_weaken) (simp add: coveredInput_def True)
next
  case False
  have "prefix_inj inputSized (\<lambda>ti. (PreviousOutpoint ti, (SignatureScript ti, SigOpCount ti), Sequence ti))
      (encInput ex)"
    unfolding encInput_def if_not_P [OF False]
    by (rule prefix_inj_pair [OF prefix_inj_comp [OF prefix_inj_outpoint]
          prefix_inj_pair [OF prefix_inj_pair [OF prefix_inj_varbytes prefix_inj_single] prefix_inj_word]])
      (simp_all add: inputSized_def)
  then show ?thesis
    by (rule prefix_inj_weaken) (simp add: coveredInput_def False)
qed

lemma prefix_inj_tx: "prefix_inj txSized (coveredTx ex) (encTx ex)"
proof -
  have "prefix_inj txSized (\<lambda>tx. (txVersion tx, map (coveredInput ex) (Inputs tx),
      map (\<lambda>to. to) (Outputs tx), LockTime tx, SubnetworkID tx, Gas tx, Payload tx)) (encTx ex)"
    unfolding encTx_def
    by (rule prefix_inj_pair [OF prefix_inj_word prefix_inj_pair [OF prefix_inj_list [OF prefix_inj_input]
          prefix_inj_pair [OF prefix_inj_list [OF prefix_inj_txout] prefix_inj_pair [OF prefix_inj_word
          prefix_inj_pair [OF prefix_inj_fixed [where n = 20]
          prefix_inj_pair [OF prefix_inj_word prefix_inj_varbytes]]]]]])
      (simp_all add: txSized_def)
  then show ?thesis
    by (rule prefix_inj_weaken) (simp add: coveredTx_def)
qed

lemma encInput_covered: "encInput ex (coveredInput ex ti) = encInput ex ti"
  by (simp add: encInput_def coveredInput_def)

lemma encTx_covered: "encTx ex (coveredTx ex tx) = encTx ex tx"
  by (simp add: encTx_def coveredTx_def encList_def encInput_covered comp_def)

lemma encTx_eq_iff:
  "txSized tx \<Longrightarrow> txSized tx' \<Longrightarrow> encTx ex tx = encTx ex tx' \<longleftrightarrow> coveredTx ex tx = coveredTx ex tx'"
  using prefix_injD [OF prefix_inj_tx, of tx tx' ex "[]" "[]"] encTx_covered [of ex] by (metis append_Nil2)

lemma TransactionHash_enc: "TransactionHash blake3 tx = Inr (finalizeTransactionHash blake3 (encTx False tx))"
  by (simp add: TransactionHash_def serializeTransaction_enc)

lemma TransactionID_enc:
  "txID tx = None \<Longrightarrow> TransactionID blake3 tx =
     (let i = finalizeTransactionID blake3 (encTx (\<not> IsCoinBase tx) tx) in Inr (i, tx\<lparr>txID := Some i\<rparr>))"
  by (simp add: TransactionID_def serializeTransaction_enc)

section \<open>Signature hashes\<close>

text \<open>The preimage of a signature hash: the bytes of the written elements.\<close>

fun encElement :: "element \<Rightarrow> bytes" where
  "encElement (EBytes e) = encVarBytes e"
| "encElement (EUint16 e) = le_bytes 2 (unat e)"
| "encElement (EUint32 e) = le_bytes 4 (unat e)"
| "encElement (EUint64 e) = le_bytes 8 (unat e)"
| "encElement (EUint8 e) = [e]"
| "encElement (EBool e) = (if e then [1] else [0])"
| "encElement (EHash e) = e"
| "encElement (ETransactionID e) = e"
| "encElement (ESubnetworkID e) = e"
| "encElement _ = []"

definition encElements :: "element list \<Rightarrow> bytes" where
  "encElements es = concat (map encElement es)"

lemma WriteElements_enc: "list_all unsigned_element es \<Longrightarrow> WriteElements w es = Inr (w @ encElements es)"
proof (induction w es rule: WriteElements.induct)
  case (2 w e es)
  then show ?case
    by (cases e) (auto simp: WriteElement_def put_defs encElements_def encVarBytes_def)
qed (simp add: encElements_def)

definition signing :: "keyed_hash \<Rightarrow> bytes \<Rightarrow> DomainHash" where
  "signing blake3 m = finalizeTransactionSigning blake3 m"

lemma signingHash_enc:
  "list_all unsigned_element es \<Longrightarrow> signingHash blake3 es = Inr (signing blake3 (encElements es))"
  by (simp add: signingHash_def signing_def WriteElements_enc)

text \<open>The five reusable hashes of a signature hash as functions of the transaction.\<close>

definition sigPreviousOutputs :: "keyed_hash \<Rightarrow> DomainTransaction \<Rightarrow> SigHashType \<Rightarrow> DomainHash" where
  "sigPreviousOutputs blake3 tx ht =
     (if isSigHashAnyOneCanPay ht then NewZeroHash else signing blake3 (encElements (allOutpointElements tx)))"

definition sigSequences :: "keyed_hash \<Rightarrow> DomainTransaction \<Rightarrow> SigHashType \<Rightarrow> DomainHash" where
  "sigSequences blake3 tx ht =
     (if isSigHashSingle ht \<or> isSigHashAnyOneCanPay ht \<or> isSigHashNone ht then NewZeroHash
      else signing blake3 (encElements (allSequenceElements tx)))"

definition sigSigOpCounts :: "keyed_hash \<Rightarrow> DomainTransaction \<Rightarrow> SigHashType \<Rightarrow> DomainHash" where
  "sigSigOpCounts blake3 tx ht =
     (if isSigHashAnyOneCanPay ht then NewZeroHash else signing blake3 (encElements (allSigOpCountElements tx)))"

definition sigOutputs :: "keyed_hash \<Rightarrow> DomainTransaction \<Rightarrow> nat \<Rightarrow> SigHashType \<Rightarrow> DomainHash" where
  "sigOutputs blake3 tx i ht =
     (if isSigHashNone ht then NewZeroHash
      else if isSigHashSingle ht then
        (if i \<ge> length (Outputs tx) then NewZeroHash else signing blake3 (encElements (txOutElements (Outputs tx ! i))))
      else signing blake3 (encElements (allOutputElements tx)))"

definition sigPayload :: "keyed_hash \<Rightarrow> DomainTransaction \<Rightarrow> DomainHash" where
  "sigPayload blake3 tx =
     (if SubnetworkID tx = SubnetworkIDNative then NewZeroHash else signing blake3 (encVarBytes (Payload tx)))"

definition sigPreimage ::
    "keyed_hash \<Rightarrow> DomainTransaction \<Rightarrow> nat \<Rightarrow> DomainTransactionInput \<Rightarrow> UTXOEntry \<Rightarrow> SigHashType \<Rightarrow> bytes" where
  "sigPreimage blake3 tx i txIn entry ht =
     le_bytes 2 (unat (txVersion tx)) @ sigPreviousOutputs blake3 tx ht @ sigSequences blake3 tx ht
     @ sigSigOpCounts blake3 tx ht @ encOutpoint (PreviousOutpoint txIn)
     @ le_bytes 2 (unat (spkVersion (scriptPublicKey entry))) @ encVarBytes (spkScript (scriptPublicKey entry))
     @ le_bytes 8 (unat (amount entry)) @ le_bytes 8 (unat (Sequence txIn)) @ [SigOpCount txIn]
     @ sigOutputs blake3 tx i ht @ le_bytes 8 (unat (LockTime tx)) @ SubnetworkID tx
     @ le_bytes 8 (unat (Gas tx)) @ sigPayload blake3 tx @ [ht]"

lemma encElements_simps [simp]:
  "encElements [] = []" "encElements (e # es) = encElement e @ encElements es"
  "encElements (es @ fs) = encElements es @ encElements fs"
  by (simp_all add: encElements_def)

text \<open>On a valid cache every accessor returns the hash of the transaction and leaves a valid cache.\<close>

lemma getPreviousOutputsHash_value:
  "reusedOk blake3 tx r \<Longrightarrow>
   \<exists>r'. getPreviousOutputsHash blake3 tx ht r = Inr (sigPreviousOutputs blake3 tx ht, r') \<and> reusedOk blake3 tx r'"
  by (auto simp: getPreviousOutputsHash_def sigPreviousOutputs_def signingHash_enc reusedOk_def split: option.split)

lemma getSequencesHash_value:
  "reusedOk blake3 tx r \<Longrightarrow>
   \<exists>r'. getSequencesHash blake3 tx ht r = Inr (sigSequences blake3 tx ht, r') \<and> reusedOk blake3 tx r'"
  by (auto simp: getSequencesHash_def sigSequences_def signingHash_enc reusedOk_def split: option.split)

lemma getSigOpCountsHash_value:
  "reusedOk blake3 tx r \<Longrightarrow>
   \<exists>r'. getSigOpCountsHash blake3 tx ht r = Inr (sigSigOpCounts blake3 tx ht, r') \<and> reusedOk blake3 tx r'"
  by (auto simp: getSigOpCountsHash_def sigSigOpCounts_def signingHash_enc reusedOk_def split: option.split)

lemma getOutputsHash_value:
  "reusedOk blake3 tx r \<Longrightarrow>
   \<exists>r'. getOutputsHash blake3 tx i ht r = Inr (sigOutputs blake3 tx i ht, r') \<and> reusedOk blake3 tx r'"
  by (auto simp: getOutputsHash_def sigOutputs_def signingHash_enc reusedOk_def split: option.split)

lemma getPayloadHash_value:
  "reusedOk blake3 tx r \<Longrightarrow>
   \<exists>r'. getPayloadHash blake3 tx r = Inr (sigPayload blake3 tx, r') \<and> reusedOk blake3 tx r'"
  by (auto simp: getPayloadHash_def sigPayload_def signingHash_enc reusedOk_def split: option.split)

lemma calculateSignatureHash_value:
  assumes "reusedOk blake3 tx r"
  shows "\<exists>r'. calculateSignatureHash blake3 tx i txIn entry ht r =
           Inr (signing blake3 (sigPreimage blake3 tx i txIn entry ht), r') \<and> reusedOk blake3 tx r'"
proof -
  obtain r1 where 1: "getPreviousOutputsHash blake3 tx ht r = Inr (sigPreviousOutputs blake3 tx ht, r1)"
      "reusedOk blake3 tx r1" using getPreviousOutputsHash_value [OF assms] by blast
  obtain r2 where 2: "getSequencesHash blake3 tx ht r1 = Inr (sigSequences blake3 tx ht, r2)"
      "reusedOk blake3 tx r2" using getSequencesHash_value [OF 1(2)] by blast
  obtain r3 where 3: "getSigOpCountsHash blake3 tx ht r2 = Inr (sigSigOpCounts blake3 tx ht, r3)"
      "reusedOk blake3 tx r3" using getSigOpCountsHash_value [OF 2(2)] by blast
  obtain r4 where 4: "getOutputsHash blake3 tx i ht r3 = Inr (sigOutputs blake3 tx i ht, r4)"
      "reusedOk blake3 tx r4" using getOutputsHash_value [OF 3(2)] by blast
  obtain r5 where 5: "getPayloadHash blake3 tx r4 = Inr (sigPayload blake3 tx, r5)"
      "reusedOk blake3 tx r5" using getPayloadHash_value [OF 4(2)] by blast
  show ?thesis
    using 5(2) by (simp add: calculateSignatureHash_def 1 2 3 4 5 signingHash_enc sigPreimage_def
        outpointElements_def encOutpoint_def)
qed

lemma CalculateSignatureHashSchnorr_value:
  assumes "reusedOk blake3 tx r" and "IsStandardSigHashType ht" and "i < length (Inputs tx)"
    and "inputUTXOEntry (Inputs tx ! i) = Some entry"
  shows "\<exists>r'. CalculateSignatureHashSchnorr blake3 tx i ht r =
           Inr (signing blake3 (sigPreimage blake3 tx i (Inputs tx ! i) entry ht), r') \<and> reusedOk blake3 tx r'"
  using calculateSignatureHash_value [OF assms(1), of i "Inputs tx ! i" entry ht] assms(2-)
  by (auto simp: CalculateSignatureHashSchnorr_def)

lemma CalculateSignatureHashSchnorr_reject:
  "\<not> IsStandardSigHashType ht \<Longrightarrow> CalculateSignatureHashSchnorr blake3 tx i ht r = Inl NonStandardHashType"
  "IsStandardSigHashType ht \<Longrightarrow> length (Inputs tx) \<le> i \<Longrightarrow>
     CalculateSignatureHashSchnorr blake3 tx i ht r = Inl SighashIndexPanic"
  "IsStandardSigHashType ht \<Longrightarrow> i < length (Inputs tx) \<Longrightarrow> inputUTXOEntry (Inputs tx ! i) = None \<Longrightarrow>
     CalculateSignatureHashSchnorr blake3 tx i ht r = Inl SighashNilEntryPanic"
  by (simp_all add: CalculateSignatureHashSchnorr_def)

lemma CalculateSignatureHashSchnorr_cases:
  assumes "reusedOk blake3 tx r" and "reusedOk blake3 tx q"
  shows "(\<exists>e. CalculateSignatureHashSchnorr blake3 tx i ht r = Inl e \<and>
              CalculateSignatureHashSchnorr blake3 tx i ht q = Inl e) \<or>
         (\<exists>h r' q'. CalculateSignatureHashSchnorr blake3 tx i ht r = Inr (h, r') \<and> reusedOk blake3 tx r' \<and>
              CalculateSignatureHashSchnorr blake3 tx i ht q = Inr (h, q') \<and> reusedOk blake3 tx q')"
proof (cases "IsStandardSigHashType ht \<and> i < length (Inputs tx) \<and> inputUTXOEntry (Inputs tx ! i) \<noteq> None")
  case True
  then show ?thesis
    using CalculateSignatureHashSchnorr_value [OF assms(1)] CalculateSignatureHashSchnorr_value [OF assms(2)]
    by (metis option.exhaust)
next
  case False
  then show ?thesis
    using CalculateSignatureHashSchnorr_reject [of ht] by (metis not_less)
qed

section \<open>What a signature hash covers\<close>

text \<open>Two transactions agree on what a signature of the given type for the given input covers.
  Signature scripts are never covered.\<close>

definition inputCovered :: "DomainTransactionInput \<Rightarrow> UTXOEntry \<Rightarrow> DomainOutpoint \<times> u16 \<times> bytes \<times> u64 \<times> u64 \<times> byte" where
  "inputCovered txIn entry = (PreviousOutpoint txIn, spkVersion (scriptPublicKey entry),
     spkScript (scriptPublicKey entry), amount entry, Sequence txIn, SigOpCount txIn)"

definition sighashAgree ::
    "SigHashType \<Rightarrow> nat \<Rightarrow> DomainTransaction \<Rightarrow> UTXOEntry \<Rightarrow> nat \<Rightarrow> DomainTransaction \<Rightarrow> UTXOEntry \<Rightarrow> bool" where
  "sighashAgree ht i tx entry j tx' entry' \<longleftrightarrow>
     txVersion tx = txVersion tx' \<and> LockTime tx = LockTime tx' \<and> SubnetworkID tx = SubnetworkID tx' \<and>
     Gas tx = Gas tx' \<and> (SubnetworkID tx \<noteq> SubnetworkIDNative \<longrightarrow> Payload tx = Payload tx') \<and>
     inputCovered (Inputs tx ! i) entry = inputCovered (Inputs tx' ! j) entry' \<and>
     (\<not> isSigHashAnyOneCanPay ht \<longrightarrow>
        map PreviousOutpoint (Inputs tx) = map PreviousOutpoint (Inputs tx') \<and>
        map SigOpCount (Inputs tx) = map SigOpCount (Inputs tx') \<and>
        (\<not> isSigHashSingle ht \<and> \<not> isSigHashNone ht \<longrightarrow> map Sequence (Inputs tx) = map Sequence (Inputs tx'))) \<and>
     (if isSigHashNone ht then True
      else if isSigHashSingle ht then
        (i < length (Outputs tx) \<longleftrightarrow> j < length (Outputs tx')) \<and>
        (i < length (Outputs tx) \<longrightarrow> Outputs tx ! i = Outputs tx' ! j)
      else Outputs tx = Outputs tx')"

lemma elements_of_projection:
  "map PreviousOutpoint (Inputs tx) = map PreviousOutpoint (Inputs tx') \<Longrightarrow> allOutpointElements tx = allOutpointElements tx'"
  "map Sequence (Inputs tx) = map Sequence (Inputs tx') \<Longrightarrow> allSequenceElements tx = allSequenceElements tx'"
  "map SigOpCount (Inputs tx) = map SigOpCount (Inputs tx') \<Longrightarrow> allSigOpCountElements tx = allSigOpCountElements tx'"
proof -
  show "map PreviousOutpoint (Inputs tx) = map PreviousOutpoint (Inputs tx') \<Longrightarrow> allOutpointElements tx = allOutpointElements tx'"
    unfolding allOutpointElements_def by (metis (no_types) list.map_comp comp_def map_eq_conv)
  show "map Sequence (Inputs tx) = map Sequence (Inputs tx') \<Longrightarrow> allSequenceElements tx = allSequenceElements tx'"
    unfolding allSequenceElements_def by (metis (no_types) list.map_comp comp_def map_eq_conv)
  show "map SigOpCount (Inputs tx) = map SigOpCount (Inputs tx') \<Longrightarrow> allSigOpCountElements tx = allSigOpCountElements tx'"
    unfolding allSigOpCountElements_def by (metis (no_types) list.map_comp comp_def map_eq_conv)
qed

lemma sigPreimage_agree:
  assumes "sighashAgree ht i tx entry j tx' entry'"
  shows "sigPreimage blake3 tx i (Inputs tx ! i) entry ht = sigPreimage blake3 tx' j (Inputs tx' ! j) entry' ht"
  using assms elements_of_projection [of tx tx']
  by (auto simp: sighashAgree_def sigPreimage_def inputCovered_def sigPreviousOutputs_def sigSequences_def
      sigSigOpCounts_def sigOutputs_def sigPayload_def allOutputElements_def)

text \<open>The messages hashed for one signature hash.\<close>

definition sigMessages :: "keyed_hash \<Rightarrow> DomainTransaction \<Rightarrow> nat \<Rightarrow> UTXOEntry \<Rightarrow> SigHashType \<Rightarrow> bytes set" where
  "sigMessages blake3 tx i entry ht =
     {sigPreimage blake3 tx i (Inputs tx ! i) entry ht, encElements (allOutpointElements tx),
      encElements (allSequenceElements tx), encElements (allSigOpCountElements tx),
      encElements (allOutputElements tx), encVarBytes (Payload tx)}
     \<union> (if i < length (Outputs tx) then {encElements (txOutElements (Outputs tx ! i))} else {})"

definition collisionFreeOn :: "keyed_hash \<Rightarrow> bytes set \<Rightarrow> bool" where
  "collisionFreeOn blake3 M \<longleftrightarrow> inj_on (signing blake3) M \<and> NewZeroHash \<notin> signing blake3 ` M"

lemma concat_inj:
  assumes enc: "prefix_inj P f enc" and nonempty: "\<And>x. enc x \<noteq> []"
  shows "list_all P xs \<Longrightarrow> list_all P ys \<Longrightarrow> concat (map enc xs) = concat (map enc ys) \<Longrightarrow> map f xs = map f ys"
proof (induction xs arbitrary: ys)
  case Nil
  then show ?case using nonempty by (cases ys) auto
next
  case (Cons x xs)
  show ?case
  proof (cases ys)
    case Nil
    then show ?thesis using Cons.prems nonempty by simp
  next
    case (Cons y ys')
    then show ?thesis
      using Cons.prems Cons.IH [of ys'] prefix_injD [OF enc, of x y "concat (map enc xs)" "concat (map enc ys')"]
      by simp
  qed
qed

lemma encElements_concat: "encElements (concat ess) = concat (map encElements ess)"
  by (induction ess) simp_all

lemma encElements_parts:
  "encElements (outpointElements p) = encOutpoint p"
  "encElements (txOutElements to) = encTxOut to"
  "encElements (allOutpointElements tx) = concat (map encOutpoint (map PreviousOutpoint (Inputs tx)))"
  "encElements (allSequenceElements tx) = concat (map (\<lambda>q. le_bytes 8 (unat q)) (map Sequence (Inputs tx)))"
  "encElements (allSigOpCountElements tx) = map SigOpCount (Inputs tx)"
  "encElements (allOutputElements tx) = concat (map encTxOut (Outputs tx))"
proof -
  show 1: "encElements (outpointElements p) = encOutpoint p" for p
    by (simp add: outpointElements_def encOutpoint_def)
  show 2: "encElements (txOutElements to) = encTxOut to" for to
    by (simp add: txOutElements_def encTxOut_def)
  show "encElements (allOutpointElements tx) = concat (map encOutpoint (map PreviousOutpoint (Inputs tx)))"
    by (simp add: allOutpointElements_def encElements_concat 1 comp_def)
  show "encElements (allOutputElements tx) = concat (map encTxOut (Outputs tx))"
    by (simp add: allOutputElements_def encElements_concat 2 comp_def)
  show "encElements (allSequenceElements tx) = concat (map (\<lambda>q. le_bytes 8 (unat q)) (map Sequence (Inputs tx)))"
    by (simp add: allSequenceElements_def encElements_def comp_def)
  show "encElements (allSigOpCountElements tx) = map SigOpCount (Inputs tx)"
    by (simp add: allSigOpCountElements_def encElements_def comp_def)
qed

lemma txSized_parts:
  assumes "txSized tx"
  shows "list_all outpointSized (map PreviousOutpoint (Inputs tx))" and "list_all outputSized (Outputs tx)"
  using assms by (auto simp: txSized_def inputSized_def list_all_iff)

lemma elements_determine:
  assumes "txSized tx" and "txSized tx'"
  shows "encElements (allOutpointElements tx) = encElements (allOutpointElements tx') \<Longrightarrow>
           map PreviousOutpoint (Inputs tx) = map PreviousOutpoint (Inputs tx')"
    and "encElements (allSequenceElements tx) = encElements (allSequenceElements tx') \<Longrightarrow>
           map Sequence (Inputs tx) = map Sequence (Inputs tx')"
    and "encElements (allOutputElements tx) = encElements (allOutputElements tx') \<Longrightarrow> Outputs tx = Outputs tx'"
proof -
  note sized = txSized_parts [OF assms(1)] txSized_parts [OF assms(2)]
  show "encElements (allOutpointElements tx) = encElements (allOutpointElements tx') \<Longrightarrow>
           map PreviousOutpoint (Inputs tx) = map PreviousOutpoint (Inputs tx')"
    using concat_inj [OF prefix_inj_outpoint _ sized(1,3)]
    unfolding encElements_parts by (simp add: encOutpoint_def comp_def)
  show "encElements (allSequenceElements tx) = encElements (allSequenceElements tx') \<Longrightarrow>
           map Sequence (Inputs tx) = map Sequence (Inputs tx')"
    using concat_inj [OF prefix_inj_word [where n = 8 and P = "\<lambda>_. True" and f = "\<lambda>q :: u64. q"],
        of "map Sequence (Inputs tx)" "map Sequence (Inputs tx')"]
    unfolding encElements_parts by (simp add: list_all_iff)
  show "encElements (allOutputElements tx) = encElements (allOutputElements tx') \<Longrightarrow> Outputs tx = Outputs tx'"
    using concat_inj [OF prefix_inj_txout _ sized(2,4)]
    unfolding encElements_parts by (simp add: encTxOut_def)
qed

record sig_context =
  sc_tx :: DomainTransaction
  sc_index :: nat
  sc_in :: DomainTransactionInput
  sc_entry :: UTXOEntry
  sc_type :: SigHashType

definition contextSized :: "sig_context \<Rightarrow> bool" where
  "contextSized c \<longleftrightarrow> txSized (sc_tx c) \<and> outpointSized (PreviousOutpoint (sc_in c)) \<and>
     length (spkScript (scriptPublicKey (sc_entry c))) < 2 ^ 63"

lemma prefix_inj_preimage:
  assumes len: "\<And>m. length (signing blake3 m) = 32"
  shows "prefix_inj contextSized
    (\<lambda>c. (txVersion (sc_tx c), sigPreviousOutputs blake3 (sc_tx c) (sc_type c),
       sigSequences blake3 (sc_tx c) (sc_type c), sigSigOpCounts blake3 (sc_tx c) (sc_type c),
       PreviousOutpoint (sc_in c), spkVersion (scriptPublicKey (sc_entry c)),
       spkScript (scriptPublicKey (sc_entry c)), amount (sc_entry c), Sequence (sc_in c), SigOpCount (sc_in c),
       sigOutputs blake3 (sc_tx c) (sc_index c) (sc_type c), LockTime (sc_tx c), SubnetworkID (sc_tx c),
       Gas (sc_tx c), sigPayload blake3 (sc_tx c), sc_type c))
    (\<lambda>c. sigPreimage blake3 (sc_tx c) (sc_index c) (sc_in c) (sc_entry c) (sc_type c))"
proof -
  have lens: "length (sigPreviousOutputs blake3 tx ht) = 32" "length (sigSequences blake3 tx ht) = 32"
    "length (sigSigOpCounts blake3 tx ht) = 32" "length (sigOutputs blake3 tx i ht) = 32"
    "length (sigPayload blake3 tx) = 32" for tx i ht
    by (simp_all add: len sigPreviousOutputs_def sigSequences_def sigSigOpCounts_def sigOutputs_def
        sigPayload_def NewZeroHash_def DomainHashSize_def)
  note hash = prefix_inj_fixed [where n = 32]
  note num = prefix_inj_pair [OF prefix_inj_word]
  show ?thesis
    unfolding sigPreimage_def
    by (rule num, simp, rule prefix_inj_pair [OF hash], simp add: lens,
        rule prefix_inj_pair [OF hash], simp add: lens, rule prefix_inj_pair [OF hash], simp add: lens,
        rule prefix_inj_pair [OF prefix_inj_comp [OF prefix_inj_outpoint]], simp add: contextSized_def,
        rule num, simp, rule prefix_inj_pair [OF prefix_inj_varbytes], simp add: contextSized_def,
        rule num, simp, rule num, simp, rule prefix_inj_pair [OF prefix_inj_single],
        rule prefix_inj_pair [OF hash], simp add: lens, rule num, simp,
        rule prefix_inj_pair [OF prefix_inj_fixed [where n = 20]], simp add: contextSized_def txSized_def,
        rule num, simp, rule prefix_inj_pair [OF hash], simp add: lens, rule prefix_inj_single)
qed

lemma sigHashes_determine:
  assumes sized: "txSized tx" "txSized tx'"
    and free: "collisionFreeOn blake3 (sigMessages blake3 tx i entry ht \<union> sigMessages blake3 tx' j entry' ht)"
    and eq: "sigPreviousOutputs blake3 tx ht = sigPreviousOutputs blake3 tx' ht"
      "sigSequences blake3 tx ht = sigSequences blake3 tx' ht"
      "sigSigOpCounts blake3 tx ht = sigSigOpCounts blake3 tx' ht"
      "sigOutputs blake3 tx i ht = sigOutputs blake3 tx' j ht"
      "SubnetworkID tx = SubnetworkID tx'" "sigPayload blake3 tx = sigPayload blake3 tx'"
    and "txVersion tx = txVersion tx'" "LockTime tx = LockTime tx'" "Gas tx = Gas tx'"
      "inputCovered (Inputs tx ! i) entry = inputCovered (Inputs tx' ! j) entry'"
  shows "sighashAgree ht i tx entry j tx' entry'"
proof -
  have inj: "m = m'" if "signing blake3 m = signing blake3 m'"
      "m \<in> sigMessages blake3 tx i entry ht" "m' \<in> sigMessages blake3 tx' j entry' ht" for m m'
    using free that unfolding collisionFreeOn_def by (blast dest: inj_onD)
  have zero: "signing blake3 m \<noteq> NewZeroHash"
    if "m \<in> sigMessages blake3 tx i entry ht \<union> sigMessages blake3 tx' j entry' ht" for m
    using free that unfolding collisionFreeOn_def by force
  have 1: "\<not> isSigHashAnyOneCanPay ht \<Longrightarrow> map PreviousOutpoint (Inputs tx) = map PreviousOutpoint (Inputs tx')"
    using eq(1) elements_determine(1) [OF sized] inj
    by (simp add: sigPreviousOutputs_def sigMessages_def)
  have 2: "\<not> isSigHashAnyOneCanPay ht \<Longrightarrow> \<not> isSigHashSingle ht \<Longrightarrow> \<not> isSigHashNone ht \<Longrightarrow>
      map Sequence (Inputs tx) = map Sequence (Inputs tx')"
    using eq(2) elements_determine(2) [OF sized] inj by (simp add: sigSequences_def sigMessages_def)
  have 3: "\<not> isSigHashAnyOneCanPay ht \<Longrightarrow> map SigOpCount (Inputs tx) = map SigOpCount (Inputs tx')"
    using eq(3) inj [of "encElements (allSigOpCountElements tx)" "encElements (allSigOpCountElements tx')"]
    by (simp add: sigSigOpCounts_def sigMessages_def encElements_parts)
  have 4: "\<not> isSigHashNone ht \<Longrightarrow> \<not> isSigHashSingle ht \<Longrightarrow> Outputs tx = Outputs tx'"
    using eq(4) elements_determine(3) [OF sized] inj by (simp add: sigOutputs_def sigMessages_def)
  have 5: "SubnetworkID tx \<noteq> SubnetworkIDNative \<Longrightarrow> Payload tx = Payload tx'"
    using eq(5,6) inj [of "encVarBytes (Payload tx)" "encVarBytes (Payload tx')"] sized
      prefix_injD [OF prefix_inj_varbytes [where P = txSized and f = Payload], of tx tx' "[]" "[]"]
    by (simp add: sigPayload_def sigMessages_def txSized_def)
  have 6: "(i < length (Outputs tx) \<longleftrightarrow> j < length (Outputs tx')) \<and>
      (i < length (Outputs tx) \<longrightarrow> Outputs tx ! i = Outputs tx' ! j)"
    if "\<not> isSigHashNone ht" "isSigHashSingle ht"
    using that eq(4) zero [of "encElements (txOutElements (Outputs tx ! i))"]
      zero [of "encElements (txOutElements (Outputs tx' ! j))"]
      inj [of "encElements (txOutElements (Outputs tx ! i))" "encElements (txOutElements (Outputs tx' ! j))"]
      prefix_injD [OF prefix_inj_txout, of "Outputs tx ! i" "Outputs tx' ! j" "[]" "[]"]
      txSized_parts(2) [OF sized(1)] txSized_parts(2) [OF sized(2)]
    by (auto simp: sigOutputs_def sigMessages_def list_all_length encElements_parts split: if_splits)
  show ?thesis
    using assms(10-) eq(5) 1 2 3 4 5 6 unfolding sighashAgree_def by simp
qed

lemma sigPreimage_determines:
  assumes len: "\<And>m. length (signing blake3 m) = 32"
    and sized: "txSized tx" "txSized tx'" "i < length (Inputs tx)" "j < length (Inputs tx')"
      "length (spkScript (scriptPublicKey entry)) < 2 ^ 63" "length (spkScript (scriptPublicKey entry')) < 2 ^ 63"
    and free: "collisionFreeOn blake3 (sigMessages blake3 tx i entry ht \<union> sigMessages blake3 tx' j entry' ht')"
    and eq: "sigPreimage blake3 tx i (Inputs tx ! i) entry ht = sigPreimage blake3 tx' j (Inputs tx' ! j) entry' ht'"
  shows "ht = ht' \<and> sighashAgree ht i tx entry j tx' entry'"
proof -
  let ?c = "\<lparr>sc_tx = tx, sc_index = i, sc_in = Inputs tx ! i, sc_entry = entry, sc_type = ht\<rparr>"
  let ?c' = "\<lparr>sc_tx = tx', sc_index = j, sc_in = Inputs tx' ! j, sc_entry = entry', sc_type = ht'\<rparr>"
  have "contextSized ?c" "contextSized ?c'"
    using sized by (auto simp: contextSized_def txSized_def inputSized_def list_all_length)
  then have parts: "ht = ht'" "txVersion tx = txVersion tx'"
      "sigPreviousOutputs blake3 tx ht = sigPreviousOutputs blake3 tx' ht'"
      "sigSequences blake3 tx ht = sigSequences blake3 tx' ht'"
      "sigSigOpCounts blake3 tx ht = sigSigOpCounts blake3 tx' ht'"
      "inputCovered (Inputs tx ! i) entry = inputCovered (Inputs tx' ! j) entry'"
      "sigOutputs blake3 tx i ht = sigOutputs blake3 tx' j ht'" "LockTime tx = LockTime tx'"
      "SubnetworkID tx = SubnetworkID tx'" "Gas tx = Gas tx'" "sigPayload blake3 tx = sigPayload blake3 tx'"
    using prefix_injD [OF prefix_inj_preimage [OF len], of ?c ?c' "[]" "[]"] eq
    unfolding inputCovered_def sig_context.simps append_Nil2 prod.inject by blast+
  then show ?thesis
    using sigHashes_determine [OF sized(1,2) free [folded parts(1)]] by simp
qed

section \<open>A concrete transaction\<close>

definition sampleEntry :: UTXOEntry where
  "sampleEntry = NewUTXOEntry 60 \<lparr>spkScript = [81], spkVersion = 0\<rparr> False 3"

definition sampleTx :: "bytes \<Rightarrow> DomainTransaction" where
  "sampleTx sigScript = \<lparr>txVersion = 0,
     Inputs = [\<lparr>PreviousOutpoint = \<lparr>outpointTransactionID = replicate 32 1, outpointIndex = 0\<rparr>,
                SignatureScript = sigScript, Sequence = 0, SigOpCount = 1,
                inputUTXOEntry = Some sampleEntry\<rparr>],
     Outputs = [\<lparr>outputValue = 50, outputScriptPublicKey = \<lparr>spkScript = [81], spkVersion = 0\<rparr>\<rparr>],
     LockTime = 0, SubnetworkID = SubnetworkIDNative, Gas = 0, Payload = [], txFee = 0, txMass = 0, txID = None\<rparr>"

definition lengthHash :: keyed_hash where
  "lengthHash key m = word_of_nat (length m) # replicate 31 1"

lemma sampleTx_sized: "length s < 2 ^ 63 \<Longrightarrow> txSized (sampleTx s)"
  by (simp add: sampleTx_def txSized_def inputSized_def outpointSized_def outputSized_def DomainHashSize_def
      SubnetworkIDNative_def)

section \<open>Properties\<close>

text \<open>C14. The transaction serialisation never fails and is an injective encoding of what it
  covers: two transactions are written to the same bytes exactly when they agree on every field
  except UTXO entries, fee, mass and cached ID, and, when signature scripts are excluded (the
  encoding under the transaction ID), except signature scripts and signature operation counts.\<close>

theorem serializeTransaction_injective:
  assumes "txSized tx" and "txSized tx'"
  shows "is_ok (serializeTransaction [] tx ex) \<and>
    (serializeTransaction [] tx ex = serializeTransaction [] tx' ex \<longleftrightarrow> coveredTx ex tx = coveredTx ex tx')"
  using encTx_eq_iff [OF assms] by (simp add: serializeTransaction_enc)

theorem serializeTransaction_injective_witness:
  "serializeTransaction [] (sampleTx [1]) False \<noteq> serializeTransaction [] (sampleTx [2]) False \<and>
   serializeTransaction [] (sampleTx [1]) True = serializeTransaction [] (sampleTx [2]) True"
  using serializeTransaction_injective [OF sampleTx_sized [of "[1]"] sampleTx_sized [of "[2]"], of False]
    serializeTransaction_injective [OF sampleTx_sized [of "[1]"] sampleTx_sized [of "[2]"], of True]
  by (simp add: coveredTx_def coveredInput_def sampleTx_def)

text \<open>C16. The reusable part of signature hashing is only a cache: for every cache that holds
  nothing but right hashes (the empty one, the precomputed one, and any that earlier calls left
  behind), both signature hashes return what they return without a cache, errors included, and
  leave such a cache.\<close>

theorem signature_hash_cache:
  assumes "reusedOk blake3 tx r"
  shows "map_sum id fst (CalculateSignatureHashSchnorr blake3 tx i ht r) =
           map_sum id fst (CalculateSignatureHashSchnorr blake3 tx i ht emptyReusedValues) \<and>
         map_sum id fst (CalculateSignatureHashECDSA blake3 tx i ht r) =
           map_sum id fst (CalculateSignatureHashECDSA blake3 tx i ht emptyReusedValues) \<and>
         pred_sum (\<lambda>_. True) (\<lambda>(h, r'). reusedOk blake3 tx r') (CalculateSignatureHashSchnorr blake3 tx i ht r) \<and>
         pred_sum (\<lambda>_. True) (\<lambda>(h, r'). reusedOk blake3 tx r') (CalculateSignatureHashECDSA blake3 tx i ht r)"
  using CalculateSignatureHashSchnorr_cases [OF assms reusedOk_empty, of i ht]
  by (auto simp: CalculateSignatureHashECDSA_def)

theorem signature_hash_cache_witness:
  "\<exists>r. PrecomputeSighashReusedValues lengthHash (sampleTx []) = Inr r \<and>
       map_sum id fst (CalculateSignatureHashSchnorr lengthHash (sampleTx []) 0 SigHashAll r) =
       map_sum id fst (CalculateSignatureHashSchnorr lengthHash (sampleTx []) 0 SigHashAll emptyReusedValues)"
proof -
  obtain r where r: "PrecomputeSighashReusedValues lengthHash (sampleTx []) = Inr r"
    by (simp add: PrecomputeSighashReusedValues_def signingHash_enc sampleTx_def)
  then show ?thesis
    using signature_hash_cache [OF reusedOk_precomputed [OF r]] by blast
qed

text \<open>C15. A signature hash covers exactly what its type says: for a hash function with 32-byte
  results that has no collision and no zero value on the messages involved, two signature hashes
  are equal if and only if the hash types are equal and the transactions agree on the fields that
  type covers, never on signature scripts.\<close>

theorem signature_hash_covers:
  assumes "\<And>m. length (signing blake3 m) = 32"
    and "txSized tx" "txSized tx'" "reusedOk blake3 tx r" "reusedOk blake3 tx' r'"
    and "i < length (Inputs tx)" "inputUTXOEntry (Inputs tx ! i) = Some entry"
    and "j < length (Inputs tx')" "inputUTXOEntry (Inputs tx' ! j) = Some entry'"
    and "length (spkScript (scriptPublicKey entry)) < 2 ^ 63" "length (spkScript (scriptPublicKey entry')) < 2 ^ 63"
    and "IsStandardSigHashType ht" "IsStandardSigHashType ht'"
    and "collisionFreeOn blake3 (sigMessages blake3 tx i entry ht \<union> sigMessages blake3 tx' j entry' ht')"
  shows "map_sum id fst (CalculateSignatureHashSchnorr blake3 tx i ht r) =
         map_sum id fst (CalculateSignatureHashSchnorr blake3 tx' j ht' r') \<longleftrightarrow>
         ht = ht' \<and> sighashAgree ht i tx entry j tx' entry'"
proof -
  let ?m = "sigPreimage blake3 tx i (Inputs tx ! i) entry ht"
  let ?m' = "sigPreimage blake3 tx' j (Inputs tx' ! j) entry' ht'"
  have "?m \<in> sigMessages blake3 tx i entry ht" "?m' \<in> sigMessages blake3 tx' j entry' ht'"
    by (simp_all add: sigMessages_def)
  then have inj: "signing blake3 ?m = signing blake3 ?m' \<Longrightarrow> ?m = ?m'"
    using assms(14) unfolding collisionFreeOn_def by (blast dest: inj_onD)
  have agree: "?m = ?m'" if "ht = ht' \<and> sighashAgree ht i tx entry j tx' entry'"
    using sigPreimage_agree that by blast
  have "signing blake3 ?m = signing blake3 ?m' \<longleftrightarrow> ht = ht' \<and> sighashAgree ht i tx entry j tx' entry'"
    using inj agree sigPreimage_determines [OF assms(1,2,3,6,8,10,11,14)] by fastforce
  then show ?thesis
    using CalculateSignatureHashSchnorr_value [OF assms(4,12,6,7)]
      CalculateSignatureHashSchnorr_value [OF assms(5,13,8,9)] by fastforce
qed

lemma sample_collisionFree:
  "collisionFreeOn lengthHash (sigMessages lengthHash (sampleTx s) 0 sampleEntry SigHashAll \<union>
     sigMessages lengthHash (sampleTx t) 0 sampleEntry SigHashAll)"
proof -
  let ?tx = "sampleTx s"
  let ?ms = "[sigPreimage lengthHash ?tx 0 (Inputs ?tx ! 0) sampleEntry SigHashAll,
    encElements (allOutpointElements ?tx), encElements (allSequenceElements ?tx),
    encElements (allSigOpCountElements ?tx), encElements (allOutputElements ?tx)]"
  have same: "sigMessages lengthHash (sampleTx t) 0 sampleEntry SigHashAll =
      sigMessages lengthHash ?tx 0 sampleEntry SigHashAll"
    using sigPreimage_agree [of SigHashAll 0 ?tx sampleEntry 0 "sampleTx t" sampleEntry lengthHash]
    by (simp add: sigMessages_def sampleTx_def sighashAgree_def inputCovered_def allOutpointElements_def
        allSequenceElements_def allSigOpCountElements_def allOutputElements_def)
  have set: "sigMessages lengthHash ?tx 0 sampleEntry SigHashAll = set ?ms"
    by (auto simp: sigMessages_def sampleTx_def allSequenceElements_def allOutputElements_def encVarBytes_def)
  have signing: "signing lengthHash m = word_of_nat (length m) # replicate 31 1" for m
    by (simp add: signing_def finalizeTransactionSigning_def lengthHash_def)
  have lens: "map length ?ms = [263, 36, 8, 1, 19]"
    by (simp add: sampleTx_def sampleEntry_def NewUTXOEntry_def sigPreimage_def allOutpointElements_def outpointElements_def
        allSequenceElements_def allSigOpCountElements_def allOutputElements_def txOutElements_def
        encOutpoint_def encVarBytes_def sigPreviousOutputs_def sigSequences_def sigSigOpCounts_def
        sigOutputs_def sigPayload_def signing NewZeroHash_def DomainHashSize_def SubnetworkIDNative_def)
  have "map (signing lengthHash) ?ms = map (\<lambda>n. word_of_nat n # replicate 31 1) (map length ?ms)"
    by (simp add: signing)
  then have "distinct (map (signing lengthHash) ?ms)"
    unfolding lens by simp
  moreover have "NewZeroHash \<noteq> signing lengthHash m" for m
  proof
    assume "NewZeroHash = signing lengthHash m"
    then have "last NewZeroHash = last (signing lengthHash m)" by (rule arg_cong)
    then show False by (simp add: signing NewZeroHash_def DomainHashSize_def)
  qed
  ultimately show ?thesis
    unfolding collisionFreeOn_def same Un_absorb set distinct_map image_iff by blast
qed

theorem signature_hash_covers_witness:
  "map_sum id fst (CalculateSignatureHashSchnorr lengthHash (sampleTx [1]) 0 SigHashAll emptyReusedValues) =
   map_sum id fst (CalculateSignatureHashSchnorr lengthHash (sampleTx [2]) 0 SigHashAll emptyReusedValues)"
proof -
  have "sighashAgree SigHashAll 0 (sampleTx [1]) sampleEntry 0 (sampleTx [2]) sampleEntry"
    by (simp add: sampleTx_def sighashAgree_def inputCovered_def)
  then show ?thesis
    using signature_hash_covers [where i = 0 and j = 0, OF _ _ _ reusedOk_empty reusedOk_empty _ _ _ _ _ _ _ _
        sample_collisionFree [of "[1]" "[2]"]] sampleTx_sized [of "[1]"] sampleTx_sized [of "[2]"]
    by (simp add: signing_def finalizeTransactionSigning_def lengthHash_def IsStandardSigHashType_def
        sampleTx_def) (simp add: sampleEntry_def NewUTXOEntry_def)
qed

end
