(* ===== verification/Script_Num.thy ===== *)
theory Script_Num
  imports Eiyaro_Prelude
begin

text \<open>
  Error codes and script numbers (domain/consensus/utils/txscript: error.go, scriptnum.go).

  A \<open>scriptNum\<close> is an \<open>int64\<close>, kept as an integer with the wrap-around of negation written
  out. Numbers on the stack are little endian with a sign bit in the last byte. The lemmas show
  that \<open>Bytes\<close> and \<open>makeScriptNum\<close> are inverse to each other, so that every number has exactly
  one accepted encoding.
\<close>

section \<open>Errors\<close>

datatype ErrorCode =
    ErrInternal | ErrInvalidFlags | ErrInvalidIndex | ErrUnsupportedAddress | ErrNotMultisigScript
  | ErrTooManyRequiredSigs | ErrEarlyReturn | ErrEmptyStack | ErrEvalFalse | ErrScriptUnfinished
  | ErrInvalidProgramCounter | ErrScriptTooBig | ErrElementTooBig | ErrTooManyOperations
  | ErrStackOverflow | ErrInvalidPubKeyCount | ErrInvalidSignatureCount | ErrNumberTooBig
  | ErrVerify | ErrEqualVerify | ErrNumEqualVerify | ErrCheckSigVerify | ErrCheckMultiSigVerify
  | ErrDisabledOpcode | ErrReservedOpcode | ErrMalformedPush | ErrInvalidStackOperation
  | ErrUnbalancedConditional | ErrMinimalData | ErrInvalidSigHashType | ErrSigLength | ErrSigHighS
  | ErrNotPushOnly | ErrPubKeyFormat | ErrCleanStack | ErrNullFail | ErrNegativeLockTime
  | ErrUnsatisfiedLockTime | ErrMinimalIf

text \<open>An error of the script code is a script error with its code, an error of another package
  that is passed on, or a run-time panic.\<close>

datatype script_failure = ScriptError ErrorCode | OtherError | GoPanic

section \<open>Script numbers\<close>

definition defaultScriptNumLen :: nat where
  "defaultScriptNumLen = 4"

definition maxInt32 :: int where
  "maxInt32 = 2 ^ 31 - 1"

definition minInt32 :: int where
  "minInt32 = - (2 ^ 31)"

type_synonym scriptNum = int

definition checkMinimalDataEncoding :: "bytes \<Rightarrow> script_failure + unit" where
  "checkMinimalDataEncoding v =
     (if length v = 0 then Inr ()
      else if (v ! (length v - 1)) AND 0x7f = 0 \<and>
              (length v = 1 \<or> (v ! (length v - 2)) AND 0x80 = 0)
      then Inl (ScriptError ErrMinimalData)
      else Inr ())"

text \<open>The loop \<open>for n > 0 { result = append(result, byte(n&0xff)); n >>= 8 }\<close>.\<close>

function numBytes :: "int \<Rightarrow> bytes" where
  "numBytes n = (if n > 0 then word_of_int (n AND 0xff) # numBytes (drop_bit 8 n) else [])"
  by auto
termination
  by (relation "measure nat") (auto simp: drop_bit_eq_div nat_less_iff)

declare numBytes.simps [simp del]

definition Bytes :: "scriptNum \<Rightarrow> script_failure + bytes" where
  "Bytes n =
     (if n = 0 then Inr []
      else
        let isNegative = (n < 0);
            n = (if isNegative then wrap64 (- n) else n);
            result = numBytes n
        in if result = [] then Inl GoPanic
           else if last result AND 0x80 \<noteq> 0
           then Inr (result @ [if isNegative then 0x80 else 0])
           else if isNegative then Inr (result[length result - 1 := last result OR 0x80])
           else Inr result)"

definition Int32 :: "scriptNum \<Rightarrow> int" where
  "Int32 n = (if n > maxInt32 then maxInt32 else if n < minInt32 then minInt32 else n)"

text \<open>The decoding loop \<open>result |= int64(val) << (i * 8)\<close>.\<close>

fun decodeLE :: "nat \<Rightarrow> int \<Rightarrow> bytes \<Rightarrow> int" where
  "decodeLE i res [] = res"
| "decodeLE i res (val # rest) = decodeLE (Suc i) (res OR wrap64 (push_bit (i * 8) (uint val))) rest"

definition makeScriptNum :: "bytes \<Rightarrow> nat \<Rightarrow> script_failure + scriptNum" where
  "makeScriptNum v scriptNumLen =
     (if length v > scriptNumLen then Inl (ScriptError ErrNumberTooBig)
      else if length v > 8 then Inl (ScriptError ErrNumberTooBig)
      else rbind (checkMinimalDataEncoding v) (\<lambda>_.
        if length v = 0 then Inr 0
        else
          let res = decodeLE 0 0 v
          in if (v ! (length v - 1)) AND 0x80 \<noteq> 0
             then Inr (wrap64 (- (res AND NOT (wrap64 (push_bit (8 * (length v - 1)) 0x80)))))
             else Inr res))"

section \<open>Bits of a byte\<close>

lemma byte_bit7: "bit (b :: byte) 7 \<longleftrightarrow> unat b \<ge> 128"
proof -
  have "bit b 7 \<longleftrightarrow> odd (unat b div 128)"
    using bit_unsigned_iff [where 'a = nat and w = b and n = 7] by (simp add: bit_iff_odd)
  moreover have "unat b div 128 = 0 \<or> unat b div 128 = 1" and "unat b div 128 = 1 \<longleftrightarrow> unat b \<ge> 128"
    using unat_byte_less [of b] by auto
  ultimately show ?thesis by auto
qed

lemma byte_and_80: "(b :: byte) AND 0x80 = 0 \<longleftrightarrow> unat b < 128"
  using and_exp_eq_0_iff_not_bit [of b 7] byte_bit7 [of b] by (simp add: not_le)

lemma byte_and_7f: "(b :: byte) AND 0x7f = 0 \<longleftrightarrow> unat b mod 128 = 0"
proof -
  have "b AND 0x7f = take_bit 7 b"
    by (simp add: take_bit_eq_mask mask_eq_exp_minus_1)
  then have "unat (b AND 0x7f) = unat b mod 128"
    using unsigned_take_bit_eq [where 'a = nat and w = b and n = 7] by (simp add: take_bit_eq_mod)
  then show ?thesis
    by (metis unsigned_0 unsigned_eq_0_iff)
qed

lemma byte_or_80: "unat (b :: byte) < 128 \<Longrightarrow> unat (b OR 0x80) = unat b + 128"
proof -
  assume b: "unat b < 128"
  have "bit (2 ^ 7 :: byte) n \<Longrightarrow> n = 7" for n
    by (simp only: bit_exp_iff)
  then have "b OR 2 ^ 7 = b + 2 ^ 7"
    using disjunctive_add [of b "2 ^ 7"] byte_bit7 [of b] b by force
  then show ?thesis
    using b by (simp add: unat_word_ariths)
qed

section \<open>Little endian digits\<close>

lemma int_and_255: "(n :: int) AND 0xff = n mod 256"
  using take_bit_eq_mask [of 8 n] by (simp add: take_bit_eq_mod mask_eq_exp_minus_1)

lemma numBytes_pos: "n > 0 \<Longrightarrow> numBytes n = word_of_int (n mod 256) # numBytes (n div 256)"
  by (subst numBytes.simps) (simp add: drop_bit_eq_div int_and_255)

lemma numBytes_nonpos: "n \<le> 0 \<Longrightarrow> numBytes n = []"
  by (subst numBytes.simps) simp

lemma unat_byte_of_int_mod: "unat (word_of_int (n mod 256) :: byte) = nat (n mod 256)"
  by (simp add: unsigned_of_int take_bit_eq_mod)

lemma le_val_numBytes: "n \<ge> 0 \<Longrightarrow> int (le_val (numBytes n)) = n"
proof (induction n rule: numBytes.induct)
  case (1 n)
  show ?case
  proof (cases "n > 0")
    case True
    then have "int (le_val (numBytes (n div 256))) = n div 256"
      using 1 by (simp add: drop_bit_eq_div)
    then show ?thesis
      using True by (simp add: numBytes_pos unat_byte_of_int_mod)
  qed (use 1 in \<open>simp add: numBytes_nonpos\<close>)
qed

lemma last_numBytes: "n > 0 \<Longrightarrow> numBytes n \<noteq> [] \<and> unat (last (numBytes n)) > 0"
proof (induction n rule: numBytes.induct)
  case (1 n)
  show ?case
  proof (cases "n div 256 > 0")
    case True
    then show ?thesis
      using 1 by (simp add: numBytes_pos drop_bit_eq_div)
  next
    case False
    then have "n < 256" using 1(2) by auto
    then show ?thesis
      using 1(2) False unat_byte_of_int_mod [of n] by (simp add: numBytes_pos numBytes_nonpos)
  qed
qed

text \<open>A digit string without leading zeros is the digit string of its value.\<close>

lemma numBytes_le_val: "bs = [] \<or> unat (last bs) > 0 \<Longrightarrow> numBytes (int (le_val bs)) = bs"
proof (induction bs)
  case (Cons b bs)
  have b: "word_of_int (int (unat b)) = b"
    by simp
  have digit: "le_val (b # bs) mod 256 = unat b" "le_val (b # bs) div 256 = le_val bs"
    using unat_byte_less [of b] by simp_all
  have split: "int (le_val (b # bs)) mod 256 = int (unat b)" "int (le_val (b # bs)) div 256 = int (le_val bs)"
    using digit zmod_int [of "le_val (b # bs)" 256] zdiv_int [of "le_val (b # bs)" 256]
    by (simp_all del: le_val.simps)
  have "le_val (b # bs) > 0"
  proof (cases "bs = []")
    case False
    then have "numBytes (int (le_val bs)) = bs" using Cons by simp
    then have "le_val bs > 0" using False numBytes_nonpos [of "int (le_val bs)"] by fastforce
    then show ?thesis by simp
  qed (use Cons in simp)
  then have "numBytes (int (le_val (b # bs))) = word_of_int (int (unat b)) # numBytes (int (le_val bs))"
    using numBytes_pos [of "int (le_val (b # bs))"] split by (simp del: le_val.simps)
  moreover have "numBytes (int (le_val bs)) = bs"
    using Cons by (cases "bs = []") (simp_all add: numBytes_nonpos)
  ultimately show ?case
    using b by simp
qed (simp add: numBytes_nonpos)

lemma le_val_snoc: "le_val (bs @ [b]) = le_val bs + 256 ^ length bs * unat b"
  by (simp add: le_val_append)

text \<open>The decoding loop computes the little endian value, wrapped to 64 bits.\<close>

lemma digit_bound:
  fixes val res :: int
  assumes "val < 256" and "res < 2 ^ k"
  shows "res + 2 ^ k * val < 2 ^ (k + 8)"
proof -
  have "2 ^ k * val \<le> 2 ^ k * 255"
    using assms by (intro mult_left_mono) auto
  moreover have "(2 :: int) ^ (k + 8) = 2 ^ k * 255 + 2 ^ k"
    by (simp add: power_add)
  ultimately show ?thesis
    using assms by linarith
qed

lemma wrap64_digit:
  fixes val res :: int
  assumes "i \<le> 7" and "0 \<le> val" "val < 256" and "0 \<le> res" "res < 2 ^ (8 * i)"
  shows "res OR wrap64 (push_bit (i * 8) val) = wrap64 (res + 2 ^ (8 * i) * val)"
proof -
  let ?k = "8 * i"
  have bound: "res + 2 ^ ?k * val < 2 ^ (?k + 8)"
    by (rule digit_bound [OF assms(3,5)])
  have nonneg: "0 \<le> 2 ^ ?k * val"
    using assms by simp
  have shift: "push_bit (i * 8) val = val * 2 ^ ?k"
    by (simp add: push_bit_eq_mult mult.commute)
  show ?thesis
  proof (cases "res + 2 ^ ?k * val < 2 ^ 63")
    case True
    then have "int64_range (val * 2 ^ ?k)" "int64_range (res + 2 ^ ?k * val)"
      using assms(4) nonneg by (auto simp: int64_range_def mult.commute)
    then show ?thesis
      using int_or_shifted [OF assms(4,5), of val] by (simp add: shift mult.commute)
  next
    case False
    have i: "i = 7"
    proof (rule ccontr)
      assume "i \<noteq> 7"
      then have "?k + 8 \<le> 56" using assms(1) by simp
      then have "(2 :: int) ^ (?k + 8) \<le> 2 ^ 56" by (intro power_increasing) auto
      then show False using False bound by simp
    qed
    have "val \<ge> 128"
      using False assms i by simp
    then have "wrap64 (val * 2 ^ ?k) = (val - 256) * 2 ^ ?k"
      "wrap64 (res + 2 ^ ?k * val) = res + (val - 256) * 2 ^ ?k"
      using False assms i wrap64_high [of "val * 2 ^ ?k"] wrap64_high [of "res + 2 ^ ?k * val"]
      by (simp_all add: algebra_simps)
    then show ?thesis
      using int_or_shifted [OF assms(4,5), of "val - 256"] by (simp add: shift)
  qed
qed

lemma decodeLE_wrap:
  assumes "0 \<le> res" and "res < 2 ^ (8 * i)" and "i + length v \<le> 8" and "v \<noteq> []"
  shows "decodeLE i res v = wrap64 (res + 2 ^ (8 * i) * int (le_val v))"
  using assms
proof (induction v arbitrary: i res)
  case (Cons val rest)
  have digit: "res OR wrap64 (push_bit (i * 8) (uint val)) = wrap64 (res + 2 ^ (8 * i) * uint val)"
    using Cons.prems unsigned_less [of val, where 'a = int] by (intro wrap64_digit) simp_all
  show ?case
  proof (cases "rest = []")
    case False
    have less: "res + 2 ^ (8 * i) * uint val < 2 ^ (8 * Suc i)"
      using digit_bound [of "uint val" res "8 * i"] unsigned_less [of val, where 'a = int] Cons.prems
      by (simp add: add.commute)
    have "i + 1 + 1 \<le> 8"
      using Cons.prems False by (cases rest) auto
    then have "(2 :: int) ^ (8 * Suc i) \<le> 2 ^ 56"
      by (intro power_increasing) auto
    moreover have nonneg: "0 \<le> res + 2 ^ (8 * i) * uint val"
      using Cons.prems by simp
    ultimately have "int64_range (res + 2 ^ (8 * i) * uint val)"
      using less by (simp add: int64_range_def)
    then have "decodeLE i res (val # rest) =
        wrap64 (res + 2 ^ (8 * i) * uint val + 2 ^ (8 * Suc i) * int (le_val rest))"
      using Cons.IH [OF nonneg less] Cons.prems False by (simp add: digit)
    then show ?thesis
      by (simp add: algebra_simps power_add)
  qed (simp add: digit)
qed simp

section \<open>Numbers and their encodings\<close>

definition magnitude :: "bytes \<Rightarrow> byte \<Rightarrow> nat" where
  "magnitude w b = le_val w + 256 ^ length w * (unat b mod 128)"

lemma power_256: "(256 :: 'a :: comm_semiring_1) ^ n = 2 ^ (8 * n)"
  by (simp add: power_mult)

lemma magnitude_bound: "int (magnitude w b) < 2 ^ (8 * length w + 7)"
proof -
  have "256 ^ length w * (unat b mod 128) \<le> 256 ^ length w * 127"
    by (intro mult_left_mono) auto
  then have "magnitude w b < 256 ^ length w * 128"
    using le_val_less [of w] unfolding magnitude_def by linarith
  then have "int (magnitude w b) < int (256 ^ length w * 128)"
    by (simp only: of_nat_less_iff)
  also have "\<dots> = 2 ^ (8 * length w + 7)"
    by (simp add: power_256 power_add)
  finally show ?thesis .
qed

lemma magnitude_less:
  assumes "length w \<le> 7"
  shows "int (magnitude w b) < 2 ^ 63"
proof -
  have "(2 :: int) ^ (8 * length w + 7) \<le> 2 ^ 63"
    using assms by (intro power_increasing) auto
  then show ?thesis
    using magnitude_bound [of w b] by linarith
qed

lemma decodeLE_snoc:
  assumes "length w \<le> 7"
  shows "decodeLE 0 0 (w @ [b]) =
    (if unat b < 128 then int (magnitude w b)
     else wrap64 (int (magnitude w b) + 2 ^ (8 * length w + 7)))"
proof -
  have eq: "decodeLE 0 0 (w @ [b]) = wrap64 (int (le_val (w @ [b])))"
    using decodeLE_wrap [of 0 0 "w @ [b]"] assms by simp
  show ?thesis
  proof (cases "unat b < 128")
    case True
    then have "le_val (w @ [b]) = magnitude w b"
      by (simp add: magnitude_def le_val_snoc)
    moreover have "int64_range (int (magnitude w b))"
      using magnitude_less [OF assms] by (simp add: int64_range_def)
    ultimately show ?thesis
      using True eq by simp
  next
    case False
    then obtain r where r: "unat b = r + 128" "r < 128"
      using unat_byte_less [of b] le_Suc_ex [of 128 "unat b"] by fastforce
    have "le_val (w @ [b]) = magnitude w b + 256 ^ length w * 128"
      using r(2) unfolding le_val_snoc magnitude_def r(1) by (simp add: algebra_simps)
    then show ?thesis
      using False eq by (simp add: power_256 power_add)
  qed
qed

text \<open>Clearing the sign bit leaves the magnitude, also at eight bytes, where the bit is the sign
  bit of the 64-bit word.\<close>

lemma int64_range_small: "0 \<le> x \<Longrightarrow> x \<le> 72057594037927936 \<Longrightarrow> int64_range x"
  by (simp add: int64_range_def)

lemma clear_sign_bit:
  assumes w: "length w \<le> 7" and neg: "\<not> unat b < 128"
  shows "decodeLE 0 0 (w @ [b]) AND NOT (wrap64 (push_bit (8 * length w) 0x80)) = int (magnitude w b)"
proof (cases "length w = 7")
  case True
  have m: "int (magnitude w b) < 2 ^ 63" by (rule magnitude_less [OF w])
  have "decodeLE 0 0 (w @ [b]) = int (magnitude w b) - 2 ^ 63"
    using decodeLE_snoc [OF w, of b] neg True m wrap64_high [of "int (magnitude w b) + 2 ^ 63"] by simp
  moreover have "NOT (wrap64 (push_bit (8 * length w) 0x80)) = mask 63"
    using True by (simp add: push_bit_eq_mult wrap64_def not_int_def mask_eq_exp_minus_1)
  ultimately have "decodeLE 0 0 (w @ [b]) AND NOT (wrap64 (push_bit (8 * length w) 0x80)) =
      (int (magnitude w b) - 2 ^ 63) mod 2 ^ 63"
    by (simp only: take_bit_eq_mod flip: take_bit_eq_mask)
  also have "\<dots> = int (magnitude w b)"
    using m by (simp only: minus_mod_self2) (simp add: mod_pos_pos_trivial)
  finally show ?thesis .
next
  case False
  let ?k = "8 * length w + 7"
  have k: "(2 :: int) ^ ?k \<le> 2 ^ 55"
    using False w by (intro power_increasing) auto
  have pos: "(0 :: int) < 2 ^ ?k" "0 \<le> int (magnitude w b)" by simp_all
  have range: "int64_range (2 ^ ?k)"
    using k pos int64_range_small [of "2 ^ ?k"] by (simp add: order.trans)
  have range': "int64_range (int (magnitude w b) + 2 ^ ?k)"
  proof (rule int64_range_small)
    have "int (magnitude w b) + 2 ^ ?k \<le> 2 ^ 55 + 2 ^ 55"
      using magnitude_bound [of w b] k by linarith
    then show "int (magnitude w b) + 2 ^ ?k \<le> 72057594037927936" by simp
  qed simp
  have "bit (int (magnitude w b) + 2 ^ ?k) ?k"
    using magnitude_bound [of w b] by (simp add: bit_iff_odd div_add_self2)
  then have "(int (magnitude w b) + 2 ^ ?k) AND NOT (2 ^ ?k) = int (magnitude w b)"
    using unset_bit_eq [of ?k "int (magnitude w b) + 2 ^ ?k"] by (simp add: unset_bit_eq_and_not push_bit_eq_mult)
  moreover have "wrap64 (push_bit (8 * length w) 0x80) = 2 ^ ?k"
    using range by (simp add: push_bit_eq_mult power_add mult.commute)
  ultimately show ?thesis
    using range' decodeLE_snoc [OF w, of b] neg by simp
qed

text \<open>A nonempty encoding splits into its digits and the byte with the sign.\<close>

definition minimal :: "bytes \<Rightarrow> byte \<Rightarrow> bool" where
  "minimal w b \<longleftrightarrow> unat b mod 128 \<noteq> 0 \<or> (w \<noteq> [] \<and> unat (last w) \<ge> 128)"

lemma checkMinimalDataEncoding_snoc:
  "checkMinimalDataEncoding (w @ [b]) = (if minimal w b then Inr () else Inl (ScriptError ErrMinimalData))"
proof -
  have "w \<noteq> [] \<Longrightarrow> (w @ [b]) ! (length w - 1) = last w"
    by (simp add: nth_append last_conv_nth)
  then show ?thesis
    by (cases "w = []") (auto simp: checkMinimalDataEncoding_def minimal_def byte_and_7f byte_and_80)
qed

lemma makeScriptNum_snoc:
  assumes "L \<le> 8"
  shows "makeScriptNum (w @ [b]) L =
    (if length w \<ge> L then Inl (ScriptError ErrNumberTooBig)
     else if \<not> minimal w b then Inl (ScriptError ErrMinimalData)
     else Inr (if unat b < 128 then int (magnitude w b) else - int (magnitude w b)))"
proof (cases "length w \<ge> L")
  case False
  then have w: "length w \<le> 7" using assms by simp
  have "int64_range (- int (magnitude w b))"
    using magnitude_less [OF w, of b] by (simp add: int64_range_def)
  then show ?thesis
    using False w assms clear_sign_bit [OF w, of b] decodeLE_snoc [OF w, of b]
    by (auto simp: makeScriptNum_def checkMinimalDataEncoding_snoc byte_and_80 Let_def)
qed (simp add: makeScriptNum_def)

lemma numBytes_magnitude:
  "numBytes (int (magnitude w b)) =
     (if unat b mod 128 \<noteq> 0 then w @ [word_of_nat (unat b mod 128)]
      else if w = [] \<or> unat (last w) > 0 then w else numBytes (int (le_val w)))"
proof (cases "unat b mod 128 = 0")
  case True
  then show ?thesis
    using numBytes_le_val [of w] by (simp add: magnitude_def)
next
  case False
  have u: "unat (word_of_nat (unat b mod 128) :: byte) = unat b mod 128"
    by (simp add: unat_of_nat)
  have "int (magnitude w b) = int (le_val (w @ [word_of_nat (unat b mod 128)]))"
    by (simp only: magnitude_def le_val_snoc u)
  then show ?thesis
    using numBytes_le_val [of "w @ [word_of_nat (unat b mod 128)]"] False u by simp
qed

text \<open>Decoding is inverted by \<open>Bytes\<close>.\<close>

lemma Bytes_makeScriptNum:
  assumes "L \<le> 8" and "makeScriptNum v L = Inr n"
  shows "int64_range n \<and> Bytes n = Inr v \<and> length v \<le> L"
proof (cases v rule: rev_cases)
  case Nil
  then show ?thesis
    using assms by (simp add: makeScriptNum_def checkMinimalDataEncoding_def Bytes_def int64_range_def)
next
  case (snoc w b)
  then have w: "length w < L" "length w \<le> 7" and m: "minimal w b"
    and n: "n = (if unat b < 128 then int (magnitude w b) else - int (magnitude w b))"
    using assms by (auto simp: makeScriptNum_snoc split: if_splits)
  have range: "int64_range (int (magnitude w b))" "int64_range (- int (magnitude w b))"
    using magnitude_less [OF w(2), of b] by (simp_all add: int64_range_def)
  have pos: "magnitude w b > 0"
    using m numBytes_magnitude [of w b] numBytes_nonpos [of "int (magnitude w b)"]
    by (auto simp: minimal_def split: if_splits intro!: gr0I)
  have "Bytes n = Inr (w @ [b])"
  proof (cases "unat b mod 128 = 0")
    case True
    then have "w \<noteq> []" "unat (last w) \<ge> 128" and b: "unat b = (if unat b < 128 then unat (0 :: byte) else unat (0x80 :: byte))"
      using m unat_byte_less [of b] by (auto simp: minimal_def)
    then have "numBytes (int (magnitude w b)) = w"
      using True by (simp add: numBytes_magnitude)
    then show ?thesis
      using n pos range \<open>w \<noteq> []\<close> \<open>unat (last w) \<ge> 128\<close> b
      by (auto simp: Bytes_def Let_def byte_and_80 split: if_splits intro: unsigned_word_eqI)
  next
    case False
    let ?c = "word_of_nat (unat b mod 128) :: byte"
    have c: "unat ?c = unat b mod 128" by (simp add: unat_of_nat)
    have d: "numBytes (int (magnitude w b)) = w @ [?c]"
      using False by (simp add: numBytes_magnitude)
    have "unat b < 128 \<Longrightarrow> ?c = b" by simp
    moreover have "?c OR 0x80 = b" if "\<not> unat b < 128"
      using byte_or_80 [of ?c] c that unat_byte_less [of b]
      by (intro unsigned_word_eqI [where 'a = nat]) (simp add: le_mod_geq)
    ultimately show ?thesis
      using n pos range d c by (auto simp: Bytes_def Let_def byte_and_80)
  qed
  then show ?thesis
    using snoc w range n by simp
qed

lemma makeScriptNum_Bytes:
  assumes L: "L \<le> 8" and n: "int64_range n" and v: "Bytes n = Inr v" and len: "length v \<le> L"
  shows "makeScriptNum v L = Inr n"
proof (cases "n = 0")
  case True
  then show ?thesis
    using v by (simp add: Bytes_def makeScriptNum_def checkMinimalDataEncoding_def)
next
  case False
  have "n \<noteq> - (2 ^ 63)"
    using v by (auto simp: Bytes_def Let_def wrap64_def numBytes_nonpos)
  then have abs: "int64_range (- n)" "\<bar>n\<bar> > 0"
    using n False by (auto simp: int64_range_def)
  obtain w c where d: "numBytes \<bar>n\<bar> = w @ [c]" and c: "unat c > 0"
    using last_numBytes [OF abs(2)] by (metis append_butlast_last_id)
  have val: "int (le_val (w @ [c])) = \<bar>n\<bar>"
    using le_val_numBytes [of "\<bar>n\<bar>"] d by simp
  have v': "v = (if unat c \<ge> 128 then (w @ [c]) @ [if n < 0 then 0x80 else 0]
                 else w @ [if n < 0 then c OR 0x80 else c])"
    using v abs False d by (auto simp: Bytes_def Let_def byte_and_80 abs_if split: if_splits)
  show ?thesis
  proof (cases "unat c \<ge> 128")
    case True
    have "magnitude (w @ [c]) b = le_val (w @ [c])" if "unat b mod 128 = 0" for b
      using that by (simp add: magnitude_def)
    then show ?thesis
      using True v' len L makeScriptNum_snoc [OF L, of "w @ [c]"] val
      by (auto simp: minimal_def abs_if split: if_splits)
  next
    case c_small: False
    then have "unat (c OR 0x80) = unat c + 128" by (intro byte_or_80) simp
    then have "magnitude w (c OR 0x80) = le_val (w @ [c])" "magnitude w c = le_val (w @ [c])"
      using c_small by (simp_all add: magnitude_def le_val_snoc)
    then show ?thesis
      using c_small c v' len L makeScriptNum_snoc [OF L, of w] val \<open>unat (c OR 0x80) = unat c + 128\<close>
      by (auto simp: minimal_def abs_if split: if_splits)
  qed
qed

lemma makeScriptNum_iff:
  "L \<le> 8 \<Longrightarrow> makeScriptNum v L = Inr n \<longleftrightarrow> int64_range n \<and> Bytes n = Inr v \<and> length v \<le> L"
  using Bytes_makeScriptNum makeScriptNum_Bytes by blast

text \<open>The range of accepted numbers, and the numbers that have an encoding at all.\<close>

lemma makeScriptNum_range:
  assumes "L \<le> 8" and "L > 0" and "makeScriptNum v L = Inr n"
  shows "\<bar>n\<bar> < 2 ^ (8 * L - 1)"
proof (cases v rule: rev_cases)
  case Nil
  then show ?thesis
    using assms by (simp add: makeScriptNum_def checkMinimalDataEncoding_def)
next
  case (snoc w b)
  then have w: "length w < L" and n: "\<bar>n\<bar> = int (magnitude w b)"
    using assms by (auto simp: makeScriptNum_snoc split: if_splits)
  have "8 * length w + 7 \<le> 8 * L - 1" using w by simp
  then have "(2 :: int) ^ (8 * length w + 7) \<le> 2 ^ (8 * L - 1)"
    by (intro power_increasing) auto
  then show ?thesis
    using magnitude_bound [of w b] n by linarith
qed

lemma Bytes_total: "int64_range n \<Longrightarrow> n \<noteq> - (2 ^ 63) \<Longrightarrow> \<exists>v. Bytes n = Inr v"
proof -
  assume n: "int64_range n" "n \<noteq> - (2 ^ 63)"
  then have "int64_range (- n)" by (auto simp: int64_range_def)
  then show ?thesis
    using n last_numBytes [of n] last_numBytes [of "- n"]
    by (cases n "0 :: int" rule: linorder_cases) (auto simp: Bytes_def Let_def)
qed

lemma length_numBytes: "n < 256 ^ j \<Longrightarrow> length (numBytes n) \<le> j"
proof (induction j arbitrary: n)
  case (Suc j)
  then have "n div 256 < 256 ^ j" by (simp add: div_less_iff_less_mult mult.commute)
  then show ?case using Suc.IH [of "n div 256"] by (cases "n > 0") (simp_all add: numBytes_pos numBytes_nonpos)
qed (simp add: numBytes_nonpos)

lemma Bytes_length:
  assumes "\<bar>n\<bar> < 256 ^ j" and "int64_range n" and "n \<noteq> - (2 ^ 63)"
  shows "\<exists>v. Bytes n = Inr v \<and> length v \<le> Suc j"
proof -
  obtain v where v: "Bytes n = Inr v" using Bytes_total [OF assms(2,3)] by blast
  have "int64_range (- n)" using assms(2,3) by (auto simp: int64_range_def)
  then have "(if n < 0 then wrap64 (- n) else n) = \<bar>n\<bar>" by simp
  then have "length v \<le> Suc (length (numBytes \<bar>n\<bar>))" using v by (auto simp: Bytes_def Let_def split: if_splits)
  then show ?thesis using v length_numBytes [OF assms(1)] by auto
qed

section \<open>Properties\<close>

text \<open>C24. Script numbers have exactly one encoding: for every maximal length up to 8 bytes, data
  is accepted as the number \<open>n\<close> if and only if \<open>n\<close> is a 64-bit integer that \<open>Bytes\<close> encodes as
  exactly that data and the data is short enough. So decoding inverts encoding, encoding inverts
  decoding, and no two accepted encodings mean the same number.\<close>

theorem scriptNum_encoding_unique:
  assumes "L \<le> 8"
  shows "makeScriptNum v L = Inr n \<longleftrightarrow> int64_range n \<and> Bytes n = Inr v \<and> length v \<le> L"
  by (rule makeScriptNum_iff [OF assms])

theorem scriptNum_encoding_unique_witness: "makeScriptNum [0x81, 0x80] 4 = Inr (- 129)"
proof -
  have "Bytes (- 129) = Inr [0x81, 0x80]"
    by (simp add: Bytes_def wrap64_def numBytes_pos numBytes_nonpos)
  then show ?thesis
    using scriptNum_encoding_unique [of 4 "[0x81, 0x80]" "- 129"] by (simp add: int64_range_def)
qed



end
