(* ===== verification/Script_Opcodes.thy ===== *)
theory Script_Opcodes
  imports Script_Num
begin

text \<open>
  Opcodes and the parsing of scripts (domain/consensus/utils/txscript: opcode.go, script.go).

  The handler of an opcode is a tag of the datatype \<open>opfunc\<close>; the script engine dispatches on it.
  \<open>opcodeArray\<close> lists the 256 entries of the Go array by index. \<open>parseScriptTemplate\<close> is a
  partial function: with an opcode of length 0 in the table the Go loop does not advance, so
  termination of \<open>ParseScript\<close> is a theorem about the table.
\<close>

section \<open>Opcodes\<close>

abbreviation Op0 :: byte where "Op0 \<equiv> 0"
abbreviation OpPushData1 :: byte where "OpPushData1 \<equiv> 76"
abbreviation OpPushData2 :: byte where "OpPushData2 \<equiv> 77"
abbreviation OpPushData4 :: byte where "OpPushData4 \<equiv> 78"
abbreviation Op1Negate :: byte where "Op1Negate \<equiv> 79"
abbreviation OpReserved :: byte where "OpReserved \<equiv> 80"
abbreviation Op1 :: byte where "Op1 \<equiv> 81"
abbreviation Op16 :: byte where "Op16 \<equiv> 96"
abbreviation OpIf :: byte where "OpIf \<equiv> 99"
abbreviation OpNotIf :: byte where "OpNotIf \<equiv> 100"
abbreviation OpVerIf :: byte where "OpVerIf \<equiv> 101"
abbreviation OpVerNotIf :: byte where "OpVerNotIf \<equiv> 102"
abbreviation OpElse :: byte where "OpElse \<equiv> 103"
abbreviation OpEndIf :: byte where "OpEndIf \<equiv> 104"
abbreviation OpReturn :: byte where "OpReturn \<equiv> 106"
abbreviation OpCat :: byte where "OpCat \<equiv> 126"
abbreviation OpSubStr :: byte where "OpSubStr \<equiv> 127"
abbreviation OpLeft :: byte where "OpLeft \<equiv> 128"
abbreviation OpRight :: byte where "OpRight \<equiv> 129"
abbreviation OpInvert :: byte where "OpInvert \<equiv> 131"
abbreviation OpAnd :: byte where "OpAnd \<equiv> 132"
abbreviation OpOr :: byte where "OpOr \<equiv> 133"
abbreviation OpXor :: byte where "OpXor \<equiv> 134"
abbreviation OpEqual :: byte where "OpEqual \<equiv> 135"
abbreviation Op2Mul :: byte where "Op2Mul \<equiv> 141"
abbreviation Op2Div :: byte where "Op2Div \<equiv> 142"
abbreviation OpMul :: byte where "OpMul \<equiv> 149"
abbreviation OpDiv :: byte where "OpDiv \<equiv> 150"
abbreviation OpMod :: byte where "OpMod \<equiv> 151"
abbreviation OpLShift :: byte where "OpLShift \<equiv> 152"
abbreviation OpRShift :: byte where "OpRShift \<equiv> 153"
abbreviation OpCheckMultiSigECDSA :: byte where "OpCheckMultiSigECDSA \<equiv> 169"
abbreviation OpBlake2b :: byte where "OpBlake2b \<equiv> 170"
abbreviation OpCheckSigECDSA :: byte where "OpCheckSigECDSA \<equiv> 171"
abbreviation OpCheckSig :: byte where "OpCheckSig \<equiv> 172"
abbreviation OpCheckSigVerify :: byte where "OpCheckSigVerify \<equiv> 173"
abbreviation OpCheckMultiSig :: byte where "OpCheckMultiSig \<equiv> 174"
abbreviation OpCheckMultiSigVerify :: byte where "OpCheckMultiSigVerify \<equiv> 175"
abbreviation OpData32 :: byte where "OpData32 \<equiv> 32"

datatype push_func =
    C_False | C_PushData | C_1Negate | C_N

datatype control_func =
    C_Nop | C_If | C_NotIf | C_Else | C_Endif | C_Verify
  | C_Return | C_CheckLockTimeVerify | C_CheckSequenceVerify

datatype stack_func =
    C_ToAltStack | C_FromAltStack | C_2Drop | C_2Dup | C_3Dup | C_2Over
  | C_2Rot | C_2Swap | C_IfDup | C_Depth | C_Drop | C_Dup
  | C_Nip | C_Over | C_Pick | C_Roll | C_Rot | C_Swap
  | C_Tuck

datatype splice_func =
    C_Size | C_Equal | C_EqualVerify

datatype num_func =
    C_1Add | C_1Sub | C_Negate | C_Abs | C_Not | C_0NotEqual
  | C_Add | C_Sub | C_BoolAnd | C_BoolOr | C_NumEqual | C_NumEqualVerify
  | C_NumNotEqual | C_LessThan | C_GreaterThan | C_LessThanOrEqual | C_GreaterThanOrEqual | C_Min
  | C_Max | C_Within

datatype crypto_func =
    C_Sha256 | C_Blake2b | C_CheckSig | C_CheckSigECDSA | C_CheckSigVerify | C_CheckMultiSig
  | C_CheckMultiSigECDSA | C_CheckMultiSigVerify

datatype opfunc =
    FnPush push_func | FnControl control_func | FnStack stack_func | FnSplice splice_func | FnNum num_func | FnCrypto crypto_func
  | FnReserved | FnDisabled | FnInvalid

record opcode =
  opValue :: byte
  opName :: string
  opLength :: int
  opFunc :: opfunc

definition opc :: "byte \<Rightarrow> string \<Rightarrow> int \<Rightarrow> opfunc \<Rightarrow> opcode" where
  "opc value name len f = \<lparr>opValue = value, opName = name, opLength = len, opFunc = f\<rparr>"

text \<open>The entries of the table for the byte values 0 to 96, 97 to 177 and 178 to 255. The entries
  of the bytes 178 to 187 carry the values 188 to 197, as in the source.\<close>

definition opcodeArray_push :: "opcode list" where
  "opcodeArray_push = [
    opc 0 ''OP_0'' 1 (FnPush C_False), opc 1 ''OP_DATA_1'' 2 (FnPush C_PushData), opc 2 ''OP_DATA_2'' 3 (FnPush C_PushData),
    opc 3 ''OP_DATA_3'' 4 (FnPush C_PushData), opc 4 ''OP_DATA_4'' 5 (FnPush C_PushData),
    opc 5 ''OP_DATA_5'' 6 (FnPush C_PushData), opc 6 ''OP_DATA_6'' 7 (FnPush C_PushData),
    opc 7 ''OP_DATA_7'' 8 (FnPush C_PushData), opc 8 ''OP_DATA_8'' 9 (FnPush C_PushData),
    opc 9 ''OP_DATA_9'' 10 (FnPush C_PushData), opc 10 ''OP_DATA_10'' 11 (FnPush C_PushData),
    opc 11 ''OP_DATA_11'' 12 (FnPush C_PushData), opc 12 ''OP_DATA_12'' 13 (FnPush C_PushData),
    opc 13 ''OP_DATA_13'' 14 (FnPush C_PushData), opc 14 ''OP_DATA_14'' 15 (FnPush C_PushData),
    opc 15 ''OP_DATA_15'' 16 (FnPush C_PushData), opc 16 ''OP_DATA_16'' 17 (FnPush C_PushData),
    opc 17 ''OP_DATA_17'' 18 (FnPush C_PushData), opc 18 ''OP_DATA_18'' 19 (FnPush C_PushData),
    opc 19 ''OP_DATA_19'' 20 (FnPush C_PushData), opc 20 ''OP_DATA_20'' 21 (FnPush C_PushData),
    opc 21 ''OP_DATA_21'' 22 (FnPush C_PushData), opc 22 ''OP_DATA_22'' 23 (FnPush C_PushData),
    opc 23 ''OP_DATA_23'' 24 (FnPush C_PushData), opc 24 ''OP_DATA_24'' 25 (FnPush C_PushData),
    opc 25 ''OP_DATA_25'' 26 (FnPush C_PushData), opc 26 ''OP_DATA_26'' 27 (FnPush C_PushData),
    opc 27 ''OP_DATA_27'' 28 (FnPush C_PushData), opc 28 ''OP_DATA_28'' 29 (FnPush C_PushData),
    opc 29 ''OP_DATA_29'' 30 (FnPush C_PushData), opc 30 ''OP_DATA_30'' 31 (FnPush C_PushData),
    opc 31 ''OP_DATA_31'' 32 (FnPush C_PushData), opc 32 ''OP_DATA_32'' 33 (FnPush C_PushData),
    opc 33 ''OP_DATA_33'' 34 (FnPush C_PushData), opc 34 ''OP_DATA_34'' 35 (FnPush C_PushData),
    opc 35 ''OP_DATA_35'' 36 (FnPush C_PushData), opc 36 ''OP_DATA_36'' 37 (FnPush C_PushData),
    opc 37 ''OP_DATA_37'' 38 (FnPush C_PushData), opc 38 ''OP_DATA_38'' 39 (FnPush C_PushData),
    opc 39 ''OP_DATA_39'' 40 (FnPush C_PushData), opc 40 ''OP_DATA_40'' 41 (FnPush C_PushData),
    opc 41 ''OP_DATA_41'' 42 (FnPush C_PushData), opc 42 ''OP_DATA_42'' 43 (FnPush C_PushData),
    opc 43 ''OP_DATA_43'' 44 (FnPush C_PushData), opc 44 ''OP_DATA_44'' 45 (FnPush C_PushData),
    opc 45 ''OP_DATA_45'' 46 (FnPush C_PushData), opc 46 ''OP_DATA_46'' 47 (FnPush C_PushData),
    opc 47 ''OP_DATA_47'' 48 (FnPush C_PushData), opc 48 ''OP_DATA_48'' 49 (FnPush C_PushData),
    opc 49 ''OP_DATA_49'' 50 (FnPush C_PushData), opc 50 ''OP_DATA_50'' 51 (FnPush C_PushData),
    opc 51 ''OP_DATA_51'' 52 (FnPush C_PushData), opc 52 ''OP_DATA_52'' 53 (FnPush C_PushData),
    opc 53 ''OP_DATA_53'' 54 (FnPush C_PushData), opc 54 ''OP_DATA_54'' 55 (FnPush C_PushData),
    opc 55 ''OP_DATA_55'' 56 (FnPush C_PushData), opc 56 ''OP_DATA_56'' 57 (FnPush C_PushData),
    opc 57 ''OP_DATA_57'' 58 (FnPush C_PushData), opc 58 ''OP_DATA_58'' 59 (FnPush C_PushData),
    opc 59 ''OP_DATA_59'' 60 (FnPush C_PushData), opc 60 ''OP_DATA_60'' 61 (FnPush C_PushData),
    opc 61 ''OP_DATA_61'' 62 (FnPush C_PushData), opc 62 ''OP_DATA_62'' 63 (FnPush C_PushData),
    opc 63 ''OP_DATA_63'' 64 (FnPush C_PushData), opc 64 ''OP_DATA_64'' 65 (FnPush C_PushData),
    opc 65 ''OP_DATA_65'' 66 (FnPush C_PushData), opc 66 ''OP_DATA_66'' 67 (FnPush C_PushData),
    opc 67 ''OP_DATA_67'' 68 (FnPush C_PushData), opc 68 ''OP_DATA_68'' 69 (FnPush C_PushData),
    opc 69 ''OP_DATA_69'' 70 (FnPush C_PushData), opc 70 ''OP_DATA_70'' 71 (FnPush C_PushData),
    opc 71 ''OP_DATA_71'' 72 (FnPush C_PushData), opc 72 ''OP_DATA_72'' 73 (FnPush C_PushData),
    opc 73 ''OP_DATA_73'' 74 (FnPush C_PushData), opc 74 ''OP_DATA_74'' 75 (FnPush C_PushData),
    opc 75 ''OP_DATA_75'' 76 (FnPush C_PushData), opc 76 ''OP_PUSHDATA1'' (-1) (FnPush C_PushData),
    opc 77 ''OP_PUSHDATA2'' (-2) (FnPush C_PushData), opc 78 ''OP_PUSHDATA4'' (-4) (FnPush C_PushData),
    opc 79 ''OP_1NEGATE'' 1 (FnPush C_1Negate), opc 80 ''OP_RESERVED'' 1 FnReserved, opc 81 ''OP_1'' 1 (FnPush C_N),
    opc 82 ''OP_2'' 1 (FnPush C_N), opc 83 ''OP_3'' 1 (FnPush C_N), opc 84 ''OP_4'' 1 (FnPush C_N), opc 85 ''OP_5'' 1 (FnPush C_N),
    opc 86 ''OP_6'' 1 (FnPush C_N), opc 87 ''OP_7'' 1 (FnPush C_N), opc 88 ''OP_8'' 1 (FnPush C_N), opc 89 ''OP_9'' 1 (FnPush C_N),
    opc 90 ''OP_10'' 1 (FnPush C_N), opc 91 ''OP_11'' 1 (FnPush C_N), opc 92 ''OP_12'' 1 (FnPush C_N), opc 93 ''OP_13'' 1 (FnPush C_N),
    opc 94 ''OP_14'' 1 (FnPush C_N), opc 95 ''OP_15'' 1 (FnPush C_N), opc 96 ''OP_16'' 1 (FnPush C_N)]"
definition opcodeArray_named :: "opcode list" where
  "opcodeArray_named = [
    opc 97 ''OP_NOP'' 1 (FnControl C_Nop), opc 98 ''OP_VER'' 1 FnReserved, opc 99 ''OP_IF'' 1 (FnControl C_If),
    opc 100 ''OP_NOTIF'' 1 (FnControl C_NotIf), opc 101 ''OP_VERIF'' 1 FnReserved,
    opc 102 ''OP_VERNOTIF'' 1 FnReserved, opc 103 ''OP_ELSE'' 1 (FnControl C_Else),
    opc 104 ''OP_ENDIF'' 1 (FnControl C_Endif), opc 105 ''OP_VERIFY'' 1 (FnControl C_Verify),
    opc 106 ''OP_RETURN'' 1 (FnControl C_Return), opc 107 ''OP_TOALTSTACK'' 1 (FnStack C_ToAltStack),
    opc 108 ''OP_FROMALTSTACK'' 1 (FnStack C_FromAltStack), opc 109 ''OP_2DROP'' 1 (FnStack C_2Drop),
    opc 110 ''OP_2DUP'' 1 (FnStack C_2Dup), opc 111 ''OP_3DUP'' 1 (FnStack C_3Dup), opc 112 ''OP_2OVER'' 1 (FnStack C_2Over),
    opc 113 ''OP_2ROT'' 1 (FnStack C_2Rot), opc 114 ''OP_2SWAP'' 1 (FnStack C_2Swap), opc 115 ''OP_IFDUP'' 1 (FnStack C_IfDup),
    opc 116 ''OP_DEPTH'' 1 (FnStack C_Depth), opc 117 ''OP_DROP'' 1 (FnStack C_Drop), opc 118 ''OP_DUP'' 1 (FnStack C_Dup),
    opc 119 ''OP_NIP'' 1 (FnStack C_Nip), opc 120 ''OP_OVER'' 1 (FnStack C_Over), opc 121 ''OP_PICK'' 1 (FnStack C_Pick),
    opc 122 ''OP_ROLL'' 1 (FnStack C_Roll), opc 123 ''OP_ROT'' 1 (FnStack C_Rot), opc 124 ''OP_SWAP'' 1 (FnStack C_Swap),
    opc 125 ''OP_TUCK'' 1 (FnStack C_Tuck), opc 126 ''OP_CAT'' 1 FnDisabled,
    opc 127 ''OP_SUBSTR'' 1 FnDisabled, opc 128 ''OP_LEFT'' 1 FnDisabled,
    opc 129 ''OP_RIGHT'' 1 FnDisabled, opc 130 ''OP_SIZE'' 1 (FnSplice C_Size),
    opc 131 ''OP_INVERT'' 1 FnDisabled, opc 132 ''OP_AND'' 1 FnDisabled,
    opc 133 ''OP_OR'' 1 FnDisabled, opc 134 ''OP_XOR'' 1 FnDisabled,
    opc 135 ''OP_EQUAL'' 1 (FnSplice C_Equal), opc 136 ''OP_EQUALVERIFY'' 1 (FnSplice C_EqualVerify),
    opc 137 ''OP_RESERVED1'' 1 FnReserved, opc 138 ''OP_RESERVED2'' 1 FnReserved,
    opc 139 ''OP_1ADD'' 1 (FnNum C_1Add), opc 140 ''OP_1SUB'' 1 (FnNum C_1Sub), opc 141 ''OP_2MUL'' 1 FnDisabled,
    opc 142 ''OP_2DIV'' 1 FnDisabled, opc 143 ''OP_NEGATE'' 1 (FnNum C_Negate), opc 144 ''OP_ABS'' 1 (FnNum C_Abs),
    opc 145 ''OP_NOT'' 1 (FnNum C_Not), opc 146 ''OP_0NOTEQUAL'' 1 (FnNum C_0NotEqual), opc 147 ''OP_ADD'' 1 (FnNum C_Add),
    opc 148 ''OP_SUB'' 1 (FnNum C_Sub), opc 149 ''OP_MUL'' 1 FnDisabled, opc 150 ''OP_DIV'' 1 FnDisabled,
    opc 151 ''OP_MOD'' 1 FnDisabled, opc 152 ''OP_LSHIFT'' 1 FnDisabled,
    opc 153 ''OP_RSHIFT'' 1 FnDisabled, opc 154 ''OP_BOOLAND'' 1 (FnNum C_BoolAnd),
    opc 155 ''OP_BOOLOR'' 1 (FnNum C_BoolOr), opc 156 ''OP_NUMEQUAL'' 1 (FnNum C_NumEqual),
    opc 157 ''OP_NUMEQUALVERIFY'' 1 (FnNum C_NumEqualVerify), opc 158 ''OP_NUMNOTEQUAL'' 1 (FnNum C_NumNotEqual),
    opc 159 ''OP_LESSTHAN'' 1 (FnNum C_LessThan), opc 160 ''OP_GREATERTHAN'' 1 (FnNum C_GreaterThan),
    opc 161 ''OP_LESSTHANOREQUAL'' 1 (FnNum C_LessThanOrEqual),
    opc 162 ''OP_GREATERTHANOREQUAL'' 1 (FnNum C_GreaterThanOrEqual), opc 163 ''OP_MIN'' 1 (FnNum C_Min),
    opc 164 ''OP_MAX'' 1 (FnNum C_Max), opc 165 ''OP_WITHIN'' 1 (FnNum C_Within),
    opc 166 ''OP_UNKNOWN166'' 1 FnInvalid, opc 167 ''OP_UNKNOWN167'' 1 FnInvalid,
    opc 168 ''OP_SHA256'' 1 (FnCrypto C_Sha256), opc 169 ''OP_CHECKMULTISIGECDSA'' 1 (FnCrypto C_CheckMultiSigECDSA),
    opc 170 ''OP_BLAKE2B'' 1 (FnCrypto C_Blake2b), opc 171 ''OP_CHECKSIGECDSA'' 1 (FnCrypto C_CheckSigECDSA),
    opc 172 ''OP_CHECKSIG'' 1 (FnCrypto C_CheckSig), opc 173 ''OP_CHECKSIGVERIFY'' 1 (FnCrypto C_CheckSigVerify),
    opc 174 ''OP_CHECKMULTISIG'' 1 (FnCrypto C_CheckMultiSig),
    opc 175 ''OP_CHECKMULTISIGVERIFY'' 1 (FnCrypto C_CheckMultiSigVerify),
    opc 176 ''OP_CHECKLOCKTIMEVERIFY'' 1 (FnControl C_CheckLockTimeVerify),
    opc 177 ''OP_CHECKSEQUENCEVERIFY'' 1 (FnControl C_CheckSequenceVerify)]"
definition opcodeArray_undefined :: "opcode list" where
  "opcodeArray_undefined = [
    opc 188 ''OP_UNKNOWN178'' 1 FnInvalid, opc 189 ''OP_UNKNOWN179'' 1 FnInvalid,
    opc 190 ''OP_UNKNOWN180'' 1 FnInvalid, opc 191 ''OP_UNKNOWN181'' 1 FnInvalid,
    opc 192 ''OP_UNKNOWN182'' 1 FnInvalid, opc 193 ''OP_UNKNOWN183'' 1 FnInvalid,
    opc 194 ''OP_UNKNOWN184'' 1 FnInvalid, opc 195 ''OP_UNKNOWN185'' 1 FnInvalid,
    opc 196 ''OP_UNKNOWN186'' 1 FnInvalid, opc 197 ''OP_UNKNOWN187'' 1 FnInvalid,
    opc 188 ''OP_UNKNOWN188'' 1 FnInvalid, opc 189 ''OP_UNKNOWN189'' 1 FnInvalid,
    opc 190 ''OP_UNKNOWN190'' 1 FnInvalid, opc 191 ''OP_UNKNOWN191'' 1 FnInvalid,
    opc 192 ''OP_UNKNOWN192'' 1 FnInvalid, opc 193 ''OP_UNKNOWN193'' 1 FnInvalid,
    opc 194 ''OP_UNKNOWN194'' 1 FnInvalid, opc 195 ''OP_UNKNOWN195'' 1 FnInvalid,
    opc 196 ''OP_UNKNOWN196'' 1 FnInvalid, opc 197 ''OP_UNKNOWN197'' 1 FnInvalid,
    opc 198 ''OP_UNKNOWN198'' 1 FnInvalid, opc 199 ''OP_UNKNOWN199'' 1 FnInvalid,
    opc 200 ''OP_UNKNOWN200'' 1 FnInvalid, opc 201 ''OP_UNKNOWN201'' 1 FnInvalid,
    opc 202 ''OP_UNKNOWN202'' 1 FnInvalid, opc 203 ''OP_UNKNOWN203'' 1 FnInvalid,
    opc 204 ''OP_UNKNOWN204'' 1 FnInvalid, opc 205 ''OP_UNKNOWN205'' 1 FnInvalid,
    opc 206 ''OP_UNKNOWN206'' 1 FnInvalid, opc 207 ''OP_UNKNOWN207'' 1 FnInvalid,
    opc 208 ''OP_UNKNOWN208'' 1 FnInvalid, opc 209 ''OP_UNKNOWN209'' 1 FnInvalid,
    opc 210 ''OP_UNKNOWN210'' 1 FnInvalid, opc 211 ''OP_UNKNOWN211'' 1 FnInvalid,
    opc 212 ''OP_UNKNOWN212'' 1 FnInvalid, opc 213 ''OP_UNKNOWN213'' 1 FnInvalid,
    opc 214 ''OP_UNKNOWN214'' 1 FnInvalid, opc 215 ''OP_UNKNOWN215'' 1 FnInvalid,
    opc 216 ''OP_UNKNOWN216'' 1 FnInvalid, opc 217 ''OP_UNKNOWN217'' 1 FnInvalid,
    opc 218 ''OP_UNKNOWN218'' 1 FnInvalid, opc 219 ''OP_UNKNOWN219'' 1 FnInvalid,
    opc 220 ''OP_UNKNOWN220'' 1 FnInvalid, opc 221 ''OP_UNKNOWN221'' 1 FnInvalid,
    opc 222 ''OP_UNKNOWN222'' 1 FnInvalid, opc 223 ''OP_UNKNOWN223'' 1 FnInvalid,
    opc 224 ''OP_UNKNOWN224'' 1 FnInvalid, opc 225 ''OP_UNKNOWN225'' 1 FnInvalid,
    opc 226 ''OP_UNKNOWN226'' 1 FnInvalid, opc 227 ''OP_UNKNOWN227'' 1 FnInvalid,
    opc 228 ''OP_UNKNOWN228'' 1 FnInvalid, opc 229 ''OP_UNKNOWN229'' 1 FnInvalid,
    opc 230 ''OP_UNKNOWN230'' 1 FnInvalid, opc 231 ''OP_UNKNOWN231'' 1 FnInvalid,
    opc 232 ''OP_UNKNOWN232'' 1 FnInvalid, opc 233 ''OP_UNKNOWN233'' 1 FnInvalid,
    opc 234 ''OP_UNKNOWN234'' 1 FnInvalid, opc 235 ''OP_UNKNOWN235'' 1 FnInvalid,
    opc 236 ''OP_UNKNOWN236'' 1 FnInvalid, opc 237 ''OP_UNKNOWN237'' 1 FnInvalid,
    opc 238 ''OP_UNKNOWN238'' 1 FnInvalid, opc 239 ''OP_UNKNOWN239'' 1 FnInvalid,
    opc 240 ''OP_UNKNOWN240'' 1 FnInvalid, opc 241 ''OP_UNKNOWN241'' 1 FnInvalid,
    opc 242 ''OP_UNKNOWN242'' 1 FnInvalid, opc 243 ''OP_UNKNOWN243'' 1 FnInvalid,
    opc 244 ''OP_UNKNOWN244'' 1 FnInvalid, opc 245 ''OP_UNKNOWN245'' 1 FnInvalid,
    opc 246 ''OP_UNKNOWN246'' 1 FnInvalid, opc 247 ''OP_UNKNOWN247'' 1 FnInvalid,
    opc 248 ''OP_UNKNOWN248'' 1 FnInvalid, opc 249 ''OP_UNKNOWN249'' 1 FnInvalid,
    opc 250 ''OP_SMALLINTEGER'' 1 FnInvalid, opc 251 ''OP_PUBKEYS'' 1 FnInvalid,
    opc 252 ''OP_UNKNOWN252'' 1 FnInvalid, opc 253 ''OP_PUBKEYHASH'' 1 FnInvalid,
    opc 254 ''OP_PUBKEY'' 1 FnInvalid, opc 255 ''OP_INVALIDOPCODE'' 1 FnInvalid]"

definition opcodeArray :: "opcode list" where
  "opcodeArray = opcodeArray_push @ opcodeArray_named @ opcodeArray_undefined"

record parsedOpcode =
  popOpcode :: opcode
  popData :: bytes

definition isDisabled :: "parsedOpcode \<Rightarrow> bool" where
  "isDisabled pop \<longleftrightarrow> opValue (popOpcode pop) \<in>
     {OpCat, OpSubStr, OpLeft, OpRight, OpInvert, OpAnd, OpOr, OpXor, Op2Mul, Op2Div, OpMul, OpDiv,
      OpMod, OpLShift, OpRShift}"

definition alwaysIllegal :: "parsedOpcode \<Rightarrow> bool" where
  "alwaysIllegal pop \<longleftrightarrow> opValue (popOpcode pop) = OpVerIf \<or> opValue (popOpcode pop) = OpVerNotIf"

definition isConditional :: "parsedOpcode \<Rightarrow> bool" where
  "isConditional pop \<longleftrightarrow> opValue (popOpcode pop) \<in> {OpIf, OpNotIf, OpElse, OpEndIf}"

definition checkMinimalDataPush :: "parsedOpcode \<Rightarrow> script_failure + unit" where
  "checkMinimalDataPush pop =
     (let data = popData pop;
          dataLen = length data;
          opcode = opValue (popOpcode pop)
      in if dataLen = 0 \<and> opcode \<noteq> Op0 then Inl (ScriptError ErrMinimalData)
         else if dataLen = 1 \<and> data ! 0 \<ge> 1 \<and> data ! 0 \<le> 16 then
           guard (opcode = Op1 + data ! 0 - 1) (ScriptError ErrMinimalData)
         else if dataLen = 1 \<and> data ! 0 = 0x81 then
           guard (opcode = Op1Negate) (ScriptError ErrMinimalData)
         else if dataLen \<le> 75 then guard (unat opcode = dataLen) (ScriptError ErrMinimalData)
         else if dataLen \<le> 255 then guard (opcode = OpPushData1) (ScriptError ErrMinimalData)
         else if dataLen \<le> 65535 then guard (opcode = OpPushData2) (ScriptError ErrMinimalData)
         else Inr ())"

text \<open>The method \<open>bytes\<close> of a parsed opcode.\<close>

definition popBytes :: "parsedOpcode \<Rightarrow> script_failure + bytes" where
  "popBytes pop =
     (let op = popOpcode pop;
          data = popData pop;
          l = length data
      in if opLength op = 1 then
           (if l \<noteq> 0 then Inl (ScriptError ErrInternal) else Inr [opValue op])
         else
           let (retbytes, nbytes) =
             (if opLength op = - 1 then
                (let r = [opValue op, word_of_nat l] in (r, int (unat (word_of_nat l :: byte)) + 2))
              else if opLength op = - 2 then
                (let r = [opValue op, word_of_nat (l AND 0xff), word_of_nat (drop_bit 8 l AND 0xff)]
                 in (r, int (le_val (tl r)) + 3))
              else if opLength op = - 4 then
                (let r = [opValue op, word_of_nat (l AND 0xff), word_of_nat (drop_bit 8 l AND 0xff),
                          word_of_nat (drop_bit 16 l AND 0xff), word_of_nat (drop_bit 24 l AND 0xff)]
                 in (r, int (le_val (tl r)) + 5))
              else ([opValue op], opLength op));
             retbytes = retbytes @ data
           in if int (length retbytes) \<noteq> nbytes then Inl (ScriptError ErrInternal) else Inr retbytes)"

section \<open>Parsing\<close>

definition checkedUintToInt :: "nat \<Rightarrow> nat option" where
  "checkedUintToInt value = (if value > 2 ^ 63 - 1 then None else Some value)"

definition isSmallInt :: "opcode \<Rightarrow> bool" where
  "isSmallInt op \<longleftrightarrow> opValue op = Op0 \<or> (opValue op \<ge> Op1 \<and> opValue op \<le> Op16)"

definition isScriptHash :: "parsedOpcode list \<Rightarrow> bool" where
  "isScriptHash pops \<longleftrightarrow> length pops = 3 \<and>
     opValue (popOpcode (pops ! 0)) = OpBlake2b \<and>
     opValue (popOpcode (pops ! 1)) = OpData32 \<and>
     opValue (popOpcode (pops ! 2)) = OpEqual"

definition isPushOnly :: "parsedOpcode list \<Rightarrow> bool" where
  "isPushOnly pops \<longleftrightarrow> list_all (\<lambda>pop. \<not> opValue (popOpcode pop) > Op16) pops"

text \<open>The little endian length after an \<open>OP_PUSHDATA\<close> opcode.\<close>

definition pushDataLength :: "int \<Rightarrow> bytes \<Rightarrow> nat option" where
  "pushDataLength len bs =
     (if len = - 1 then Some (unat (bs ! 0))
      else if len = - 2 then Some (push_bit 8 (unat (bs ! 1)) OR unat (bs ! 0))
      else if len = - 4 then
        Some (push_bit 24 (unat (bs ! 3)) OR push_bit 16 (unat (bs ! 2)) OR
              push_bit 8 (unat (bs ! 1)) OR unat (bs ! 0))
      else None)"

text \<open>The loop over the script; the argument is the part of the script from index \<open>i\<close> on.\<close>

partial_function (option) parseScriptTemplate ::
    "opcode list \<Rightarrow> bytes \<Rightarrow> parsedOpcode list \<Rightarrow> (parsedOpcode list \<times> script_failure option) option" where
  "parseScriptTemplate opcodes script retScript =
     (case script of
        [] \<Rightarrow> Some (retScript, None)
      | instr # off \<Rightarrow>
          let op = opcodes ! unat instr
          in if opLength op = 1 then
               parseScriptTemplate opcodes off (retScript @ [\<lparr>popOpcode = op, popData = []\<rparr>])
             else if opLength op > 1 then
               (if int (length script) < opLength op then Some (retScript, Some (ScriptError ErrMalformedPush))
                else parseScriptTemplate opcodes (drop (nat (opLength op)) script)
                       (retScript @ [\<lparr>popOpcode = op, popData = take (nat (opLength op) - 1) off\<rparr>]))
             else if opLength op < 0 then
               (if int (length off) < - opLength op then Some (retScript, Some (ScriptError ErrMalformedPush))
                else
                  (case pushDataLength (opLength op) off of
                     None \<Rightarrow> Some (retScript, Some (ScriptError ErrMalformedPush))
                   | Some l \<Rightarrow>
                       let rest = drop (nat (- opLength op)) off
                       in (case checkedUintToInt l of
                             None \<Rightarrow> Some (retScript, Some (ScriptError ErrMalformedPush))
                           | Some dataLen \<Rightarrow>
                               if dataLen > length rest
                               then Some (retScript, Some (ScriptError ErrMalformedPush))
                               else parseScriptTemplate opcodes (drop dataLen rest)
                                      (retScript @ [\<lparr>popOpcode = op, popData = take dataLen rest\<rparr>]))))
             else parseScriptTemplate opcodes script (retScript @ [\<lparr>popOpcode = op, popData = []\<rparr>]))"

declare parseScriptTemplate.simps [code]

text \<open>\<open>ParseScript\<close> on the opcode table. The case that the loop does not end never arises, which
  is proved in \<open>Script_Parse\<close>.\<close>

definition ParseScript :: "bytes \<Rightarrow> parsedOpcode list \<times> script_failure option" where
  "ParseScript script =
     (case parseScriptTemplate opcodeArray script [] of Some r \<Rightarrow> r | None \<Rightarrow> ([], Some OtherError))"

fun unparseScript :: "parsedOpcode list \<Rightarrow> script_failure + bytes" where
  "unparseScript [] = Inr []"
| "unparseScript (pop # pops) =
     rbind (popBytes pop) (\<lambda>b. rbind (unparseScript pops) (\<lambda>script. Inr (b @ script)))"

definition canonicalPush :: "parsedOpcode \<Rightarrow> bool" where
  "canonicalPush pop =
     (let opcode = opValue (popOpcode pop);
          data = popData pop;
          dataLen = length data
      in if opcode > Op16 then True
         else if opcode < OpPushData1 \<and> opcode > Op0 \<and> dataLen = 1 \<and> data ! 0 \<le> 16 then False
         else if opcode = OpPushData1 \<and> dataLen < unat OpPushData1 then False
         else if opcode = OpPushData2 \<and> dataLen \<le> 0xff then False
         else if opcode = OpPushData4 \<and> dataLen \<le> 0xffff then False
         else True)"

definition IsPayToScriptHash :: "bytes \<Rightarrow> bool" where
  "IsPayToScriptHash script =
     (case ParseScript script of (pops, Some _) \<Rightarrow> False | (pops, None) \<Rightarrow> isScriptHash pops)"

definition IsUnspendable :: "bytes \<Rightarrow> bool" where
  "IsUnspendable scriptPubKey =
     (case ParseScript scriptPubKey of
        (pops, Some _) \<Rightarrow> True
      | (pops, None) \<Rightarrow> length pops > 0 \<and> opValue (popOpcode (pops ! 0)) = OpReturn)"

section \<open>Counting signature operations\<close>

definition MaxOpsPerScript :: int where "MaxOpsPerScript = 201"
definition MaxPubKeysPerMultiSig :: int where "MaxPubKeysPerMultiSig = 20"
definition MaxScriptElementSize :: nat where "MaxScriptElementSize = 520"

definition asSmallInt :: "opcode \<Rightarrow> int" where
  "asSmallInt op = (if opValue op = Op0 then 0 else uint (opValue op - (Op1 - 1)))"

text \<open>The loop carries the opcode before the current one, if there is one.\<close>

fun sigOpLoop :: "bool \<Rightarrow> opcode option \<Rightarrow> parsedOpcode list \<Rightarrow> int \<Rightarrow> int" where
  "sigOpLoop precise prev [] nSigs = nSigs"
| "sigOpLoop precise prev (pop # rest) nSigs =
     (let v = opValue (popOpcode pop);
          nSigs =
            (if v \<in> {OpCheckSig, OpCheckSigVerify, OpCheckSigECDSA} then nSigs + 1
             else if v \<in> {OpCheckMultiSig, OpCheckMultiSigVerify, OpCheckMultiSigECDSA} then
               (case prev of
                  Some op \<Rightarrow>
                    if precise \<and> opValue op \<ge> Op1 \<and> opValue op \<le> Op16 then nSigs + asSmallInt op
                    else nSigs + MaxPubKeysPerMultiSig
                | None \<Rightarrow> nSigs + MaxPubKeysPerMultiSig)
             else nSigs)
      in sigOpLoop precise (Some (popOpcode pop)) rest nSigs)"

definition getSigOpCount :: "parsedOpcode list \<Rightarrow> bool \<Rightarrow> int" where
  "getSigOpCount pops precise = sigOpLoop precise None pops 0"

definition GetSigOpCount :: "bytes \<Rightarrow> int" where
  "GetSigOpCount script = getSigOpCount (fst (ParseScript script)) False"

definition GetPreciseSigOpCountFromParsedScript :: "bytes \<Rightarrow> parsedOpcode list \<Rightarrow> int" where
  "GetPreciseSigOpCountFromParsedScript scriptSig pops =
     (if \<not> isScriptHash pops then getSigOpCount pops True
      else (case ParseScript scriptSig of
              (_, Some _) \<Rightarrow> 0
            | (sigPops, None) \<Rightarrow>
                if \<not> isPushOnly sigPops \<or> length sigPops = 0 then 0
                else let shScript = popData (last sigPops)
                     in if length shScript = 0 then 0
                        else getSigOpCount (fst (ParseScript shScript)) True))"

definition GetPreciseSigOpCount :: "bytes \<Rightarrow> bytes \<Rightarrow> int" where
  "GetPreciseSigOpCount scriptSig scriptPubKey =
     GetPreciseSigOpCountFromParsedScript scriptSig (fst (ParseScript scriptPubKey))"

section \<open>The opcode table\<close>

lemma length_opcodeArray [simp]: "length opcodeArray = 256"
  by (simp add: opcodeArray_def opcodeArray_push_def opcodeArray_named_def opcodeArray_undefined_def)

lemmas opcodeArray_defs = opcodeArray_push_def opcodeArray_named_def opcodeArray_undefined_def opc_def

lemma opcodeArray_values:
  "map (\<lambda>op. unat (opValue op)) opcodeArray = [0..<178] @ [188..<198] @ [188..<256]"
proof -
  have "map (\<lambda>op. unat (opValue op)) opcodeArray_push = [0..<97]"
    "map (\<lambda>op. unat (opValue op)) opcodeArray_named = [97..<178]"
    "map (\<lambda>op. unat (opValue op)) opcodeArray_undefined = [188..<198] @ [188..<256]"
    by (simp_all add: opcodeArray_defs upt_conv_Cons)
  moreover have "[0..<178] = [0..<97] @ [97..<178]"
    using upt_add_eq_append [of 0 97 81] by simp
  ultimately show ?thesis
    by (simp add: opcodeArray_def)
qed

lemma opcodeArray_lengths:
  "map opLength opcodeArray = 1 # map (\<lambda>i. int i + 1) [1..<76] @ [- 1, - 2, - 4] @ replicate 177 1"
proof -
  have "map opLength opcodeArray_push = 1 # map (\<lambda>i. int i + 1) [1..<76] @ [- 1, - 2, - 4] @ replicate 18 1"
    "map opLength opcodeArray_named = replicate 81 1"
    "map opLength opcodeArray_undefined = replicate 78 1"
    by (simp_all add: opcodeArray_defs upt_rec_numeral eval_nat_numeral)
  moreover have "replicate 177 (1 :: int) = replicate 18 1 @ replicate 81 1 @ replicate 78 1"
    by (simp flip: replicate_add)
  ultimately show ?thesis
    by (simp add: opcodeArray_def)
qed

lemma opcodeArray_value:
  "i < 256 \<Longrightarrow> unat (opValue (opcodeArray ! i)) = (if 178 \<le> i \<and> i < 188 then i + 10 else i)"
proof -
  assume i: "i < 256"
  have "unat (opValue (opcodeArray ! i)) = map (\<lambda>op. unat (opValue op)) opcodeArray ! i"
    using i by simp
  also have "\<dots> = (if 178 \<le> i \<and> i < 188 then i + 10 else i)"
    unfolding opcodeArray_values using i by (auto simp: nth_append simp del: upt_rec_numeral)
  finally show ?thesis .
qed

lemma opcodeArray_length:
  "i < 256 \<Longrightarrow> opLength (opcodeArray ! i) =
     (if 1 \<le> i \<and> i \<le> 75 then int i + 1 else if i = 76 then - 1 else if i = 77 then - 2
      else if i = 78 then - 4 else 1)"
proof -
  assume i: "i < 256"
  have "opLength (opcodeArray ! i) = map opLength opcodeArray ! i"
    using i by simp
  also have "\<dots> = (if 1 \<le> i \<and> i \<le> 75 then int i + 1 else if i = 76 then - 1 else if i = 77 then - 2
      else if i = 78 then - 4 else 1)"
  proof -
    consider "i = 0" | "1 \<le> i" "i \<le> 75" | "i = 76" | "i = 77" | "i = 78" | "79 \<le> i" by linarith
    then show ?thesis
      unfolding opcodeArray_lengths using i by cases (auto simp: nth_append nth_Cons' simp del: upt_rec_numeral)
  qed
  finally show ?thesis .
qed

end
