(* ===== verification/Script_Parse.thy ===== *)
theory Script_Parse
  imports Script_Opcodes
begin

text \<open>
  Correctness of script parsing (script.go): the parser ends on every script, it consumes the
  script opcode by opcode, and printing the parsed opcodes gives the script back, with the
  exception of the ten bytes whose table entries carry the value of another opcode.
\<close>

section \<open>One opcode\<close>

definition parseOne :: "bytes \<Rightarrow> (parsedOpcode \<times> bytes) option" where
  "parseOne script =
     (case script of
        [] \<Rightarrow> None
      | instr # off \<Rightarrow>
          let op = opcodeArray ! unat instr; i = unat instr
          in if 1 \<le> i \<and> i \<le> 75 then
               (if length off < i then None
                else Some (\<lparr>popOpcode = op, popData = take i off\<rparr>, drop i off))
             else if 76 \<le> i \<and> i \<le> 78 then
               (let k = 2 ^ (i - 76)
                in if length off < k then None
                   else let l = le_val (take k off); rest = drop k off
                        in if length rest < l then None
                           else Some (\<lparr>popOpcode = op, popData = take l rest\<rparr>, drop l rest))
             else Some (\<lparr>popOpcode = op, popData = []\<rparr>, off))"

lemma parseOne_length: "parseOne script = Some (pop, rest) \<Longrightarrow> length rest < length script"
  by (auto simp: parseOne_def Let_def split: list.splits if_splits)

lemma nat_or_shifted: "(a :: nat) < 2 ^ k \<Longrightarrow> push_bit k b OR a = a + 2 ^ k * b"
proof -
  assume a: "a < 2 ^ k"
  have "\<not> bit a n \<or> \<not> bit (push_bit k b) n" for n
  proof (cases "n < k")
    case False
    have "take_bit k a = a" using a by (simp add: take_bit_nat_eq_self)
    then show ?thesis using False by (metis bit_take_bit_iff)
  qed (simp add: bit_push_bit_iff_nat)
  then show ?thesis
    using disjunctive_add [of a "push_bit k b"] by (simp add: or.commute push_bit_eq_mult mult.commute)
qed

lemma le_val_take:
  assumes "length off \<ge> k"
  shows "k = 1 \<Longrightarrow> le_val (take k off) = unat (off ! 0)"
    and "k = 2 \<Longrightarrow> le_val (take k off) = unat (off ! 0) + 256 * unat (off ! 1)"
    and "k = 4 \<Longrightarrow> le_val (take k off) =
           unat (off ! 0) + 256 * unat (off ! 1) + 65536 * unat (off ! 2) + 16777216 * unat (off ! 3)"
proof -
  have *: "take n off = map (\<lambda>i. off ! i) [0..<n]" if "n \<le> length off" for n
    using that by (intro nth_equalityI) auto
  show "k = 1 \<Longrightarrow> le_val (take k off) = unat (off ! 0)"
    using * [of 1] assms by simp
  show "k = 2 \<Longrightarrow> le_val (take k off) = unat (off ! 0) + 256 * unat (off ! 1)"
    using * [of 2] assms by (simp add: upt_conv_Cons)
  show "k = 4 \<Longrightarrow> le_val (take k off) =
      unat (off ! 0) + 256 * unat (off ! 1) + 65536 * unat (off ! 2) + 16777216 * unat (off ! 3)"
    using * [of 4] assms by (simp add: upt_conv_Cons numeral_2_eq_2 numeral_3_eq_3)
qed

lemma pushDataLength_le_val:
  assumes "i \<in> {76, 77, 78}" and "k = 2 ^ (i - 76)" and "length off \<ge> k"
  shows "pushDataLength (opLength (opcodeArray ! i)) off = Some (le_val (take k off))"
proof -
  have b: "unat (off ! j) < 256" for j by (rule unat_byte_less)
  have two: "push_bit 8 (unat (off ! 1)) OR unat (off ! 0) = unat (off ! 0) + 256 * unat (off ! 1)"
    using nat_or_shifted [of "unat (off ! 0)" 8 "unat (off ! 1)"] b by simp
  have "push_bit 24 (unat (off ! 3)) OR push_bit 16 (unat (off ! 2)) OR
      push_bit 8 (unat (off ! 1)) OR unat (off ! 0) =
      unat (off ! 0) + 256 * unat (off ! 1) + 65536 * unat (off ! 2) + 16777216 * unat (off ! 3)"
    using nat_or_shifted [of "unat (off ! 0) + 256 * unat (off ! 1)" 16 "unat (off ! 2)"]
      nat_or_shifted [of "unat (off ! 0) + 256 * unat (off ! 1) + 65536 * unat (off ! 2)" 24 "unat (off ! 3)"]
      b [of 0] b [of 1] b [of 2] by (simp add: two del: One_nat_def)
  then show ?thesis
    using assms two le_val_take [OF assms(3)] by (auto simp: pushDataLength_def opcodeArray_length)
qed


text \<open>The loop of \<open>parseScriptTemplate\<close> on the opcode table, one opcode at a time.\<close>

lemma le_val_take_small: "k \<le> 4 \<Longrightarrow> checkedUintToInt (le_val (take k off)) = Some (le_val (take k off))"
proof -
  assume "k \<le> 4"
  have "le_val (take k off) < 256 ^ length (take k off)"
    by (rule le_val_less)
  also have "\<dots> \<le> 256 ^ 4"
    using \<open>k \<le> 4\<close> by (intro power_increasing) auto
  finally show ?thesis
    by (simp add: checkedUintToInt_def)
qed

lemma parseScriptTemplate_step:
  "parseScriptTemplate opcodeArray script acc =
     (if script = [] then Some (acc, None)
      else (case parseOne script of
              None \<Rightarrow> Some (acc, Some (ScriptError ErrMalformedPush))
            | Some (pop, rest) \<Rightarrow> parseScriptTemplate opcodeArray rest (acc @ [pop])))"
proof (cases script)
  case Nil
  then show ?thesis by (subst parseScriptTemplate.simps) simp
next
  case (Cons instr off)
  define i where "i = unat instr"
  have i: "i < 256" unfolding i_def by (rule unat_byte_less)
  consider "1 \<le> i" "i \<le> 75" | "i \<in> {76, 77, 78}" | "i = 0 \<or> 79 \<le> i" by fastforce
  then show ?thesis
  proof cases
    case 1
    then have "opLength (opcodeArray ! i) = int i + 1"
      using i by (simp add: opcodeArray_length)
    then show ?thesis
      using 1 Cons by (subst parseScriptTemplate.simps)
        (auto simp: parseOne_def Let_def i_def [symmetric] nat_add_distrib)
  next
    case 2
    define k where "k = (2 :: nat) ^ (i - 76)"
    have len: "opLength (opcodeArray ! i) = - int k" and k: "k \<le> 4" "0 < k"
      using 2 by (auto simp: opcodeArray_length k_def)
    have "length off \<ge> k \<Longrightarrow> pushDataLength (- int k) off = Some (le_val (take k off))"
      using pushDataLength_le_val [OF 2 k_def] len by simp
    then show ?thesis
      using 2 k Cons len by (subst parseScriptTemplate.simps)
        (auto simp: parseOne_def Let_def i_def [symmetric] k_def [symmetric] le_val_take_small not_less)
  next
    case 3
    then have "opLength (opcodeArray ! i) = 1"
      using i by (auto simp: opcodeArray_length)
    then show ?thesis
      using 3 Cons by (subst parseScriptTemplate.simps) (auto simp: parseOne_def Let_def i_def [symmetric])
  qed
qed

text \<open>The parse of a whole script as a total function.\<close>

function parseAll :: "bytes \<Rightarrow> parsedOpcode list \<times> script_failure option" where
  "parseAll script =
     (if script = [] then ([], None)
      else (case parseOne script of
              None \<Rightarrow> ([], Some (ScriptError ErrMalformedPush))
            | Some (pop, rest) \<Rightarrow> (let (pops, err) = parseAll rest in (pop # pops, err))))"
  by auto
termination
  by (relation "measure length") (auto dest: parseOne_length)

declare parseAll.simps [simp del]

lemma parseScriptTemplate_total:
  "parseScriptTemplate opcodeArray script acc = Some (acc @ fst (parseAll script), snd (parseAll script))"
proof (induction script arbitrary: acc rule: parseAll.induct)
  case (1 script)
  show ?case
    using 1 by (subst parseScriptTemplate_step, subst (1 2) parseAll.simps)
      (auto split: option.splits prod.splits)
qed

lemma ParseScript_parseAll: "ParseScript script = parseAll script"
  by (simp add: ParseScript_def parseScriptTemplate_total)

lemma ParseScript_Nil [simp]: "ParseScript [] = ([], None)"
  by (simp add: ParseScript_parseAll parseAll.simps)

lemma ParseScript_step:
  "script \<noteq> [] \<Longrightarrow> ParseScript script =
     (case parseOne script of
        None \<Rightarrow> ([], Some (ScriptError ErrMalformedPush))
      | Some (pop, rest) \<Rightarrow> (let (pops, err) = ParseScript rest in (pop # pops, err)))"
  unfolding ParseScript_parseAll by (subst parseAll.simps) simp

lemma ParseScript_induct [case_names Nil Malformed Step]:
  assumes "P []"
    and "\<And>script. script \<noteq> [] \<Longrightarrow> parseOne script = None \<Longrightarrow> P script"
    and "\<And>script pop rest. script \<noteq> [] \<Longrightarrow> parseOne script = Some (pop, rest) \<Longrightarrow> P rest \<Longrightarrow> P script"
  shows "P script"
proof (induction script rule: parseAll.induct)
  case (1 script)
  then show ?case
    using assms by (cases "script = []"; cases "parseOne script") auto
qed

section \<open>Parsing and printing\<close>

lemma nat_and_255: "(n :: nat) AND 0xff = n mod 256"
  using take_bit_eq_mask [of 8 n] by (simp add: take_bit_eq_mod mask_eq_exp_minus_1)

lemma le_bytes_unfold:
  "le_bytes 2 l = [word_of_nat (l AND 0xff), word_of_nat (drop_bit 8 l AND 0xff)]"
  "le_bytes 4 l = [word_of_nat (l AND 0xff), word_of_nat (drop_bit 8 l AND 0xff),
                   word_of_nat (drop_bit 16 l AND 0xff), word_of_nat (drop_bit 24 l AND 0xff)]"
proof -
  have "(2 :: nat) = Suc (Suc 0)" "(4 :: nat) = Suc (Suc (Suc (Suc 0)))" by simp_all
  then have e: "le_bytes 2 l = le_bytes (Suc (Suc 0)) l" "le_bytes 4 l = le_bytes (Suc (Suc (Suc (Suc 0)))) l"
    by (simp_all only:)
  show
    "le_bytes 2 l = [word_of_nat (l AND 0xff), word_of_nat (drop_bit 8 l AND 0xff)]"
    "le_bytes 4 l = [word_of_nat (l AND 0xff), word_of_nat (drop_bit 8 l AND 0xff),
                   word_of_nat (drop_bit 16 l AND 0xff), word_of_nat (drop_bit 24 l AND 0xff)]"
    unfolding e by (simp_all add: nat_and_255 drop_bit_eq_div div_mult2_eq [symmetric])
qed

lemma popBytes_pushdata:
  assumes "opLength op = - int k" and "k \<in> {1, 2, 4}" and "length d = le_val bs" and "length bs = k"
  shows "popBytes \<lparr>popOpcode = op, popData = d\<rparr> = Inr (opValue op # bs @ d)"
proof -
  have bs: "le_bytes k (length d) = bs"
    using le_bytes_le_val [of bs] assms by simp
  have l: "length d < 256 ^ k"
    using le_val_less [of bs] assms by simp
  have one: "k = 1 \<Longrightarrow> word_of_nat (length d) = bs ! 0 \<and> bs = [bs ! 0] \<and> unat (bs ! 0) = length d"
    using bs l assms(3,4) by (cases bs) auto
  show ?thesis
    using assms(1,2,4) bs one le_bytes_unfold [of "length d"] le_val_le_bytes [of 2 "length d"]
      le_val_le_bytes [of 4 "length d"] l
    by (auto simp: popBytes_def Let_def)
qed

lemma parseOne_plain:
  "i = unat instr \<Longrightarrow> i = 0 \<or> 79 \<le> i \<Longrightarrow> parseOne (instr # off) = Some (\<lparr>popOpcode = opcodeArray ! i, popData = []\<rparr>, off)"
  by (auto simp: parseOne_def Let_def)

lemma parseOne_direct:
  "i = unat instr \<Longrightarrow> 1 \<le> i \<Longrightarrow> i \<le> 75 \<Longrightarrow> parseOne (instr # off) =
     (if length off < i then None else Some (\<lparr>popOpcode = opcodeArray ! i, popData = take i off\<rparr>, drop i off))"
  by (simp add: parseOne_def Let_def)

lemma parseOne_pushdata:
  "i = unat instr \<Longrightarrow> i \<in> {76, 77, 78} \<Longrightarrow> k = 2 ^ (i - 76) \<Longrightarrow> l = le_val (take k off) \<Longrightarrow> parseOne (instr # off) =
     (if length off < k + l then None
      else Some (\<lparr>popOpcode = opcodeArray ! i, popData = take l (drop k off)\<rparr>, drop l (drop k off)))"
proof -
  assume "i = unat instr" "i \<in> {76, 77, 78}" and k: "k = 2 ^ (i - 76)" and l: "l = le_val (take k off)"
  then have "\<not> unat instr \<le> 75" "76 \<le> unat instr" "unat instr \<le> 78" "2 ^ (unat instr - 76) = k"
    "opcodeArray ! unat instr = opcodeArray ! i"
    by auto
  then show ?thesis
    unfolding l by (simp add: parseOne_def Let_def less_diff_conv2)
qed

lemma popBytes_parseOne:
  assumes "parseOne script = Some (pop, rest)"
    and "\<not> (188 \<le> unat (opValue (popOpcode pop)) \<and> unat (opValue (popOpcode pop)) < 198)"
  shows "\<exists>b. popBytes pop = Inr b \<and> script = b @ rest"
proof -
  obtain instr off where script: "script = instr # off"
    using assms(1) by (cases script) (simp_all add: parseOne_def)
  define i where "i = unat instr"
  have i: "i < 256" unfolding i_def by (rule unat_byte_less)
  let ?op = "opcodeArray ! i"
  have op: "popOpcode pop = ?op"
    using assms(1) unfolding script parseOne_def Let_def i_def [symmetric]
    by (simp split: if_split_asm) (auto simp: i_def)
  then have "\<not> (178 \<le> i \<and> i < 188)"
    using assms(2) i opcodeArray_value [OF i] by auto
  then have val: "opValue ?op = instr"
    using opcodeArray_value [OF i] by (intro unsigned_word_eqI [where 'a = nat]) (auto simp: i_def)
  consider "1 \<le> i" "i \<le> 75" | "i \<in> {76, 77, 78}" | "i = 0 \<or> 79 \<le> i" by fastforce
  then show ?thesis
  proof cases
    case 1
    then have "opLength ?op = int i + 1" using i by (simp add: opcodeArray_length)
    then show ?thesis
      using 1 assms(1) val
      by (auto simp: script parseOne_direct [OF i_def 1] popBytes_def split: if_split_asm)
  next
    case 2
    define k where "k = (2 :: nat) ^ (i - 76)"
    define l where "l = le_val (take k off)"
    have len: "opLength ?op = - int k" and k: "k \<in> {1, 2, 4}"
      using 2 by (auto simp: opcodeArray_length k_def)
    have p: "k + l \<le> length off" "pop = \<lparr>popOpcode = ?op, popData = take l (drop k off)\<rparr>" "rest = drop l (drop k off)"
      using assms(1) by (simp_all add: script parseOne_pushdata [OF i_def 2 k_def l_def] split: if_split_asm)
    have "popBytes pop = Inr (opValue ?op # take k off @ take l (drop k off))"
      unfolding p(2) using p(1) by (intro popBytes_pushdata [OF len k]) (auto simp: l_def)
    then show ?thesis
      unfolding val script p(3) by (metis append_Cons append_assoc append_take_drop_id)
  next
    case 3
    then have "opLength ?op = 1" using i by (auto simp: opcodeArray_length)
    then show ?thesis
      using assms(1) val by (auto simp: script parseOne_plain [OF i_def 3] popBytes_def)
  qed
qed

lemma unparse_ParseScript:
  "ParseScript script = (pops, None) \<Longrightarrow>
   list_all (\<lambda>pop. \<not> (188 \<le> unat (opValue (popOpcode pop)) \<and> unat (opValue (popOpcode pop)) < 198)) pops \<Longrightarrow>
   unparseScript pops = Inr script"
proof (induction script arbitrary: pops rule: ParseScript_induct)
  case (Step script pop rest)
  obtain pops' where pops: "pops = pop # pops'" "ParseScript rest = (pops', None)"
    using Step.hyps Step.prems(1) by (auto simp: ParseScript_step split: prod.splits)
  obtain b where "popBytes pop = Inr b" "script = b @ rest"
    using popBytes_parseOne [OF Step.hyps(2)] Step.prems(2) pops(1) by auto
  then show ?case
    using Step.IH [OF pops(2)] Step.prems(2) pops(1) by simp
qed (simp_all add: ParseScript_step)

text \<open>Parsing is compositional: after a part that parses without error the rest is parsed as if it
  stood alone.\<close>

lemma parseOne_append:
  assumes "parseOne script = Some (pop, rest)"
  shows "parseOne (script @ t) = Some (pop, rest @ t)"
proof -
  obtain instr off where script: "script = instr # off"
    using assms(1) by (cases script) (simp_all add: parseOne_def)
  define i where "i = unat instr"
  consider "1 \<le> i" "i \<le> 75" | "i \<in> {76, 77, 78}" | "i = 0 \<or> 79 \<le> i" by fastforce
  then show ?thesis
  proof cases
    case 1
    then show ?thesis
      using assms by (simp add: script parseOne_direct [OF i_def 1] split: if_split_asm)
  next
    case 2
    note eq = parseOne_pushdata [OF i_def 2 refl refl]
    show ?thesis
      using assms unfolding script append_Cons eq by (simp split: if_split_asm)
  next
    case 3
    then show ?thesis
      using assms by (simp add: script parseOne_plain [OF i_def 3])
  qed
qed

lemma ParseScript_append:
  "ParseScript script = (pops, None) \<Longrightarrow>
   ParseScript (script @ t) = (pops @ fst (ParseScript t), snd (ParseScript t))"
proof (induction script arbitrary: pops rule: ParseScript_induct)
  case (Step script pop rest)
  then show ?case
    by (auto simp: ParseScript_step parseOne_append split: prod.splits)
qed (simp_all add: ParseScript_step)

section \<open>Properties\<close>

text \<open>C29. Script parsing always ends: on the opcode table the parsing loop returns on every
  script, from any accumulator, and the only error it reports is a malformed push.\<close>

theorem parseScript_terminates:
  "\<exists>pops err. parseScriptTemplate opcodeArray script acc = Some (acc @ pops, err) \<and>
              err \<in> {None, Some (ScriptError ErrMalformedPush)} \<and> ParseScript script = (pops, err)"
proof -
  have "snd (ParseScript script) \<in> {None, Some (ScriptError ErrMalformedPush)}"
    by (induction script rule: ParseScript_induct) (auto simp: ParseScript_step split: prod.splits)
  then show ?thesis
    by (intro exI [of _ "fst (ParseScript script)"] exI [of _ "snd (ParseScript script)"])
      (simp add: ParseScript_parseAll parseScriptTemplate_total)
qed

text \<open>C30. Round trip of scripts: printing the opcodes of a script that parses gives the script
  back, provided none of them has one of the opcode values 188 to 197.\<close>

theorem parse_print_roundtrip:
  assumes "ParseScript script = (pops, None)"
    and "list_all (\<lambda>pop. \<not> (188 \<le> unat (opValue (popOpcode pop)) \<and> unat (opValue (popOpcode pop)) < 198)) pops"
  shows "unparseScript pops = Inr script"
  by (rule unparse_ParseScript [OF assms])

theorem parse_print_roundtrip_witness:
  "unparseScript (fst (ParseScript [2, 7, 9, 0x87])) = Inr [2, 7, 9, 0x87]"
proof -
  let ?pops = "[\<lparr>popOpcode = opcodeArray ! 2, popData = [7, 9]\<rparr>, \<lparr>popOpcode = opcodeArray ! 135, popData = []\<rparr>]"
  have "ParseScript [2, 7, 9, 0x87] = (?pops, None)"
    by (simp add: ParseScript_step parseOne_direct [of 2] parseOne_plain [of 135])
  then show ?thesis
    using parse_print_roundtrip [of "[2, 7, 9, 0x87]" ?pops] opcodeArray_value [of 2] opcodeArray_value [of 135]
    by simp
qed

text \<open>C31. The bytes 178 to 187 do not survive the round trip: their table entries carry the
  opcode values 188 to 197, so such a script is printed as a different one.\<close>

theorem parse_print_alias:
  assumes "178 \<le> n" and "n < 188"
  shows "snd (ParseScript [word_of_nat n]) = None \<and>
         unparseScript (fst (ParseScript [word_of_nat n])) = Inr [word_of_nat (n + 10)]"
proof -
  let ?op = "opcodeArray ! n"
  have n: "n = unat (word_of_nat n :: byte)" using assms(2) by (simp add: unat_of_nat take_bit_nat_eq_self)
  have "opValue ?op = word_of_nat (n + 10)"
    using assms opcodeArray_value [of n]
    by (intro unsigned_word_eqI [where 'a = nat]) (simp add: unat_of_nat take_bit_nat_eq_self del: of_nat_add)
  moreover have "opLength ?op = 1"
    using assms by (simp add: opcodeArray_length)
  moreover have "ParseScript [word_of_nat n] = ([\<lparr>popOpcode = ?op, popData = []\<rparr>], None)"
    using assms by (simp add: ParseScript_step parseOne_plain [OF n])
  ultimately show ?thesis
    by (simp add: popBytes_def)
qed

theorem parse_print_alias_witness:
  "unparseScript (fst (ParseScript [word_of_nat 178])) = Inr [word_of_nat (178 + 10)]"
  by (rule conjunct2 [OF parse_print_alias]) simp_all

end
