(* ===== verification/Script_Stack.thy ===== *)
theory Script_Stack
  imports Script_Num
begin

text \<open>
  The stack of the script engine (domain/consensus/utils/txscript/stack.go).

  A stack is the slice \<open>stk\<close> of byte strings with the top item at the end. Operations that
  change the stack return the new one. Indices are \<open>int32\<close> values counted from the top, kept as
  integers with the wrap-around written out. \<open>checkedStackSize\<close> panics on more than
  \<open>math.MaxInt32\<close> items.
\<close>

section \<open>Operations\<close>

type_synonym stack = "bytes list"

definition wrap32 :: "int \<Rightarrow> int" where
  "wrap32 x = (x + 2 ^ 31) mod 2 ^ 32 - 2 ^ 31"

definition checkedStackSize :: "nat \<Rightarrow> script_failure + int" where
  "checkedStackSize sz = (if int sz > maxInt32 then Inl GoPanic else Inr (int sz))"

fun asBool :: "bytes \<Rightarrow> bool" where
  "asBool [] = False"
| "asBool (b # rest) =
     (if b \<noteq> 0 then (if rest = [] \<and> b = 0x80 then False else True) else asBool rest)"

definition fromBool :: "bool \<Rightarrow> bytes" where
  "fromBool v = (if v then [1] else [])"

definition Depth :: "stack \<Rightarrow> script_failure + int" where
  "Depth s = checkedStackSize (length s)"

definition PushByteArray :: "stack \<Rightarrow> bytes \<Rightarrow> stack" where
  "PushByteArray s so = s @ [so]"

definition PushInt :: "stack \<Rightarrow> scriptNum \<Rightarrow> script_failure + stack" where
  "PushInt s val = rbind (Bytes val) (\<lambda>so. Inr (PushByteArray s so))"

definition PushBool :: "stack \<Rightarrow> bool \<Rightarrow> stack" where
  "PushBool s val = PushByteArray s (fromBool val)"

definition nipN :: "stack \<Rightarrow> int \<Rightarrow> script_failure + (bytes \<times> stack)" where
  "nipN s idx =
     rbind (checkedStackSize (length s)) (\<lambda>sz.
       if idx < 0 \<or> idx > sz - 1 then Inl (ScriptError ErrInvalidStackOperation)
       else
         let so = s ! nat (sz - idx - 1)
         in if idx = 0 then Inr (so, take (nat (sz - 1)) s)
            else if idx = sz - 1 then Inr (so, drop 1 s)
            else let s1 = take (nat idx) (drop (nat (sz - idx)) s)
                 in Inr (so, take (nat (sz - idx - 1)) s @ s1))"

definition PopByteArray :: "stack \<Rightarrow> script_failure + (bytes \<times> stack)" where
  "PopByteArray s = nipN s 0"

definition PopInt :: "stack \<Rightarrow> script_failure + (scriptNum \<times> stack)" where
  "PopInt s =
     rbind (PopByteArray s) (\<lambda>(so, s).
     rbind (makeScriptNum so defaultScriptNumLen) (\<lambda>n. Inr (n, s)))"

definition PopBool :: "stack \<Rightarrow> script_failure + (bool \<times> stack)" where
  "PopBool s = rbind (PopByteArray s) (\<lambda>(so, s). Inr (asBool so, s))"

definition PeekByteArray :: "stack \<Rightarrow> int \<Rightarrow> script_failure + bytes" where
  "PeekByteArray s idx =
     rbind (checkedStackSize (length s)) (\<lambda>sz.
       if idx < 0 \<or> idx \<ge> sz then Inl (ScriptError ErrInvalidStackOperation)
       else Inr (s ! nat (sz - idx - 1)))"

definition PeekInt :: "stack \<Rightarrow> int \<Rightarrow> script_failure + scriptNum" where
  "PeekInt s idx = rbind (PeekByteArray s idx) (\<lambda>so. makeScriptNum so defaultScriptNumLen)"

definition PeekBool :: "stack \<Rightarrow> int \<Rightarrow> script_failure + bool" where
  "PeekBool s idx = rbind (PeekByteArray s idx) (\<lambda>so. Inr (asBool so))"

definition NipN :: "stack \<Rightarrow> int \<Rightarrow> script_failure + stack" where
  "NipN s idx = rbind (nipN s idx) (\<lambda>(_, s). Inr s)"

definition Tuck :: "stack \<Rightarrow> script_failure + stack" where
  "Tuck s =
     rbind (PopByteArray s) (\<lambda>(so2, s).
     rbind (PopByteArray s) (\<lambda>(so1, s).
       Inr (PushByteArray (PushByteArray (PushByteArray s so2) so1) so2)))"

text \<open>The counting loops of \<open>DropN\<close>, of \<open>RotN\<close> and \<open>SwapN\<close> (nip an entry and push it), and of
  \<open>DupN\<close> and \<open>OverN\<close> (peek at an entry and push it).\<close>

fun dropLoop :: "nat \<Rightarrow> stack \<Rightarrow> script_failure + stack" where
  "dropLoop 0 s = Inr s"
| "dropLoop (Suc n) s = rbind (PopByteArray s) (\<lambda>(_, s). dropLoop n s)"

fun nipPushLoop :: "nat \<Rightarrow> int \<Rightarrow> stack \<Rightarrow> script_failure + stack" where
  "nipPushLoop 0 entry s = Inr s"
| "nipPushLoop (Suc n) entry s =
     rbind (nipN s entry) (\<lambda>(so, s). nipPushLoop n entry (PushByteArray s so))"

fun peekPushLoop :: "nat \<Rightarrow> int \<Rightarrow> stack \<Rightarrow> script_failure + stack" where
  "peekPushLoop 0 entry s = Inr s"
| "peekPushLoop (Suc n) entry s =
     rbind (PeekByteArray s entry) (\<lambda>so. peekPushLoop n entry (PushByteArray s so))"

definition DropN :: "stack \<Rightarrow> int \<Rightarrow> script_failure + stack" where
  "DropN s n =
     (if n < 1 then Inl (ScriptError ErrInvalidStackOperation) else dropLoop (nat n) s)"

definition DupN :: "stack \<Rightarrow> int \<Rightarrow> script_failure + stack" where
  "DupN s n =
     (if n < 1 then Inl (ScriptError ErrInvalidStackOperation) else peekPushLoop (nat n) (n - 1) s)"

definition RotN :: "stack \<Rightarrow> int \<Rightarrow> script_failure + stack" where
  "RotN s n =
     (if n < 1 then Inl (ScriptError ErrInvalidStackOperation)
      else nipPushLoop (nat n) (wrap32 (3 * n - 1)) s)"

definition SwapN :: "stack \<Rightarrow> int \<Rightarrow> script_failure + stack" where
  "SwapN s n =
     (if n < 1 then Inl (ScriptError ErrInvalidStackOperation)
      else nipPushLoop (nat n) (wrap32 (2 * n - 1)) s)"

definition OverN :: "stack \<Rightarrow> int \<Rightarrow> script_failure + stack" where
  "OverN s n =
     (if n < 1 then Inl (ScriptError ErrInvalidStackOperation)
      else peekPushLoop (nat n) (wrap32 (2 * n - 1)) s)"

definition PickN :: "stack \<Rightarrow> int \<Rightarrow> script_failure + stack" where
  "PickN s n = rbind (PeekByteArray s n) (\<lambda>so. Inr (PushByteArray s so))"

definition RollN :: "stack \<Rightarrow> int \<Rightarrow> script_failure + stack" where
  "RollN s n = rbind (nipN s n) (\<lambda>(so, s). Inr (PushByteArray s so))"

section \<open>What the operations do\<close>

text \<open>Stacks of a size that \<open>checkedStackSize\<close> accepts.\<close>

definition sized :: "stack \<Rightarrow> bool" where
  "sized s \<longleftrightarrow> length s \<le> 2147483647"

lemma checkedStackSize_sized [simp]: "sized s \<Longrightarrow> checkedStackSize (length s) = Inr (int (length s))"
  by (simp add: checkedStackSize_def sized_def maxInt32_def)

lemma sized_appendD: "sized (s @ t) \<Longrightarrow> sized s" "sized (s @ t) \<Longrightarrow> sized t"
  by (simp_all add: sized_def)

lemma nipN_split:
  assumes "sized (s @ x # t)" and "length t = i"
  shows "nipN (s @ x # t) (int i) = Inr (x, s @ t)"
proof -
  have "nat (int (length (s @ x # t)) - int i - 1) = length s" "nat (int (length (s @ x # t)) - 1) = length s + i"
    "nat (int (length (s @ x # t)) - int i) = Suc (length s)"
    using assms by auto
  then show ?thesis
    using assms unfolding nipN_def checkedStackSize_sized [OF assms(1)] rbind_simps
    by (cases t) (auto simp: Let_def nth_append)
qed

lemma nipN_error:
  "sized s \<Longrightarrow> i < 0 \<or> i \<ge> int (length s) \<Longrightarrow> nipN s i = Inl (ScriptError ErrInvalidStackOperation)"
  by (auto simp: nipN_def)

lemma PeekByteArray_split:
  assumes "sized (s @ x # t)" and "length t = i"
  shows "PeekByteArray (s @ x # t) (int i) = Inr x"
proof -
  have "nat (int (length (s @ x # t)) - int i - 1) = length s"
    using assms by auto
  then show ?thesis
    using assms unfolding PeekByteArray_def checkedStackSize_sized [OF assms(1)] rbind_simps
    by (auto simp: nth_append)
qed

lemma PeekByteArray_error:
  "sized s \<Longrightarrow> i < 0 \<or> i \<ge> int (length s) \<Longrightarrow> PeekByteArray s i = Inl (ScriptError ErrInvalidStackOperation)"
  by (auto simp: PeekByteArray_def)

lemma PopByteArray_simps [simp]:
  "PopByteArray [] = Inl (ScriptError ErrInvalidStackOperation)"
  "sized (s @ [x]) \<Longrightarrow> PopByteArray (s @ [x]) = Inr (x, s)"
  using nipN_split [of s x "[]"] nipN_error [of "[]" 0] by (simp_all add: PopByteArray_def sized_def)

lemma nipN_InrD:
  assumes "nipN s i = Inr (x, t)"
  shows "sized s" and "\<exists>a b. s = a @ x # b \<and> t = a @ b \<and> i = int (length b)"
proof -
  show sz: "sized s"
    using assms by (auto simp: nipN_def checkedStackSize_def sized_def maxInt32_def split: if_splits)
  then have i: "0 \<le> i" "i < int (length s)"
    using assms nipN_error [of s i] by (fastforce simp: not_le)+
  define n where "n = length s - Suc (nat i)"
  have n: "n < length s" "i = int (length (drop (Suc n) s))"
    using i by (auto simp: n_def)
  have s: "s = take n s @ s ! n # drop (Suc n) s"
    using n(1) by (rule id_take_nth_drop)
  have "nipN s i = Inr (s ! n, take n s @ drop (Suc n) s)"
    using nipN_split [of "take n s" "s ! n" "drop (Suc n) s" "length (drop (Suc n) s)"] s n(2) sz by simp
  then have "x = s ! n" "t = take n s @ drop (Suc n) s"
    using assms by simp_all
  then show "\<exists>a b. s = a @ x # b \<and> t = a @ b \<and> i = int (length b)"
    using s n(2) by (intro exI [of _ "take n s"] exI [of _ "drop (Suc n) s"]) simp
qed

lemma PopByteArray_InrD: "PopByteArray s = Inr (x, t) \<Longrightarrow> s = t @ [x]"
  using nipN_InrD(2) [of s 0 x t] by (auto simp: PopByteArray_def)

lemma dropLoop_drops: "sized (s @ t) \<Longrightarrow> dropLoop (length t) (s @ t) = Inr s"
proof (induction t rule: rev_induct)
  case (snoc x t)
  then have "sized ((s @ t) @ [x])" "sized (s @ t)"
    by (simp_all add: sized_def)
  then show ?case
    using snoc.IH PopByteArray_simps(2) [of "s @ t" x] by simp
qed simp

lemma nipPushLoop_rotates:
  assumes "sized (s @ t)" and "t \<noteq> []"
  shows "nipPushLoop k (int (length t) - 1) (s @ t) = Inr (s @ rotate k t)"
  using assms
proof (induction k arbitrary: t)
  case (Suc k)
  then obtain x u where t: "t = x # u" by (cases t) auto
  have "nipN (s @ t) (int (length t) - 1) = Inr (x, s @ u)"
    using nipN_split [of s x u "length u"] Suc.prems t by simp
  moreover have "nipPushLoop k (int (length (u @ [x])) - 1) (s @ (u @ [x])) = Inr (s @ rotate k (u @ [x]))"
    using Suc.IH [of "u @ [x]"] Suc.prems t by (simp add: sized_def)
  ultimately show ?case
    using t by (simp add: PushByteArray_def rotate1_rotate_swap)
qed simp

lemma peekPushLoop_copies:
  assumes "sized (s @ t @ u @ take (length t) t)" and "k \<le> length t"
  shows "peekPushLoop k (int (length t + length u) - 1) (s @ t @ u @ take (length t - k) t) = Inr (s @ t @ u @ t)"
  using assms(2)
proof (induction k)
  case (Suc k)
  let ?j = "length t - Suc k"
  have j: "?j < length t" using Suc.prems by simp
  have split: "s @ t @ u @ take ?j t = (s @ take ?j t) @ t ! ?j # (drop (Suc ?j) t @ u @ take ?j t)"
    using j by (simp add: id_take_nth_drop [symmetric])
  have len: "length (drop (Suc ?j) t @ u @ take ?j t) = length t + length u - 1"
    using j by simp
  have "sized ((s @ take ?j t) @ t ! ?j # (drop (Suc ?j) t @ u @ take ?j t))"
    using assms(1) j by (simp add: sized_def)
  then have "PeekByteArray (s @ t @ u @ take ?j t) (int (length t + length u - 1)) = Inr (t ! ?j)"
    unfolding split using PeekByteArray_split len by blast
  moreover have "take ?j t @ [t ! ?j] = take (length t - k) t"
    using take_Suc_conv_app_nth [OF j] Suc_diff_Suc [of k "length t"] Suc.prems by simp
  ultimately show ?case
    using Suc j by (simp add: PushByteArray_def of_nat_diff)
qed simp


lemma wrap32_id: "0 \<le> x \<Longrightarrow> x < 2 ^ 31 \<Longrightarrow> wrap32 x = x"
  by (simp add: wrap32_def)

lemma nonempty_int: "t \<noteq> [] \<Longrightarrow> \<not> int (length t) < 1"
  by (cases t) auto

lemma DropN_split: "sized (s @ t) \<Longrightarrow> t \<noteq> [] \<Longrightarrow> DropN (s @ t) (int (length t)) = Inr s"
  using dropLoop_drops [of s t] nonempty_int [of t] by (simp add: DropN_def)

lemma DupN_split: "sized (s @ t @ t) \<Longrightarrow> t \<noteq> [] \<Longrightarrow> DupN (s @ t) (int (length t)) = Inr (s @ t @ t)"
  using peekPushLoop_copies [of s t "[]" "length t"] nonempty_int [of t] by (simp add: DupN_def)

lemma RotN_split:
  assumes "sized (s @ t @ u)" and "t \<noteq> []" and "length u = 2 * length t"
  shows "RotN (s @ t @ u) (int (length t)) = Inr (s @ u @ t)"
proof -
  have "wrap32 (3 * int (length t) - 1) = int (length (t @ u)) - 1"
    using assms by (cases t) (auto simp: sized_def intro!: wrap32_id)
  then show ?thesis
    using nipPushLoop_rotates [of s "t @ u" "length t"] assms nonempty_int [of t]
    by (simp add: RotN_def rotate_append)
qed

lemma SwapN_split:
  assumes "sized (s @ t @ u)" and "t \<noteq> []" and "length u = length t"
  shows "SwapN (s @ t @ u) (int (length t)) = Inr (s @ u @ t)"
proof -
  have "wrap32 (2 * int (length t) - 1) = int (length (t @ u)) - 1"
    using assms by (cases t) (auto simp: sized_def intro!: wrap32_id)
  then show ?thesis
    using nipPushLoop_rotates [of s "t @ u" "length t"] assms nonempty_int [of t]
    by (simp add: SwapN_def rotate_append)
qed

lemma OverN_split:
  assumes "sized (s @ t @ u @ t)" and "t \<noteq> []" and "length u = length t"
  shows "OverN (s @ t @ u) (int (length t)) = Inr (s @ t @ u @ t)"
proof -
  have "wrap32 (2 * int (length t) - 1) = int (length t + length u) - 1"
    using assms by (cases t) (auto simp: sized_def intro!: wrap32_id)
  then show ?thesis
    using peekPushLoop_copies [of s t u "length t"] assms nonempty_int [of t] by (simp add: OverN_def)
qed

lemma loops_error:
  assumes "sized s" and "entry < 0 \<or> int (length s) \<le> entry" and "n > 0"
  shows "nipPushLoop n entry s = Inl (ScriptError ErrInvalidStackOperation)"
    and "peekPushLoop n entry s = Inl (ScriptError ErrInvalidStackOperation)"
  using assms nipN_error [of s entry] PeekByteArray_error [of s entry] by (cases n; simp)+

lemma dropLoop_error:
  "sized s \<Longrightarrow> length s < n \<Longrightarrow> dropLoop n s = Inl (ScriptError ErrInvalidStackOperation)"
proof (induction n arbitrary: s)
  case (Suc n)
  show ?case
  proof (cases s rule: rev_cases)
    case (snoc t x)
    then show ?thesis
      using Suc PopByteArray_simps(2) [of t x] by (simp add: sized_def)
  qed simp
qed simp

text \<open>An entry within the stack is never rejected as invalid, however often it is used.\<close>

lemma nipPushLoop_ok:
  assumes "sized s" and "0 \<le> entry" and "entry < int (length s)"
  shows "\<exists>t. nipPushLoop n entry s = Inr t"
  using assms(1,3)
proof (induction n arbitrary: s)
  case (Suc n)
  let ?i = "length s - Suc (nat entry)"
  let ?a = "take ?i s" and ?x = "s ! ?i" and ?b = "drop (Suc ?i) s"
  have s: "s = ?a @ ?x # ?b" by (rule id_take_nth_drop) (use Suc.prems(2) assms(2) in auto)
  have len: "length ?b = nat entry" using Suc.prems assms(2) by simp
  have "nipN s entry = Inr (?x, ?a @ ?b)"
    using nipN_split [of ?a ?x ?b "nat entry"] s len Suc.prems(1) assms(2) by simp
  moreover have "length (?a @ ?b @ [?x]) = length s" using arg_cong [OF s, of length] by simp
  ultimately show ?case
    using Suc.IH [of "?a @ ?b @ [?x]"] Suc.prems by (simp add: sized_def PushByteArray_def)
qed simp

lemma peekPushLoop_ok:
  assumes "0 \<le> entry" and "entry < int (length s)"
  shows "peekPushLoop n entry s \<noteq> Inl (ScriptError ErrInvalidStackOperation)"
  using assms(2)
proof (induction n arbitrary: s)
  case (Suc n)
  show ?case
  proof (cases "PeekByteArray s entry")
    case (Inl e)
    then have "e = GoPanic" using assms(1) Suc.prems by (auto simp: PeekByteArray_def checkedStackSize_def split: if_splits)
    then show ?thesis using Inl by simp
  next
    case (Inr so)
    then show ?thesis using Suc by (simp add: PushByteArray_def)
  qed
qed simp

lemma dropLoop_ok: "sized s \<Longrightarrow> n \<le> length s \<Longrightarrow> dropLoop n s = Inr (take (length s - n) s)"
  using dropLoop_drops [of "take (length s - n) s" "drop (length s - n) s"] by simp

text \<open>The error of the operations.\<close>

abbreviation invalid :: script_failure where
  "invalid \<equiv> ScriptError ErrInvalidStackOperation"

lemma top_errors:
  assumes "sized s"
  shows "PopByteArray s = Inl invalid \<longleftrightarrow> s = []"
    and "Tuck s = Inl invalid \<longleftrightarrow> length s < 2"
proof -
  have pop: "PopByteArray t = (if t = [] then Inl invalid else Inr (last t, butlast t))" if "sized t" for t
    using that by (cases t rule: rev_cases) simp_all
  have "sized (butlast s)" using assms by (simp add: sized_def)
  then show "PopByteArray s = Inl invalid \<longleftrightarrow> s = []"
    and "Tuck s = Inl invalid \<longleftrightarrow> length s < 2"
    using pop [OF assms] pop [of "butlast s"]
    by (cases s rule: rev_cases; cases "butlast s" rule: rev_cases; simp add: Tuck_def)+
qed

lemma depth_errors:
  assumes "sized s"
  shows "PeekByteArray s n = Inl invalid \<longleftrightarrow> n < 0 \<or> int (length s) \<le> n"
    and "NipN s n = Inl invalid \<longleftrightarrow> n < 0 \<or> int (length s) \<le> n"
    and "PickN s n = Inl invalid \<longleftrightarrow> n < 0 \<or> int (length s) \<le> n"
    and "RollN s n = Inl invalid \<longleftrightarrow> n < 0 \<or> int (length s) \<le> n"
proof -
  have "nipN s n = Inl invalid \<and> (n < 0 \<or> int (length s) \<le> n)
      \<or> (\<exists>x t. nipN s n = Inr (x, t)) \<and> 0 \<le> n \<and> n < int (length s)"
    using assms by (auto simp: nipN_def Let_def)
  then show "NipN s n = Inl invalid \<longleftrightarrow> n < 0 \<or> int (length s) \<le> n"
    and "RollN s n = Inl invalid \<longleftrightarrow> n < 0 \<or> int (length s) \<le> n"
    by (auto simp: NipN_def RollN_def)
qed (use assms in \<open>auto simp: PeekByteArray_def PickN_def\<close>)

lemma count_errors:
  assumes "sized s"
  shows "DropN s n = Inl invalid \<longleftrightarrow> n < 1 \<or> int (length s) < n"
    and "DupN s n = Inl invalid \<longleftrightarrow> n < 1 \<or> int (length s) < n"
proof -
  have "DropN s n = Inr (take (length s - nat n) s)" if "1 \<le> n" "n \<le> int (length s)"
    using that dropLoop_ok [OF assms, of "nat n"] by (simp add: DropN_def nat_le_iff)
  moreover have "DropN s n = Inl invalid" if "1 \<le> n" "int (length s) < n"
    using that dropLoop_error [OF assms, of "nat n"] by (simp add: DropN_def zless_nat_eq_int_zless)
  ultimately show "DropN s n = Inl invalid \<longleftrightarrow> n < 1 \<or> int (length s) < n"
    by (cases "1 \<le> n"; cases "n \<le> int (length s)") (auto simp: DropN_def)
  show "DupN s n = Inl invalid \<longleftrightarrow> n < 1 \<or> int (length s) < n"
    using peekPushLoop_ok [of "n - 1" s "nat n"] loops_error(2) [OF assms, of "n - 1" "nat n"]
    by (cases "1 \<le> n"; cases "n \<le> int (length s)") (simp_all add: DupN_def)
qed

lemma group_errors:
  assumes "sized s"
  shows "RotN s n = Inl invalid \<longleftrightarrow> n < 1 \<or> wrap32 (3 * n - 1) < 0 \<or> int (length s) \<le> wrap32 (3 * n - 1)"
    and "SwapN s n = Inl invalid \<longleftrightarrow> n < 1 \<or> wrap32 (2 * n - 1) < 0 \<or> int (length s) \<le> wrap32 (2 * n - 1)"
    and "OverN s n = Inl invalid \<longleftrightarrow> n < 1 \<or> wrap32 (2 * n - 1) < 0 \<or> int (length s) \<le> wrap32 (2 * n - 1)"
proof -
  have nip: "nipPushLoop (nat n) e s = Inl invalid \<longleftrightarrow> e < 0 \<or> int (length s) \<le> e" if "1 \<le> n" for e
    using that nipPushLoop_ok [OF assms, of e "nat n"] loops_error(1) [OF assms, of e "nat n"] by (cases "0 \<le> e \<and> e < int (length s)") auto
  have peek: "peekPushLoop (nat n) e s = Inl invalid \<longleftrightarrow> e < 0 \<or> int (length s) \<le> e" if "1 \<le> n" for e
    using that peekPushLoop_ok [of e s "nat n"] loops_error(2) [OF assms, of e "nat n"] by (cases "0 \<le> e \<and> e < int (length s)") auto
  show "RotN s n = Inl invalid \<longleftrightarrow> n < 1 \<or> wrap32 (3 * n - 1) < 0 \<or> int (length s) \<le> wrap32 (3 * n - 1)"
    and "SwapN s n = Inl invalid \<longleftrightarrow> n < 1 \<or> wrap32 (2 * n - 1) < 0 \<or> int (length s) \<le> wrap32 (2 * n - 1)"
    using nip by (auto simp: RotN_def SwapN_def)
  show "OverN s n = Inl invalid \<longleftrightarrow> n < 1 \<or> wrap32 (2 * n - 1) < 0 \<or> int (length s) \<le> wrap32 (2 * n - 1)"
    using peek by (auto simp: OverN_def)
qed

lemma group_errors_plain:
  assumes "sized s" and "1 \<le> n" and "3 * n - 1 < 2 ^ 31"
  shows "RotN s n = Inl invalid \<longleftrightarrow> int (length s) < 3 * n"
    and "SwapN s n = Inl invalid \<longleftrightarrow> int (length s) < 2 * n"
    and "OverN s n = Inl invalid \<longleftrightarrow> int (length s) < 2 * n"
proof -
  have "wrap32 (3 * n - 1) = 3 * n - 1" "wrap32 (2 * n - 1) = 2 * n - 1" using assms(2,3) by (auto intro: wrap32_id)
  then show "RotN s n = Inl invalid \<longleftrightarrow> int (length s) < 3 * n"
    and "SwapN s n = Inl invalid \<longleftrightarrow> int (length s) < 2 * n"
    and "OverN s n = Inl invalid \<longleftrightarrow> int (length s) < 2 * n"
    using group_errors [OF assms(1), of n] assms(2) by auto
qed

section \<open>Properties\<close>

text \<open>C27. The stack operations perform the transformations their documentation draws: on a stack
  with enough items, \<open>DropN\<close>, \<open>DupN\<close>, \<open>RotN\<close>, \<open>SwapN\<close> and \<open>OverN\<close> remove, duplicate, rotate,
  swap and copy groups of \<open>n\<close> items, \<open>PeekByteArray\<close> reads, \<open>NipN\<close> removes, \<open>PickN\<close> copies and
  \<open>RollN\<close> moves the item at a depth, \<open>PopByteArray\<close> takes the top item and \<open>Tuck\<close> inserts it below
  the second. No stack involved, the results of \<open>DupN\<close> and \<open>OverN\<close> included, has more than
  \<open>math.MaxInt32\<close> items.\<close>

theorem stack_operations:
  assumes "sized (s @ t @ u @ t)" and "sized (s @ t @ v)" and "sized (s @ x # w)" and "sized (s @ [y, z])"
    and "t \<noteq> []" and "length u = length t" and "length v = 2 * length t"
  shows "DropN (s @ t) (int (length t)) = Inr s \<and>
         DupN (s @ t) (int (length t)) = Inr (s @ t @ t) \<and>
         RotN (s @ t @ v) (int (length t)) = Inr (s @ v @ t) \<and>
         SwapN (s @ t @ u) (int (length t)) = Inr (s @ u @ t) \<and>
         OverN (s @ t @ u) (int (length t)) = Inr (s @ t @ u @ t) \<and>
         PeekByteArray (s @ x # w) (int (length w)) = Inr x \<and>
         NipN (s @ x # w) (int (length w)) = Inr (s @ w) \<and>
         PickN (s @ x # w) (int (length w)) = Inr (s @ x # w @ [x]) \<and>
         RollN (s @ x # w) (int (length w)) = Inr (s @ w @ [x]) \<and>
         PopByteArray (s @ [y, z]) = Inr (z, s @ [y]) \<and>
         Tuck (s @ [y, z]) = Inr (s @ [z, y, z])"
proof -
  have "sized (s @ t)" "sized (s @ t @ t)" "sized (s @ t @ u)" "sized ((s @ [y]) @ [z])" "sized (s @ [y])"
    using assms by (simp_all add: sized_def)
  then show ?thesis
    using assms PopByteArray_simps(2) [of "s @ [y]" z] PopByteArray_simps(2) [of s y]
    by (simp add: DropN_split DupN_split RotN_split SwapN_split OverN_split NipN_def PickN_def RollN_def Tuck_def
        PushByteArray_def PeekByteArray_split nipN_split)
qed

theorem stack_operations_witness:
  "RotN [[1], [2], [3]] 1 = Inr [[2], [3], [1]] \<and> SwapN [[1], [2]] 1 = Inr [[2], [1]] \<and>
   OverN [[1], [2]] 1 = Inr [[1], [2], [1]] \<and> RollN [[7], [8], [9]] 2 = Inr [[8], [9], [7]] \<and>
   NipN [[7], [8], [9]] 2 = Inr [[8], [9]]"
  using stack_operations [of "[]" "[[1]]" "[[2]]" "[[2], [3]]" "[7]" "[[8], [9]]" "[]" "[]"]
  by (simp add: sized_def)

text \<open>C28. Exactly when the stack operations report \<open>ErrInvalidStackOperation\<close>, on every stack of at
  most \<open>math.MaxInt32\<close> items and for every argument: \<open>PopByteArray\<close> on the empty stack and \<open>Tuck\<close>
  on fewer than two items; \<open>PeekByteArray\<close>, \<open>NipN\<close>, \<open>PickN\<close> and \<open>RollN\<close> for a depth that is negative
  or not below the number of items; \<open>DropN\<close> and \<open>DupN\<close> for a count below one or above the number of
  items; \<open>RotN\<close>, \<open>SwapN\<close> and \<open>OverN\<close> for a count \<open>n\<close> below one, or when the entry they use,
  \<open>3*n-1\<close> or \<open>2*n-1\<close> computed in \<open>int32\<close>, is outside of the stack. As long as \<open>3*n-1\<close> does not wrap
  around, that is when there are fewer than \<open>3*n\<close> or \<open>2*n\<close> items.\<close>

theorem stack_operations_errors:
  assumes "sized s"
  shows "(PopByteArray s = Inl invalid \<longleftrightarrow> s = []) \<and> (Tuck s = Inl invalid \<longleftrightarrow> length s < 2) \<and>
         (PeekByteArray s n = Inl invalid \<longleftrightarrow> n < 0 \<or> int (length s) \<le> n) \<and>
         (NipN s n = Inl invalid \<longleftrightarrow> n < 0 \<or> int (length s) \<le> n) \<and>
         (PickN s n = Inl invalid \<longleftrightarrow> n < 0 \<or> int (length s) \<le> n) \<and>
         (RollN s n = Inl invalid \<longleftrightarrow> n < 0 \<or> int (length s) \<le> n) \<and>
         (DropN s n = Inl invalid \<longleftrightarrow> n < 1 \<or> int (length s) < n) \<and>
         (DupN s n = Inl invalid \<longleftrightarrow> n < 1 \<or> int (length s) < n) \<and>
         (RotN s n = Inl invalid \<longleftrightarrow> n < 1 \<or> wrap32 (3 * n - 1) < 0 \<or> int (length s) \<le> wrap32 (3 * n - 1)) \<and>
         (SwapN s n = Inl invalid \<longleftrightarrow> n < 1 \<or> wrap32 (2 * n - 1) < 0 \<or> int (length s) \<le> wrap32 (2 * n - 1)) \<and>
         (OverN s n = Inl invalid \<longleftrightarrow> n < 1 \<or> wrap32 (2 * n - 1) < 0 \<or> int (length s) \<le> wrap32 (2 * n - 1)) \<and>
         (1 \<le> n \<and> 3 * n - 1 < 2 ^ 31 \<longrightarrow>
            (RotN s n = Inl invalid \<longleftrightarrow> int (length s) < 3 * n) \<and> (SwapN s n = Inl invalid \<longleftrightarrow> int (length s) < 2 * n) \<and>
            (OverN s n = Inl invalid \<longleftrightarrow> int (length s) < 2 * n))"
  by (intro conjI impI top_errors [OF assms(1)] depth_errors [OF assms(1)] count_errors [OF assms(1)] group_errors [OF assms(1)]
      group_errors_plain [OF assms(1)]) simp_all

theorem stack_operations_errors_witness:
  "RotN [[1], [2]] 1 = Inl invalid \<and> RotN [[1], [2]] 1431655766 \<noteq> Inl invalid"
  using stack_operations_errors [of "[[1], [2]]" 1] stack_operations_errors [of "[[1], [2]]" 1431655766] by (simp add: sized_def wrap32_def)

end
