(* ===== verification/Sig_Cache.thy ===== *)
theory Sig_Cache
  imports External_Api
begin

text \<open>
  The signature verification caches (txscript/sigcache.go and sigcache_ecdsa.go).

  The two caches are the same code for the two signature schemes, so one model covers both. The
  types of parsed keys and signatures belong to the secp256k1 package and are type variables; the
  operations of the package are the fields of \<open>secp256k1\<close>. The cache maps a signature hash to one
  verified signature and key. The entry that \<open>Add\<close> evicts is the one Go's map iteration yields
  first, which is arbitrary: the parameter \<open>rangeFirst\<close> stands for that choice.

  The interface the script engine relies on is the locale \<open>verification_cache\<close>: what a sound cache
  knows is valid, and adding a valid triple keeps it sound. Verification through any such cache
  equals direct verification.
\<close>

section \<open>The caches\<close>

record ('pk, 'sg) secp256k1 =
  DeserializePubKey :: "bytes \<Rightarrow> 'pk option"
  DeserializeSignatureFromSlice :: "bytes \<Rightarrow> 'sg option"
  Verify :: "'pk \<Rightarrow> DomainHash \<Rightarrow> 'sg \<Rightarrow> bool"
  PubKey_IsEqual :: "'pk \<Rightarrow> 'pk \<Rightarrow> bool"
  Signature_IsEqual :: "'sg \<Rightarrow> 'sg \<Rightarrow> bool"

record ('pk, 'sg) sigCacheEntry =
  entrySig :: 'sg
  entryPubKey :: 'pk

record ('pk, 'sg) SigCache =
  validSigs :: "(DomainHash, ('pk, 'sg) sigCacheEntry) gomap"
  maxEntries :: nat

type_synonym ('pk, 'sg) range_first = "(DomainHash, ('pk, 'sg) sigCacheEntry) gomap \<Rightarrow> DomainHash"

definition NewSigCache :: "nat \<Rightarrow> ('pk, 'sg) SigCache" where
  "NewSigCache n = \<lparr>validSigs = [], maxEntries = n\<rparr>"

definition Exists ::
    "('pk, 'sg) secp256k1 \<Rightarrow> ('pk, 'sg) SigCache \<Rightarrow> DomainHash \<Rightarrow> 'sg \<Rightarrow> 'pk \<Rightarrow> bool" where
  "Exists lib s sigHash sg pubKey =
     (case map_of (validSigs s) sigHash of
        None \<Rightarrow> False
      | Some entry \<Rightarrow> PubKey_IsEqual lib (entryPubKey entry) pubKey \<and> Signature_IsEqual lib (entrySig entry) sg)"

definition Add ::
    "('pk, 'sg) range_first \<Rightarrow> ('pk, 'sg) SigCache \<Rightarrow> DomainHash \<Rightarrow> 'sg \<Rightarrow> 'pk \<Rightarrow> ('pk, 'sg) SigCache" where
  "Add rangeFirst s sigHash sg pubKey =
     (if maxEntries s = 0 then s
      else
        let sigs = (if length (validSigs s) + 1 > maxEntries s
                    then AList.delete (rangeFirst (validSigs s)) (validSigs s)
                    else validSigs s)
        in s\<lparr>validSigs := AList.update sigHash \<lparr>entrySig = sg, entryPubKey = pubKey\<rparr> sigs\<rparr>)"

text \<open>The lookup, verify and store sequence of the signature opcodes: a missing cache means direct
  verification, a known triple is accepted, a triple that verifies is entered.\<close>

definition cachedVerify ::
    "('c \<Rightarrow> 'k \<Rightarrow> bool) \<Rightarrow> ('c \<Rightarrow> 'k \<Rightarrow> 'c) \<Rightarrow> ('k \<Rightarrow> bool) \<Rightarrow> 'c option \<Rightarrow> 'k \<Rightarrow> bool \<times> 'c option" where
  "cachedVerify known enter verifies cache k =
     (case cache of
        None \<Rightarrow> (verifies k, None)
      | Some c \<Rightarrow>
          if known c k then (True, Some c)
          else if verifies k then (True, Some (enter c k))
          else (False, Some c))"

text \<open>A sequence of queries, with the answers.\<close>

fun verifyAll ::
    "('c \<Rightarrow> 'k \<Rightarrow> bool) \<Rightarrow> ('c \<Rightarrow> 'k \<Rightarrow> 'c) \<Rightarrow> ('k \<Rightarrow> bool) \<Rightarrow> 'c option \<Rightarrow> 'k list \<Rightarrow> bool list \<times> 'c option" where
  "verifyAll known enter verifies cache [] = ([], cache)"
| "verifyAll known enter verifies cache (k # ks) =
     (let (b, cache) = cachedVerify known enter verifies cache k;
          (bs, cache) = verifyAll known enter verifies cache ks
      in (b # bs, cache))"

section \<open>The interface of a verification cache\<close>

locale verification_cache =
  fixes sound :: "'c \<Rightarrow> bool"
    and known :: "'c \<Rightarrow> 'k \<Rightarrow> bool"
    and enter :: "'c \<Rightarrow> 'k \<Rightarrow> 'c"
    and verifies :: "'k \<Rightarrow> bool"
  assumes known_verifies: "sound c \<Longrightarrow> known c k \<Longrightarrow> verifies k"
    and enter_sound: "sound c \<Longrightarrow> verifies k \<Longrightarrow> sound (enter c k)"
begin

lemma cachedVerify_verifies: "pred_option sound co \<Longrightarrow> fst (cachedVerify known enter verifies co k) = verifies k"
  by (auto simp: cachedVerify_def known_verifies split: option.splits)

lemma cachedVerify_sound: "pred_option sound co \<Longrightarrow> pred_option sound (snd (cachedVerify known enter verifies co k))"
  by (auto simp: cachedVerify_def enter_sound split: option.splits)

text \<open>A whole run of queries through the cache answers each query as direct verification would,
  whatever was entered and evicted on the way.\<close>

lemma verifyAll_verifies:
  "pred_option sound co \<Longrightarrow> fst (verifyAll known enter verifies co ks) = map verifies ks"
proof (induction ks arbitrary: co)
  case (Cons k ks)
  obtain b co' where v: "cachedVerify known enter verifies co k = (b, co')" by fastforce
  then have "b = verifies k" "fst (verifyAll known enter verifies co' ks) = map verifies ks"
    using cachedVerify_verifies [OF Cons.prems, of k] cachedVerify_sound [OF Cons.prems, of k] Cons.IH by simp_all
  then show ?case
    using v by (auto split: prod.split)
qed simp

end

section \<open>The signature cache as a verification cache\<close>

text \<open>Documented behaviour of the secp256k1 package: its equality tests are equality.\<close>

definition lawful :: "('pk, 'sg) secp256k1 \<Rightarrow> bool" where
  "lawful lib \<longleftrightarrow> PubKey_IsEqual lib = (=) \<and> Signature_IsEqual lib = (=)"

text \<open>Queries are triples of a hash, a signature and a key. A cache is sound when it holds only
  triples that verify.\<close>

type_synonym ('pk, 'sg) sig_query = "DomainHash \<times> 'sg \<times> 'pk"

definition queryKnown :: "('pk, 'sg) secp256k1 \<Rightarrow> ('pk, 'sg) SigCache \<Rightarrow> ('pk, 'sg) sig_query \<Rightarrow> bool" where
  "queryKnown lib s = (\<lambda>(h, sg, pk). Exists lib s h sg pk)"

definition queryAdd :: "('pk, 'sg) range_first \<Rightarrow> ('pk, 'sg) SigCache \<Rightarrow> ('pk, 'sg) sig_query \<Rightarrow> ('pk, 'sg) SigCache" where
  "queryAdd rf s = (\<lambda>(h, sg, pk). Add rf s h sg pk)"

definition queryVerify :: "('pk, 'sg) secp256k1 \<Rightarrow> ('pk, 'sg) sig_query \<Rightarrow> bool" where
  "queryVerify lib = (\<lambda>(h, sg, pk). Verify lib pk h sg)"

definition cacheSound :: "('pk, 'sg) secp256k1 \<Rightarrow> ('pk, 'sg) SigCache \<Rightarrow> bool" where
  "cacheSound lib s \<longleftrightarrow>
     lawful lib \<and>
     (\<forall>h e. map_of (validSigs s) h = Some e \<longrightarrow> Verify lib (entryPubKey e) h (entrySig e))"

lemma cacheSound_New [simp]: "cacheSound lib (NewSigCache n) \<longleftrightarrow> lawful lib"
  by (simp add: cacheSound_def NewSigCache_def)

interpretation signatures: verification_cache "cacheSound lib" "queryKnown lib" "queryAdd rf" "queryVerify lib"
  for lib rf
proof
  fix c :: "('a, 'b) SigCache" and k :: "('a, 'b) sig_query"
  assume c: "cacheSound lib c"
  show "queryKnown lib c k \<Longrightarrow> queryVerify lib k"
    using c by (cases k) (auto simp: cacheSound_def lawful_def queryKnown_def queryVerify_def Exists_def split: option.splits)
  show "queryVerify lib k \<Longrightarrow> cacheSound lib (queryAdd rf c k)"
    using c by (cases k) (auto simp: cacheSound_def queryAdd_def queryVerify_def Add_def Let_def)
qed

section \<open>The size of the cache\<close>

text \<open>Map iteration yields a key of the map.\<close>

definition yieldsKey :: "('pk, 'sg) range_first \<Rightarrow> bool" where
  "yieldsKey rf \<longleftrightarrow> (\<forall>m. m \<noteq> [] \<longrightarrow> rf m \<in> fst ` set m)"

definition cacheBounded :: "('pk, 'sg) SigCache \<Rightarrow> bool" where
  "cacheBounded s \<longleftrightarrow> gomap_ok (validSigs s) \<and> length (validSigs s) \<le> maxEntries s"

lemma gomap_length: "gomap_ok m \<Longrightarrow> length m = card (fst ` set m)"
  by (simp add: gomap_ok_def distinct_card flip: set_map length_map)

lemma gomap_length_update: "gomap_ok m \<Longrightarrow> length (AList.update k v m) \<le> Suc (length m)"
  by (simp add: gomap_length dom_update card_insert_if)

lemma gomap_length_delete: "gomap_ok m \<Longrightarrow> k \<in> fst ` set m \<Longrightarrow> length (AList.delete k m) = length m - 1"
proof -
  assume "gomap_ok m" "k \<in> fst ` set m"
  moreover have "fst ` set (AList.delete k m) = fst ` set m - {k}"
    using arg_cong [OF delete_keys [of k m], of set] by simp
  ultimately show ?thesis
    by (simp add: gomap_length)
qed

lemma cacheBounded_Add:
  assumes "yieldsKey rf" and "cacheBounded s"
  shows "cacheBounded (Add rf s h sg pk) \<and> maxEntries (Add rf s h sg pk) = maxEntries s"
proof -
  have "length (AList.update h e (AList.delete (rf (validSigs s)) (validSigs s))) \<le> maxEntries s"
    if "maxEntries s \<noteq> 0" "length (validSigs s) + 1 > maxEntries s" for e
  proof -
    have "validSigs s \<noteq> []" using that assms(2) by auto
    then show ?thesis
      using assms that gomap_length_delete [of "validSigs s" "rf (validSigs s)"]
        gomap_length_update [of "AList.delete (rf (validSigs s)) (validSigs s)" h e]
      by (simp add: yieldsKey_def cacheBounded_def)
  qed
  moreover have "length (AList.update h e (validSigs s)) \<le> maxEntries s"
    if "\<not> length (validSigs s) + 1 > maxEntries s" for e
    using assms(2) that gomap_length_update [of "validSigs s" h e] by (simp add: cacheBounded_def)
  ultimately show ?thesis
    using assms(2) by (auto simp: Add_def Let_def cacheBounded_def)
qed

section \<open>Properties\<close>

text \<open>C20. The signature cache never changes a verdict and never outgrows its limit: starting from a
  new cache, any sequence of verifications through it, with any choice of evicted entries, answers
  each query exactly as direct verification does, and leaves at most the configured number of
  entries.\<close>

theorem sigCache_transparent:
  assumes "lawful lib" and "yieldsKey rf"
  shows "\<exists>c. verifyAll (queryKnown lib) (queryAdd rf) (queryVerify lib) (Some (NewSigCache n)) ks =
               (map (queryVerify lib) ks, Some c) \<and> length (validSigs c) \<le> n"
proof -
  have inv: "\<exists>c'. snd (verifyAll (queryKnown lib) (queryAdd rf) (queryVerify lib) (Some c) ks) = Some c' \<and>
      cacheBounded c' \<and> maxEntries c' = maxEntries c" if "cacheBounded c" for c
    using that
  proof (induction ks arbitrary: c)
    case (Cons k ks)
    have "cacheBounded (queryAdd rf c k)" "maxEntries (queryAdd rf c k) = maxEntries c"
      using cacheBounded_Add [OF assms(2) Cons.prems] by (simp_all add: queryAdd_def split: prod.split)
    then show ?case
      using Cons.IH [of c] Cons.IH [of "queryAdd rf c k"] Cons.prems
      by (auto simp: cachedVerify_def split: prod.split)
  qed simp
  have "cacheBounded (NewSigCache n)"
    by (simp add: cacheBounded_def NewSigCache_def)
  then obtain c where "snd (verifyAll (queryKnown lib) (queryAdd rf) (queryVerify lib) (Some (NewSigCache n)) ks) = Some c"
      "cacheBounded c" "maxEntries c = n"
    using inv [of "NewSigCache n"] by (auto simp: NewSigCache_def)
  then show ?thesis
    using signatures.verifyAll_verifies [of lib "Some (NewSigCache n)" rf ks] assms(1)
    by (metis cacheBounded_def cacheSound_New option.pred_inject(2) prod.collapse)
qed

definition exampleLib :: "(nat, nat) secp256k1" where
  "exampleLib = \<lparr>DeserializePubKey = (\<lambda>b. Some (length b)), DeserializeSignatureFromSlice = (\<lambda>b. Some (length b)),
     Verify = (\<lambda>pk h sg. pk = sg), PubKey_IsEqual = (=), Signature_IsEqual = (=)\<rparr>"

definition firstKey :: "('pk, 'sg) range_first" where
  "firstKey m = fst (hd m)"

theorem sigCache_transparent_witness:
  "\<exists>c. verifyAll (queryKnown exampleLib) (queryAdd firstKey) (queryVerify exampleLib) (Some (NewSigCache 1))
         [([1], 5, 5), ([1], 5, 5), ([2], 6, 7)] = ([True, True, False], Some c) \<and> length (validSigs c) \<le> 1"
  using sigCache_transparent [of exampleLib firstKey 1 "[([1], 5, 5), ([1], 5, 5), ([2], 6, 7)]"]
  by (simp add: exampleLib_def lawful_def yieldsKey_def firstKey_def queryVerify_def del: verifyAll.simps)

end
