(* ===== verification/Script_Machine.thy ===== *)
theory Script_Machine
  imports Script_Parse Script_Stack Sig_Cache Tx_Hashing
begin

text \<open>
  The state of the script engine (txscript/engine.go) and the opcode handlers that do not check
  signatures (txscript/opcode.go).

  A handler runs on the engine and either returns or fails; a failure carries the engine it leaves
  behind, because the signature caches survive it. On a failure the stacks are those before the
  stack operation that failed: the source says that the engine is undefined after an error.
  Failures are the script errors of the source, errors of other packages, and Go panics.
\<close>

named_theorems vm_frame \<open>computations that leave the program counter and the transaction alone\<close>
named_theorems vm_safe \<open>computations that do not panic and keep the stack limits\<close>
named_theorems vm_strong \<open>the same, with the exact value returned\<close>
named_theorems vm_sim \<open>computations whose results do not depend on the caches\<close>

section \<open>The engine\<close>

record ('pk, 'sg) Engine =
  scriptVersion :: u16
  scripts :: "parsedOpcode list list"
  scriptIdx :: nat
  scriptOff :: nat
  dstack :: stack
  astack :: stack
  engineTx :: DomainTransaction
  txIdx :: nat
  condStack :: "int list"
  numOps :: int
  flags :: u32
  sigCache :: "('pk, 'sg) SigCache option"
  sigCacheECDSA :: "('pk, 'sg) SigCache option"
  sigHashReusedValues :: "SighashReusedValues option"
  isP2SH :: bool
  savedFirstStack :: "bytes list"

abbreviation (input) OpCondFalse :: int where "OpCondFalse \<equiv> 0"
abbreviation (input) OpCondTrue :: int where "OpCondTrue \<equiv> 1"
abbreviation (input) OpCondSkip :: int where "OpCondSkip \<equiv> 2"

definition isBranchExecuting :: "('pk, 'sg) Engine \<Rightarrow> bool" where
  "isBranchExecuting vm = (if length (condStack vm) = 0 then True else last (condStack vm) = OpCondTrue)"

section \<open>Computations on the engine\<close>

type_synonym ('a, 'pk, 'sg) vm =
  "('pk, 'sg) Engine \<Rightarrow> (script_failure \<times> ('pk, 'sg) Engine) + ('a \<times> ('pk, 'sg) Engine)"

definition vret :: "'a \<Rightarrow> ('a, 'pk, 'sg) vm" where
  "vret x = (\<lambda>vm. Inr (x, vm))"

definition vbind :: "('a, 'pk, 'sg) vm \<Rightarrow> ('a \<Rightarrow> ('b, 'pk, 'sg) vm) \<Rightarrow> ('b, 'pk, 'sg) vm" where
  "vbind m f = (\<lambda>vm. rbind (m vm) (\<lambda>(x, vm). f x vm))"

definition vfail :: "script_failure \<Rightarrow> ('a, 'pk, 'sg) vm" where
  "vfail e = (\<lambda>vm. Inl (e, vm))"

abbreviation scriptError :: "ErrorCode \<Rightarrow> ('a, 'pk, 'sg) vm" where
  "scriptError c \<equiv> vfail (ScriptError c)"

definition vlift :: "script_failure + 'a \<Rightarrow> ('a, 'pk, 'sg) vm" where
  "vlift r = (\<lambda>vm. case r of Inl e \<Rightarrow> Inl (e, vm) | Inr x \<Rightarrow> Inr (x, vm))"

definition vget :: "(('pk, 'sg) Engine \<Rightarrow> 'a) \<Rightarrow> ('a, 'pk, 'sg) vm" where
  "vget f = (\<lambda>vm. Inr (f vm, vm))"

definition vmodify :: "(('pk, 'sg) Engine \<Rightarrow> ('pk, 'sg) Engine) \<Rightarrow> (unit, 'pk, 'sg) vm" where
  "vmodify f = (\<lambda>vm. Inr ((), f vm))"

text \<open>Stack operations on the data stack and on the alternative stack.\<close>

definition onDstack :: "(stack \<Rightarrow> script_failure + ('a \<times> stack)) \<Rightarrow> ('a, 'pk, 'sg) vm" where
  "onDstack f = (\<lambda>vm. case f (dstack vm) of Inl e \<Rightarrow> Inl (e, vm) | Inr (x, s) \<Rightarrow> Inr (x, vm\<lparr>dstack := s\<rparr>))"

definition onAstack :: "(stack \<Rightarrow> script_failure + ('a \<times> stack)) \<Rightarrow> ('a, 'pk, 'sg) vm" where
  "onAstack f = (\<lambda>vm. case f (astack vm) of Inl e \<Rightarrow> Inl (e, vm) | Inr (x, s) \<Rightarrow> Inr (x, vm\<lparr>astack := s\<rparr>))"

definition doDstack :: "(stack \<Rightarrow> script_failure + stack) \<Rightarrow> (unit, 'pk, 'sg) vm" where
  "doDstack f = onDstack (\<lambda>s. rbind (f s) (\<lambda>s. Inr ((), s)))"

definition peekDstack :: "(stack \<Rightarrow> script_failure + 'a) \<Rightarrow> ('a, 'pk, 'sg) vm" where
  "peekDstack f = onDstack (\<lambda>s. rbind (f s) (\<lambda>x. Inr (x, s)))"

abbreviation popByteArray :: "(bytes, 'pk, 'sg) vm" where "popByteArray \<equiv> onDstack PopByteArray"
abbreviation popInt :: "(scriptNum, 'pk, 'sg) vm" where "popInt \<equiv> onDstack PopInt"
abbreviation popBool :: "(bool, 'pk, 'sg) vm" where "popBool \<equiv> onDstack PopBool"

abbreviation pushByteArray :: "bytes \<Rightarrow> (unit, 'pk, 'sg) vm" where
  "pushByteArray so \<equiv> doDstack (\<lambda>s. Inr (PushByteArray s so))"
abbreviation pushInt :: "scriptNum \<Rightarrow> (unit, 'pk, 'sg) vm" where
  "pushInt n \<equiv> doDstack (\<lambda>s. PushInt s n)"
abbreviation pushBool :: "bool \<Rightarrow> (unit, 'pk, 'sg) vm" where
  "pushBool b \<equiv> doDstack (\<lambda>s. Inr (PushBool s b))"

section \<open>Handlers: constants and control\<close>

definition opcodeDisabled :: "parsedOpcode \<Rightarrow> (unit, 'pk, 'sg) vm" where
  "opcodeDisabled pop = scriptError ErrDisabledOpcode"

definition opcodeReserved :: "parsedOpcode \<Rightarrow> (unit, 'pk, 'sg) vm" where
  "opcodeReserved pop = scriptError ErrReservedOpcode"

definition opcodeInvalid :: "parsedOpcode \<Rightarrow> (unit, 'pk, 'sg) vm" where
  "opcodeInvalid pop = scriptError ErrReservedOpcode"

definition opcodeFalse :: "parsedOpcode \<Rightarrow> (unit, 'pk, 'sg) vm" where
  "opcodeFalse pop = pushByteArray []"

definition opcodePushData :: "parsedOpcode \<Rightarrow> (unit, 'pk, 'sg) vm" where
  "opcodePushData pop = pushByteArray (popData pop)"

definition opcode1Negate :: "parsedOpcode \<Rightarrow> (unit, 'pk, 'sg) vm" where
  "opcode1Negate pop = pushInt (- 1)"

definition opcodeN :: "parsedOpcode \<Rightarrow> (unit, 'pk, 'sg) vm" where
  "opcodeN pop = pushInt (uint (opValue (popOpcode pop) - (Op1 - 1)))"

definition opcodeNop :: "parsedOpcode \<Rightarrow> (unit, 'pk, 'sg) vm" where
  "opcodeNop pop = vret ()"

definition popIfBool :: "(bool, 'pk, 'sg) vm" where
  "popIfBool =
     vbind popByteArray (\<lambda>so.
       if length so = 1 \<and> so ! 0 = 1 then vret True
       else if length so = 0 then vret False
       else scriptError ErrMinimalIf)"

definition pushCond :: "int \<Rightarrow> (unit, 'pk, 'sg) vm" where
  "pushCond c = vmodify (\<lambda>vm. vm\<lparr>condStack := condStack vm @ [c]\<rparr>)"

definition opcodeIf :: "parsedOpcode \<Rightarrow> (unit, 'pk, 'sg) vm" where
  "opcodeIf pop =
     vbind (vget isBranchExecuting) (\<lambda>executing.
       if executing
       then vbind popIfBool (\<lambda>ok. pushCond (if ok then OpCondTrue else OpCondFalse))
       else pushCond OpCondSkip)"

definition opcodeNotIf :: "parsedOpcode \<Rightarrow> (unit, 'pk, 'sg) vm" where
  "opcodeNotIf pop =
     vbind (vget isBranchExecuting) (\<lambda>executing.
       if executing
       then vbind popIfBool (\<lambda>ok. pushCond (if \<not> ok then OpCondTrue else OpCondFalse))
       else pushCond OpCondSkip)"

definition opcodeElse :: "parsedOpcode \<Rightarrow> (unit, 'pk, 'sg) vm" where
  "opcodeElse pop =
     vbind (vget condStack) (\<lambda>cs.
       if length cs = 0 then scriptError ErrUnbalancedConditional
       else
         let conditionalIdx = length cs - 1
         in if cs ! conditionalIdx = OpCondTrue
            then vmodify (\<lambda>vm. vm\<lparr>condStack := cs[conditionalIdx := OpCondFalse]\<rparr>)
            else if cs ! conditionalIdx = OpCondFalse
            then vmodify (\<lambda>vm. vm\<lparr>condStack := cs[conditionalIdx := OpCondTrue]\<rparr>)
            else vret ())"

definition opcodeEndif :: "parsedOpcode \<Rightarrow> (unit, 'pk, 'sg) vm" where
  "opcodeEndif pop =
     vbind (vget condStack) (\<lambda>cs.
       if length cs = 0 then scriptError ErrUnbalancedConditional
       else vmodify (\<lambda>vm. vm\<lparr>condStack := take (length cs - 1) cs\<rparr>))"

definition abstractVerify :: "parsedOpcode \<Rightarrow> ErrorCode \<Rightarrow> (unit, 'pk, 'sg) vm" where
  "abstractVerify pop c = vbind popBool (\<lambda>verified. if \<not> verified then scriptError c else vret ())"

definition opcodeVerify :: "parsedOpcode \<Rightarrow> (unit, 'pk, 'sg) vm" where
  "opcodeVerify pop = abstractVerify pop ErrVerify"

definition opcodeReturn :: "parsedOpcode \<Rightarrow> (unit, 'pk, 'sg) vm" where
  "opcodeReturn pop = scriptError ErrEarlyReturn"

section \<open>Handlers: lock times\<close>

definition verifyLockTime :: "u64 \<Rightarrow> u64 \<Rightarrow> script_failure + unit" where
  "verifyLockTime txLockTime lockTime =
     (if lockTime > txLockTime then Inl (ScriptError ErrUnsatisfiedLockTime) else Inr ())"

definition verifyLockTimeThreshold :: "u64 \<Rightarrow> u64 \<Rightarrow> u64 \<Rightarrow> script_failure + unit" where
  "verifyLockTimeThreshold txLockTime threshold lockTime =
     (if \<not> ((txLockTime < threshold \<and> lockTime < threshold) \<or>
             (txLockTime \<ge> threshold \<and> lockTime \<ge> threshold))
      then Inl (ScriptError ErrUnsatisfiedLockTime) else Inr ())"

definition verifyLockTimeWithThreshold :: "u64 \<Rightarrow> u64 \<Rightarrow> u64 \<Rightarrow> script_failure + unit" where
  "verifyLockTimeWithThreshold txLockTime threshold lockTime =
     rbind (verifyLockTimeThreshold txLockTime threshold lockTime) (\<lambda>_. verifyLockTime txLockTime lockTime)"

text \<open>The value of an operand of at most eight bytes, padded with zeros: \<open>LittleEndian.Uint64\<close>.\<close>

definition paddedUint64 :: "bytes \<Rightarrow> u64" where
  "paddedUint64 bs = word_of_nat (le_val (if length bs < 8 then bs @ replicate (8 - length bs) 0 else bs))"

text \<open>The input that is spent; an index out of range panics.\<close>

definition engineInput :: "('pk, 'sg) Engine \<Rightarrow> script_failure + DomainTransactionInput" where
  "engineInput vm =
     (if txIdx vm < length (Inputs (engineTx vm)) then Inr (Inputs (engineTx vm) ! txIdx vm) else Inl GoPanic)"

definition opcodeCheckLockTimeVerify :: "parsedOpcode \<Rightarrow> (unit, 'pk, 'sg) vm" where
  "opcodeCheckLockTimeVerify pop =
     vbind popByteArray (\<lambda>lockTimeBytes.
       if length lockTimeBytes > 8 then scriptError ErrNumberTooBig
       else
         let stackLockTime = paddedUint64 lockTimeBytes
         in vbind (vget engineTx) (\<lambda>tx.
            vbind (vlift (verifyLockTimeWithThreshold (LockTime tx) LockTimeThreshold stackLockTime)) (\<lambda>_.
            vbind (vget engineInput) (\<lambda>input. vbind (vlift input) (\<lambda>input.
              if Sequence input = MaxTxInSequenceNum then scriptError ErrUnsatisfiedLockTime
              else vret ())))))"

definition opcodeCheckSequenceVerify :: "parsedOpcode \<Rightarrow> (unit, 'pk, 'sg) vm" where
  "opcodeCheckSequenceVerify pop =
     vbind popByteArray (\<lambda>sequenceBytes.
       if length sequenceBytes > 8 then scriptError ErrNumberTooBig
       else
         let stackSequence = paddedUint64 sequenceBytes
         in if stackSequence AND SequenceLockTimeDisabled \<noteq> 0 then vret ()
            else vbind (vget engineInput) (\<lambda>input. vbind (vlift input) (\<lambda>input.
              if Sequence input AND SequenceLockTimeDisabled \<noteq> 0 then scriptError ErrUnsatisfiedLockTime
              else vlift (verifyLockTime (Sequence input AND SequenceLockTimeMask)
                            (stackSequence AND SequenceLockTimeMask)))))"

section \<open>Handlers: stack\<close>

definition opcodeToAltStack :: "parsedOpcode \<Rightarrow> (unit, 'pk, 'sg) vm" where
  "opcodeToAltStack pop = vbind popByteArray (\<lambda>so. onAstack (\<lambda>s. Inr ((), PushByteArray s so)))"

definition opcodeFromAltStack :: "parsedOpcode \<Rightarrow> (unit, 'pk, 'sg) vm" where
  "opcodeFromAltStack pop = vbind (onAstack PopByteArray) pushByteArray"

definition opcode2Drop :: "parsedOpcode \<Rightarrow> (unit, 'pk, 'sg) vm" where
  "opcode2Drop pop = doDstack (\<lambda>s. DropN s 2)"

definition opcode2Dup :: "parsedOpcode \<Rightarrow> (unit, 'pk, 'sg) vm" where
  "opcode2Dup pop = doDstack (\<lambda>s. DupN s 2)"

definition opcode3Dup :: "parsedOpcode \<Rightarrow> (unit, 'pk, 'sg) vm" where
  "opcode3Dup pop = doDstack (\<lambda>s. DupN s 3)"

definition opcode2Over :: "parsedOpcode \<Rightarrow> (unit, 'pk, 'sg) vm" where
  "opcode2Over pop = doDstack (\<lambda>s. OverN s 2)"

definition opcode2Rot :: "parsedOpcode \<Rightarrow> (unit, 'pk, 'sg) vm" where
  "opcode2Rot pop = doDstack (\<lambda>s. RotN s 2)"

definition opcode2Swap :: "parsedOpcode \<Rightarrow> (unit, 'pk, 'sg) vm" where
  "opcode2Swap pop = doDstack (\<lambda>s. SwapN s 2)"

definition opcodeIfDup :: "parsedOpcode \<Rightarrow> (unit, 'pk, 'sg) vm" where
  "opcodeIfDup pop =
     vbind (peekDstack (\<lambda>s. PeekByteArray s 0)) (\<lambda>so. if asBool so then pushByteArray so else vret ())"

definition opcodeDepth :: "parsedOpcode \<Rightarrow> (unit, 'pk, 'sg) vm" where
  "opcodeDepth pop = vbind (peekDstack Depth) pushInt"

definition opcodeDrop :: "parsedOpcode \<Rightarrow> (unit, 'pk, 'sg) vm" where
  "opcodeDrop pop = doDstack (\<lambda>s. DropN s 1)"

definition opcodeDup :: "parsedOpcode \<Rightarrow> (unit, 'pk, 'sg) vm" where
  "opcodeDup pop = doDstack (\<lambda>s. DupN s 1)"

definition opcodeNip :: "parsedOpcode \<Rightarrow> (unit, 'pk, 'sg) vm" where
  "opcodeNip pop = doDstack (\<lambda>s. NipN s 1)"

definition opcodeOver :: "parsedOpcode \<Rightarrow> (unit, 'pk, 'sg) vm" where
  "opcodeOver pop = doDstack (\<lambda>s. OverN s 1)"

definition opcodePick :: "parsedOpcode \<Rightarrow> (unit, 'pk, 'sg) vm" where
  "opcodePick pop = vbind popInt (\<lambda>val. doDstack (\<lambda>s. PickN s (Int32 val)))"

definition opcodeRoll :: "parsedOpcode \<Rightarrow> (unit, 'pk, 'sg) vm" where
  "opcodeRoll pop = vbind popInt (\<lambda>val. doDstack (\<lambda>s. RollN s (Int32 val)))"

definition opcodeRot :: "parsedOpcode \<Rightarrow> (unit, 'pk, 'sg) vm" where
  "opcodeRot pop = doDstack (\<lambda>s. RotN s 1)"

definition opcodeSwap :: "parsedOpcode \<Rightarrow> (unit, 'pk, 'sg) vm" where
  "opcodeSwap pop = doDstack (\<lambda>s. SwapN s 1)"

definition opcodeTuck :: "parsedOpcode \<Rightarrow> (unit, 'pk, 'sg) vm" where
  "opcodeTuck pop = doDstack Tuck"

section \<open>Handlers: splice and comparison\<close>

definition opcodeSize :: "parsedOpcode \<Rightarrow> (unit, 'pk, 'sg) vm" where
  "opcodeSize pop = vbind (peekDstack (\<lambda>s. PeekByteArray s 0)) (\<lambda>so. pushInt (int (length so)))"

definition opcodeEqual :: "parsedOpcode \<Rightarrow> (unit, 'pk, 'sg) vm" where
  "opcodeEqual pop = vbind popByteArray (\<lambda>a. vbind popByteArray (\<lambda>b. pushBool (a = b)))"

definition opcodeEqualVerify :: "parsedOpcode \<Rightarrow> (unit, 'pk, 'sg) vm" where
  "opcodeEqualVerify pop = vbind (opcodeEqual pop) (\<lambda>_. abstractVerify pop ErrEqualVerify)"

section \<open>Handlers: numbers\<close>

text \<open>Script numbers are \<open>int64\<close>, so the arithmetic wraps.\<close>

definition opcode1Add :: "parsedOpcode \<Rightarrow> (unit, 'pk, 'sg) vm" where
  "opcode1Add pop = vbind popInt (\<lambda>m. pushInt (wrap64 (m + 1)))"

definition opcode1Sub :: "parsedOpcode \<Rightarrow> (unit, 'pk, 'sg) vm" where
  "opcode1Sub pop = vbind popInt (\<lambda>m. pushInt (wrap64 (m - 1)))"

definition opcodeNegate :: "parsedOpcode \<Rightarrow> (unit, 'pk, 'sg) vm" where
  "opcodeNegate pop = vbind popInt (\<lambda>m. pushInt (wrap64 (- m)))"

definition opcodeAbs :: "parsedOpcode \<Rightarrow> (unit, 'pk, 'sg) vm" where
  "opcodeAbs pop = vbind popInt (\<lambda>m. pushInt (if m < 0 then wrap64 (- m) else m))"

definition opcodeNot :: "parsedOpcode \<Rightarrow> (unit, 'pk, 'sg) vm" where
  "opcodeNot pop = vbind popInt (\<lambda>m. if m = 0 then pushInt 1 else pushInt 0)"

definition opcode0NotEqual :: "parsedOpcode \<Rightarrow> (unit, 'pk, 'sg) vm" where
  "opcode0NotEqual pop = vbind popInt (\<lambda>m. pushInt (if m \<noteq> 0 then 1 else m))"

definition opcodeAdd :: "parsedOpcode \<Rightarrow> (unit, 'pk, 'sg) vm" where
  "opcodeAdd pop = vbind popInt (\<lambda>v0. vbind popInt (\<lambda>v1. pushInt (wrap64 (v0 + v1))))"

definition opcodeSub :: "parsedOpcode \<Rightarrow> (unit, 'pk, 'sg) vm" where
  "opcodeSub pop = vbind popInt (\<lambda>v0. vbind popInt (\<lambda>v1. pushInt (wrap64 (v1 - v0))))"

definition opcodeBoolAnd :: "parsedOpcode \<Rightarrow> (unit, 'pk, 'sg) vm" where
  "opcodeBoolAnd pop =
     vbind popInt (\<lambda>v0. vbind popInt (\<lambda>v1. if v0 \<noteq> 0 \<and> v1 \<noteq> 0 then pushInt 1 else pushInt 0))"

definition opcodeBoolOr :: "parsedOpcode \<Rightarrow> (unit, 'pk, 'sg) vm" where
  "opcodeBoolOr pop =
     vbind popInt (\<lambda>v0. vbind popInt (\<lambda>v1. if v0 \<noteq> 0 \<or> v1 \<noteq> 0 then pushInt 1 else pushInt 0))"

definition opcodeNumEqual :: "parsedOpcode \<Rightarrow> (unit, 'pk, 'sg) vm" where
  "opcodeNumEqual pop =
     vbind popInt (\<lambda>v0. vbind popInt (\<lambda>v1. if v0 = v1 then pushInt 1 else pushInt 0))"

definition opcodeNumEqualVerify :: "parsedOpcode \<Rightarrow> (unit, 'pk, 'sg) vm" where
  "opcodeNumEqualVerify pop = vbind (opcodeNumEqual pop) (\<lambda>_. abstractVerify pop ErrNumEqualVerify)"

definition opcodeNumNotEqual :: "parsedOpcode \<Rightarrow> (unit, 'pk, 'sg) vm" where
  "opcodeNumNotEqual pop =
     vbind popInt (\<lambda>v0. vbind popInt (\<lambda>v1. if v0 \<noteq> v1 then pushInt 1 else pushInt 0))"

definition opcodeLessThan :: "parsedOpcode \<Rightarrow> (unit, 'pk, 'sg) vm" where
  "opcodeLessThan pop =
     vbind popInt (\<lambda>v0. vbind popInt (\<lambda>v1. if v1 < v0 then pushInt 1 else pushInt 0))"

definition opcodeGreaterThan :: "parsedOpcode \<Rightarrow> (unit, 'pk, 'sg) vm" where
  "opcodeGreaterThan pop =
     vbind popInt (\<lambda>v0. vbind popInt (\<lambda>v1. if v1 > v0 then pushInt 1 else pushInt 0))"

definition opcodeLessThanOrEqual :: "parsedOpcode \<Rightarrow> (unit, 'pk, 'sg) vm" where
  "opcodeLessThanOrEqual pop =
     vbind popInt (\<lambda>v0. vbind popInt (\<lambda>v1. if v1 \<le> v0 then pushInt 1 else pushInt 0))"

definition opcodeGreaterThanOrEqual :: "parsedOpcode \<Rightarrow> (unit, 'pk, 'sg) vm" where
  "opcodeGreaterThanOrEqual pop =
     vbind popInt (\<lambda>v0. vbind popInt (\<lambda>v1. if v1 \<ge> v0 then pushInt 1 else pushInt 0))"

definition opcodeMin :: "parsedOpcode \<Rightarrow> (unit, 'pk, 'sg) vm" where
  "opcodeMin pop =
     vbind popInt (\<lambda>v0. vbind popInt (\<lambda>v1. if v1 < v0 then pushInt v1 else pushInt v0))"

definition opcodeMax :: "parsedOpcode \<Rightarrow> (unit, 'pk, 'sg) vm" where
  "opcodeMax pop =
     vbind popInt (\<lambda>v0. vbind popInt (\<lambda>v1. if v1 > v0 then pushInt v1 else pushInt v0))"

definition opcodeWithin :: "parsedOpcode \<Rightarrow> (unit, 'pk, 'sg) vm" where
  "opcodeWithin pop =
     vbind popInt (\<lambda>maxVal. vbind popInt (\<lambda>minVal. vbind popInt (\<lambda>x.
       if x \<ge> minVal \<and> x < maxVal then pushInt 1 else pushInt 0)))"

end
