(* ===== verification/Script_Checksig.thy ===== *)
theory Script_Checksig
  imports Script_Machine Go_Sha256
begin

text \<open>
  The hashing and signature opcodes (txscript/opcode.go) and the encoding checks of
  txscript/engine.go they use.

  The source has each signature opcode twice, for Schnorr and for ECDSA, with the same text up to
  the functions of the scheme. The model has one definition per pair with the scheme as a record,
  instantiated twice. The secp256k1 and blake2b packages, the keyed hash and the order of map
  iteration are parameters, gathered in \<open>script_env\<close>.
\<close>

section \<open>Parameters\<close>

record ('pk, 'sg) script_env =
  blake3 :: keyed_hash
  blake2b_Sum256 :: "bytes \<Rightarrow> bytes"
  secp_schnorr :: "('pk, 'sg) secp256k1"
  secp_ecdsa :: "('pk, 'sg) secp256k1"
  rangeFirst :: "('pk, 'sg) range_first"

definition checkPubKeyEncoding :: "bytes \<Rightarrow> script_failure + unit" where
  "checkPubKeyEncoding pubKey = (if length pubKey = 32 then Inr () else Inl (ScriptError ErrPubKeyFormat))"

definition checkPubKeyEncodingECDSA :: "bytes \<Rightarrow> script_failure + unit" where
  "checkPubKeyEncodingECDSA pubKey = (if length pubKey = 33 then Inr () else Inl (ScriptError ErrPubKeyFormat))"

definition checkSignatureLength :: "bytes \<Rightarrow> script_failure + unit" where
  "checkSignatureLength sg = (if length sg \<noteq> 64 then Inl (ScriptError ErrSigLength) else Inr ())"

definition checkSignatureLengthECDSA :: "bytes \<Rightarrow> script_failure + unit" where
  "checkSignatureLengthECDSA sg = (if length sg \<noteq> 64 then Inl (ScriptError ErrSigLength) else Inr ())"

section \<open>Signature schemes\<close>

text \<open>What differs between the two copies of the code: the library functions, the encoding checks,
  the signature hash and the cache.\<close>

record ('pk, 'sg) sig_scheme =
  schemeLib :: "('pk, 'sg) secp256k1"
  schemeCheckPubKey :: "bytes \<Rightarrow> script_failure + unit"
  schemeCheckSigLength :: "bytes \<Rightarrow> script_failure + unit"
  schemeSigHash :: "DomainTransaction \<Rightarrow> nat \<Rightarrow> SigHashType \<Rightarrow> SighashReusedValues
                    \<Rightarrow> sighash_error + (DomainHash \<times> SighashReusedValues)"
  schemeCache :: "('pk, 'sg) Engine \<Rightarrow> ('pk, 'sg) SigCache option"
  schemeSetCache :: "('pk, 'sg) SigCache option \<Rightarrow> ('pk, 'sg) Engine \<Rightarrow> ('pk, 'sg) Engine"

definition schnorrScheme :: "('pk, 'sg) script_env \<Rightarrow> ('pk, 'sg) sig_scheme" where
  "schnorrScheme env =
     \<lparr>schemeLib = secp_schnorr env, schemeCheckPubKey = checkPubKeyEncoding,
      schemeCheckSigLength = checkSignatureLength,
      schemeSigHash = CalculateSignatureHashSchnorr (blake3 env),
      schemeCache = sigCache, schemeSetCache = (\<lambda>c vm. vm\<lparr>sigCache := c\<rparr>)\<rparr>"

definition ecdsaScheme :: "('pk, 'sg) script_env \<Rightarrow> ('pk, 'sg) sig_scheme" where
  "ecdsaScheme env =
     \<lparr>schemeLib = secp_ecdsa env, schemeCheckPubKey = checkPubKeyEncodingECDSA,
      schemeCheckSigLength = checkSignatureLengthECDSA,
      schemeSigHash = CalculateSignatureHashECDSA (blake3 env),
      schemeCache = sigCacheECDSA, schemeSetCache = (\<lambda>c vm. vm\<lparr>sigCacheECDSA := c\<rparr>)\<rparr>"

text \<open>The call of the signature hash function with the values reused between calls. The result is
  None for an error; a missing input, UTXO entry or pointer to the reused values panics.\<close>

definition engineSigHash :: "('pk, 'sg) sig_scheme \<Rightarrow> SigHashType \<Rightarrow> (DomainHash option, 'pk, 'sg) vm" where
  "engineSigHash scheme hashType = (\<lambda>vm.
     if \<not> IsStandardSigHashType hashType then Inr (None, vm)
     else
       (case sigHashReusedValues vm of
          None \<Rightarrow> Inl (GoPanic, vm)
        | Some reused \<Rightarrow>
            (case schemeSigHash scheme (engineTx vm) (txIdx vm) hashType reused of
               Inl e \<Rightarrow> (if e = NonStandardHashType then Inr (None, vm) else Inl (GoPanic, vm))
             | Inr (h, reused) \<Rightarrow> Inr (Some h, vm\<lparr>sigHashReusedValues := Some reused\<rparr>))))"

text \<open>Verification through the cache of the scheme.\<close>

definition engineVerify ::
    "('pk, 'sg) script_env \<Rightarrow> ('pk, 'sg) sig_scheme \<Rightarrow> DomainHash \<Rightarrow> 'sg \<Rightarrow> 'pk \<Rightarrow> (bool, 'pk, 'sg) vm" where
  "engineVerify env scheme secpHash sg pubKey = (\<lambda>vm.
     case cachedVerify (queryKnown (schemeLib scheme)) (queryAdd (rangeFirst env)) (queryVerify (schemeLib scheme))
            (schemeCache scheme vm) (secpHash, sg, pubKey) of
       (valid, cache) \<Rightarrow> Inr (valid, schemeSetCache scheme cache vm))"

section \<open>Hash opcodes\<close>

definition opcodeSha256 :: "parsedOpcode \<Rightarrow> (unit, 'pk, 'sg) vm" where
  "opcodeSha256 pop = vbind popByteArray (\<lambda>buf. pushByteArray (sha256_Sum256 buf))"

definition opcodeBlake2b :: "('pk, 'sg) script_env \<Rightarrow> parsedOpcode \<Rightarrow> (unit, 'pk, 'sg) vm" where
  "opcodeBlake2b env pop = vbind popByteArray (\<lambda>buf. pushByteArray (blake2b_Sum256 env buf))"

section \<open>One signature\<close>

definition checkSigWith ::
    "('pk, 'sg) script_env \<Rightarrow> ('pk, 'sg) sig_scheme \<Rightarrow> parsedOpcode \<Rightarrow> (unit, 'pk, 'sg) vm" where
  "checkSigWith env scheme pop =
     vbind popByteArray (\<lambda>pkBytes.
     vbind popByteArray (\<lambda>fullSigBytes.
       if length fullSigBytes < 1 then pushBool False
       else
         let hashType = last fullSigBytes; sigBytes = butlast fullSigBytes
         in if \<not> IsStandardSigHashType hashType then scriptError ErrInvalidSigHashType
            else
              vbind (vlift (schemeCheckSigLength scheme sigBytes)) (\<lambda>_.
              vbind (vlift (schemeCheckPubKey scheme pkBytes)) (\<lambda>_.
              vbind (engineSigHash scheme hashType) (\<lambda>sigHash.
                (case sigHash of
                   None \<Rightarrow> pushBool False
                 | Some secpHash \<Rightarrow>
                     (case DeserializePubKey (schemeLib scheme) pkBytes of
                        None \<Rightarrow> pushBool False
                      | Some pubKey \<Rightarrow>
                          (case DeserializeSignatureFromSlice (schemeLib scheme) sigBytes of
                             None \<Rightarrow> pushBool False
                           | Some sg \<Rightarrow>
                               vbind (engineVerify env scheme secpHash sg pubKey) (\<lambda>valid.
                                 if \<not> valid \<and> length sigBytes > 0 then scriptError ErrNullFail
                                 else pushBool valid)))))))))"

definition opcodeCheckSig :: "('pk, 'sg) script_env \<Rightarrow> parsedOpcode \<Rightarrow> (unit, 'pk, 'sg) vm" where
  "opcodeCheckSig env pop = checkSigWith env (schnorrScheme env) pop"

definition opcodeCheckSigECDSA :: "('pk, 'sg) script_env \<Rightarrow> parsedOpcode \<Rightarrow> (unit, 'pk, 'sg) vm" where
  "opcodeCheckSigECDSA env pop = checkSigWith env (ecdsaScheme env) pop"

definition opcodeCheckSigVerify :: "('pk, 'sg) script_env \<Rightarrow> parsedOpcode \<Rightarrow> (unit, 'pk, 'sg) vm" where
  "opcodeCheckSigVerify env pop = vbind (opcodeCheckSig env pop) (\<lambda>_. abstractVerify pop ErrCheckSigVerify)"

section \<open>Several signatures\<close>

record 'sg parsedSigInfo =
  rawSignature :: bytes
  parsedSignature :: "'sg option"
  parsed :: bool

fun popMany :: "nat \<Rightarrow> (bytes list, 'pk, 'sg) vm" where
  "popMany 0 = vret []"
| "popMany (Suc n) = vbind popByteArray (\<lambda>x. vbind (popMany n) (\<lambda>xs. vret (x # xs)))"

text \<open>The loop over the signatures: \<open>numPubKeys\<close> counts the keys left before the decrement,
  \<open>pubKeyIdx\<close> is the index of the key tried next. The result says whether all signatures were
  matched. An index out of range panics.\<close>

fun multiSigLoop ::
    "('pk, 'sg) script_env \<Rightarrow> ('pk, 'sg) sig_scheme \<Rightarrow> bytes list \<Rightarrow> nat \<Rightarrow> nat \<Rightarrow> nat \<Rightarrow> nat
     \<Rightarrow> 'sg parsedSigInfo list \<Rightarrow> (bool, 'pk, 'sg) vm" where
  "multiSigLoop env scheme pubKeys 0 pubKeyIdx signatureIdx numSignatures sigs =
     vret (numSignatures = 0)"
| "multiSigLoop env scheme pubKeys (Suc numPubKeys) pubKeyIdx signatureIdx numSignatures sigs =
     (if numSignatures = 0 then vret True
      else if numSignatures > numPubKeys then vret False
      else if signatureIdx \<ge> length sigs \<or> pubKeyIdx \<ge> length pubKeys then vfail GoPanic
      else
        let sigInfo = sigs ! signatureIdx; pubKey = pubKeys ! pubKeyIdx; rawSig = rawSignature sigInfo;
            next = multiSigLoop env scheme pubKeys numPubKeys (Suc pubKeyIdx)
        in if length rawSig = 0 then next signatureIdx numSignatures sigs
           else
             let hashType = last rawSig; sg = butlast rawSig;
                 withSig = (\<lambda>parsedSig sigs.
                   vbind (vlift (schemeCheckPubKey scheme pubKey)) (\<lambda>_.
                     (case DeserializePubKey (schemeLib scheme) pubKey of
                        None \<Rightarrow> next signatureIdx numSignatures sigs
                      | Some parsedPubKey \<Rightarrow>
                          vbind (engineSigHash scheme hashType) (\<lambda>sigHash.
                            (case sigHash of
                               None \<Rightarrow> vfail OtherError
                             | Some secpHash \<Rightarrow>
                                 vbind (engineVerify env scheme secpHash parsedSig parsedPubKey) (\<lambda>valid.
                                   if valid then next (Suc signatureIdx) (numSignatures - 1) sigs
                                   else next signatureIdx numSignatures sigs))))))
             in if \<not> parsed sigInfo then
                  (if \<not> IsStandardSigHashType hashType then scriptError ErrInvalidSigHashType
                   else
                     vbind (vlift (schemeCheckSigLength scheme sg)) (\<lambda>_.
                       let ps = DeserializeSignatureFromSlice (schemeLib scheme) sg;
                           sigs = sigs[signatureIdx := sigInfo\<lparr>parsed := True, parsedSignature := ps\<rparr>]
                       in (case ps of
                             None \<Rightarrow> next signatureIdx numSignatures sigs
                           | Some parsedSig \<Rightarrow> withSig parsedSig sigs)))
                else
                  (case parsedSignature sigInfo of
                     None \<Rightarrow> next signatureIdx numSignatures sigs
                   | Some parsedSig \<Rightarrow> withSig parsedSig sigs))"

definition checkMultiSigWith ::
    "('pk, 'sg) script_env \<Rightarrow> ('pk, 'sg) sig_scheme \<Rightarrow> parsedOpcode \<Rightarrow> (unit, 'pk, 'sg) vm" where
  "checkMultiSigWith env scheme pop =
     vbind popInt (\<lambda>numKeys.
       let numPubKeys = Int32 numKeys
       in if numPubKeys < 0 then scriptError ErrInvalidPubKeyCount
          else if numPubKeys > MaxPubKeysPerMultiSig then scriptError ErrInvalidPubKeyCount
          else
            vbind (vmodify (\<lambda>vm. vm\<lparr>numOps := numOps vm + numPubKeys\<rparr>)) (\<lambda>_.
            vbind (vget numOps) (\<lambda>ops.
              if ops > MaxOpsPerScript then scriptError ErrTooManyOperations
              else
                vbind (popMany (nat numPubKeys)) (\<lambda>pubKeys.
                vbind popInt (\<lambda>numSigs.
                  let numSignatures = Int32 numSigs
                  in if numSignatures < 0 then scriptError ErrInvalidSignatureCount
                     else if numSignatures > numPubKeys then scriptError ErrInvalidSignatureCount
                     else
                       vbind (popMany (nat numSignatures)) (\<lambda>rawSigs.
                         let sigs = map (\<lambda>s. \<lparr>rawSignature = s, parsedSignature = None, parsed = False\<rparr>) rawSigs
                         in vbind (multiSigLoop env scheme pubKeys (nat numPubKeys + 1) 0 0 (nat numSignatures) sigs)
                              (\<lambda>success.
                                if \<not> success \<and> list_ex (\<lambda>s. length s > 0) rawSigs then scriptError ErrNullFail
                                else pushBool success)))))))"

definition opcodeCheckMultiSig :: "('pk, 'sg) script_env \<Rightarrow> parsedOpcode \<Rightarrow> (unit, 'pk, 'sg) vm" where
  "opcodeCheckMultiSig env pop = checkMultiSigWith env (schnorrScheme env) pop"

definition opcodeCheckMultiSigECDSA :: "('pk, 'sg) script_env \<Rightarrow> parsedOpcode \<Rightarrow> (unit, 'pk, 'sg) vm" where
  "opcodeCheckMultiSigECDSA env pop = checkMultiSigWith env (ecdsaScheme env) pop"

definition opcodeCheckMultiSigVerify :: "('pk, 'sg) script_env \<Rightarrow> parsedOpcode \<Rightarrow> (unit, 'pk, 'sg) vm" where
  "opcodeCheckMultiSigVerify env pop = vbind (opcodeCheckMultiSig env pop) (\<lambda>_. abstractVerify pop ErrCheckMultiSigVerify)"

end
