(* ===== verification/Script_Engine.thy ===== *)
theory Script_Engine
  imports Script_Checksig
begin

text \<open>
  The script engine (txscript/engine.go): dispatch of opcodes, single steps, execution of all
  scripts of an input, and the set-up of an engine.

  \<open>Step\<close> and \<open>Execute\<close> are the methods of the source. The loop of \<open>Execute\<close> is a function whose
  termination is proved here: every step that does not end the execution either moves on within a
  script or leaves it, and a pay-to-script-hash input adds one script, once.
\<close>

section \<open>Dispatch\<close>

fun runPush :: "push_func \<Rightarrow> parsedOpcode \<Rightarrow> (unit, 'pk, 'sg) vm" where
  "runPush C_False = opcodeFalse"
| "runPush C_PushData = opcodePushData"
| "runPush C_1Negate = opcode1Negate"
| "runPush C_N = opcodeN"

fun runControl :: "control_func \<Rightarrow> parsedOpcode \<Rightarrow> (unit, 'pk, 'sg) vm" where
  "runControl C_Nop = opcodeNop"
| "runControl C_If = opcodeIf"
| "runControl C_NotIf = opcodeNotIf"
| "runControl C_Else = opcodeElse"
| "runControl C_Endif = opcodeEndif"
| "runControl C_Verify = opcodeVerify"
| "runControl C_Return = opcodeReturn"
| "runControl C_CheckLockTimeVerify = opcodeCheckLockTimeVerify"
| "runControl C_CheckSequenceVerify = opcodeCheckSequenceVerify"

fun runStack :: "stack_func \<Rightarrow> parsedOpcode \<Rightarrow> (unit, 'pk, 'sg) vm" where
  "runStack C_ToAltStack = opcodeToAltStack"
| "runStack C_FromAltStack = opcodeFromAltStack"
| "runStack C_2Drop = opcode2Drop"
| "runStack C_2Dup = opcode2Dup"
| "runStack C_3Dup = opcode3Dup"
| "runStack C_2Over = opcode2Over"
| "runStack C_2Rot = opcode2Rot"
| "runStack C_2Swap = opcode2Swap"
| "runStack C_IfDup = opcodeIfDup"
| "runStack C_Depth = opcodeDepth"
| "runStack C_Drop = opcodeDrop"
| "runStack C_Dup = opcodeDup"
| "runStack C_Nip = opcodeNip"
| "runStack C_Over = opcodeOver"
| "runStack C_Pick = opcodePick"
| "runStack C_Roll = opcodeRoll"
| "runStack C_Rot = opcodeRot"
| "runStack C_Swap = opcodeSwap"
| "runStack C_Tuck = opcodeTuck"

fun runSplice :: "splice_func \<Rightarrow> parsedOpcode \<Rightarrow> (unit, 'pk, 'sg) vm" where
  "runSplice C_Size = opcodeSize"
| "runSplice C_Equal = opcodeEqual"
| "runSplice C_EqualVerify = opcodeEqualVerify"

fun runNum :: "num_func \<Rightarrow> parsedOpcode \<Rightarrow> (unit, 'pk, 'sg) vm" where
  "runNum C_1Add = opcode1Add"
| "runNum C_1Sub = opcode1Sub"
| "runNum C_Negate = opcodeNegate"
| "runNum C_Abs = opcodeAbs"
| "runNum C_Not = opcodeNot"
| "runNum C_0NotEqual = opcode0NotEqual"
| "runNum C_Add = opcodeAdd"
| "runNum C_Sub = opcodeSub"
| "runNum C_BoolAnd = opcodeBoolAnd"
| "runNum C_BoolOr = opcodeBoolOr"
| "runNum C_NumEqual = opcodeNumEqual"
| "runNum C_NumEqualVerify = opcodeNumEqualVerify"
| "runNum C_NumNotEqual = opcodeNumNotEqual"
| "runNum C_LessThan = opcodeLessThan"
| "runNum C_GreaterThan = opcodeGreaterThan"
| "runNum C_LessThanOrEqual = opcodeLessThanOrEqual"
| "runNum C_GreaterThanOrEqual = opcodeGreaterThanOrEqual"
| "runNum C_Min = opcodeMin"
| "runNum C_Max = opcodeMax"
| "runNum C_Within = opcodeWithin"

fun runCrypto :: "('pk, 'sg) script_env \<Rightarrow> crypto_func \<Rightarrow> parsedOpcode \<Rightarrow> (unit, 'pk, 'sg) vm" where
  "runCrypto env C_Sha256 = opcodeSha256"
| "runCrypto env C_Blake2b = opcodeBlake2b env"
| "runCrypto env C_CheckSig = opcodeCheckSig env"
| "runCrypto env C_CheckSigECDSA = opcodeCheckSigECDSA env"
| "runCrypto env C_CheckSigVerify = opcodeCheckSigVerify env"
| "runCrypto env C_CheckMultiSig = opcodeCheckMultiSig env"
| "runCrypto env C_CheckMultiSigECDSA = opcodeCheckMultiSigECDSA env"
| "runCrypto env C_CheckMultiSigVerify = opcodeCheckMultiSigVerify env"

fun runOpfunc :: "('pk, 'sg) script_env \<Rightarrow> opfunc \<Rightarrow> parsedOpcode \<Rightarrow> (unit, 'pk, 'sg) vm" where
  "runOpfunc env (FnPush f) = runPush f"
| "runOpfunc env (FnControl f) = runControl f"
| "runOpfunc env (FnStack f) = runStack f"
| "runOpfunc env (FnSplice f) = runSplice f"
| "runOpfunc env (FnNum f) = runNum f"
| "runOpfunc env (FnCrypto f) = runCrypto env f"
| "runOpfunc env FnReserved = opcodeReserved"
| "runOpfunc env FnDisabled = opcodeDisabled"
| "runOpfunc env FnInvalid = opcodeInvalid"

section \<open>Executing an opcode\<close>

text \<open>The operation count and the element size limit.\<close>

definition countOp :: "parsedOpcode \<Rightarrow> (unit, 'pk, 'sg) vm" where
  "countOp pop =
     (if opValue (popOpcode pop) > Op16 then
        vbind (vmodify (\<lambda>vm. vm\<lparr>numOps := numOps vm + 1\<rparr>)) (\<lambda>_.
        vbind (vget numOps) (\<lambda>n. if n > MaxOpsPerScript then scriptError ErrTooManyOperations else vret ()))
      else if length (popData pop) > MaxScriptElementSize then scriptError ErrElementTooBig
      else vret ())"

definition executeOpcode :: "('pk, 'sg) script_env \<Rightarrow> parsedOpcode \<Rightarrow> (unit, 'pk, 'sg) vm" where
  "executeOpcode env pop =
     (if isDisabled pop then scriptError ErrDisabledOpcode
      else if alwaysIllegal pop then scriptError ErrReservedOpcode
      else
        vbind (countOp pop) (\<lambda>_.
        vbind (vget isBranchExecuting) (\<lambda>executing.
          if \<not> executing \<and> \<not> isConditional pop then vret ()
          else
            vbind (if executing \<and> opValue (popOpcode pop) \<noteq> 0 \<and> opValue (popOpcode pop) \<le> OpPushData4
                   then vlift (checkMinimalDataPush pop) else vret ()) (\<lambda>_.
            runOpfunc env (opFunc (popOpcode pop)) pop))))"

section \<open>Stepping\<close>

definition MaxStackSize :: int where
  "MaxStackSize = 244"

definition MaxScriptSize :: nat where
  "MaxScriptSize = 10000"

definition validPC :: "(unit, 'pk, 'sg) vm" where
  "validPC = (\<lambda>vm.
     if scriptIdx vm \<ge> length (scripts vm) then Inl (ScriptError ErrInvalidProgramCounter, vm)
     else if scriptOff vm \<ge> length (scripts vm ! scriptIdx vm) then Inl (ScriptError ErrInvalidProgramCounter, vm)
     else Inr ((), vm))"

text \<open>\<open>getStack\<close> fills an array from the items counted from the top; \<open>setStack\<close> drops everything
  and pushes the items.\<close>

fun peekAll :: "stack \<Rightarrow> nat \<Rightarrow> script_failure + bytes list" where
  "peekAll s 0 = Inr []"
| "peekAll s (Suc i) = rbind (PeekByteArray s (int i)) (\<lambda>so. rbind (peekAll s i) (\<lambda>below. Inr (so # below)))"

definition getStack :: "stack \<Rightarrow> script_failure + bytes list" where
  "getStack s = rbind (Depth s) (\<lambda>d. peekAll s (nat d))"

definition dropAll :: "stack \<Rightarrow> script_failure + stack" where
  "dropAll s = rbind (Depth s) (\<lambda>d. case DropN s d of Inl e \<Rightarrow> (if e = GoPanic then Inl e else Inr s) | Inr s' \<Rightarrow> Inr s')"

definition setStack :: "stack \<Rightarrow> bytes list \<Rightarrow> script_failure + stack" where
  "setStack s dat = rbind (dropAll s) (\<lambda>s. Inr (foldl PushByteArray s dat))"

definition GetStack :: "(bytes list, 'pk, 'sg) vm" where
  "GetStack = peekDstack getStack"

definition SetStack :: "bytes list \<Rightarrow> (unit, 'pk, 'sg) vm" where
  "SetStack dat = doDstack (\<lambda>s. setStack s dat)"

definition CheckErrorCondition :: "bool \<Rightarrow> (unit, 'pk, 'sg) vm" where
  "CheckErrorCondition finalScript =
     vbind (vget (\<lambda>vm. scriptIdx vm < length (scripts vm))) (\<lambda>unfinished.
       if unfinished then scriptError ErrScriptUnfinished
       else
         vbind (if finalScript then
                  vbind (peekDstack Depth) (\<lambda>d.
                    if d > 1 then scriptError ErrCleanStack
                    else if d < 1 then scriptError ErrEmptyStack
                    else vret ())
                else vret ()) (\<lambda>_.
         vbind popBool (\<lambda>v. if \<not> v then scriptError ErrEvalFalse else vret ())))"

text \<open>The end of a script: the alternative stack is dropped, the operation count reset, and the
  next script chosen. After the second script of a pay-to-script-hash input, the last item the
  first script pushed is parsed and becomes the third script.\<close>

definition nextScript :: "(unit, 'pk, 'sg) vm" where
  "nextScript =
     vbind (vget (\<lambda>vm. (scriptIdx vm, isP2SH vm))) (\<lambda>(idx, p2sh).
       if idx = 0 \<and> p2sh then
         vbind (vmodify (\<lambda>vm. vm\<lparr>scriptIdx := scriptIdx vm + 1\<rparr>)) (\<lambda>_.
         vbind GetStack (\<lambda>stk. vmodify (\<lambda>vm. vm\<lparr>savedFirstStack := stk\<rparr>)))
       else if idx = 1 \<and> p2sh then
         vbind (vmodify (\<lambda>vm. vm\<lparr>scriptIdx := scriptIdx vm + 1\<rparr>)) (\<lambda>_.
         vbind (CheckErrorCondition False) (\<lambda>_.
         vbind (vget savedFirstStack) (\<lambda>saved.
           if length saved = 0 then vfail GoPanic
           else
             (case ParseScript (last saved) of
                (pops, Some e) \<Rightarrow> vfail e
              | (pops, None) \<Rightarrow>
                  vbind (vmodify (\<lambda>vm. vm\<lparr>scripts := scripts vm @ [pops]\<rparr>)) (\<lambda>_.
                  SetStack (butlast saved))))))
       else vmodify (\<lambda>vm. vm\<lparr>scriptIdx := scriptIdx vm + 1\<rparr>))"

definition endScript :: "(bool, 'pk, 'sg) vm" where
  "endScript =
     vbind (vget condStack) (\<lambda>cs.
       if length cs \<noteq> 0 then scriptError ErrUnbalancedConditional
       else
         vbind (onAstack (\<lambda>s. rbind (dropAll s) (\<lambda>s. Inr ((), s)))) (\<lambda>_.
         vbind (vmodify (\<lambda>vm. vm\<lparr>numOps := 0, scriptOff := 0\<rparr>)) (\<lambda>_.
         vbind nextScript (\<lambda>_.
         vbind (vmodify (\<lambda>vm.
                  if scriptIdx vm < length (scripts vm) \<and> scriptOff vm \<ge> length (scripts vm ! scriptIdx vm)
                  then vm\<lparr>scriptIdx := scriptIdx vm + 1\<rparr> else vm)) (\<lambda>_.
         vget (\<lambda>vm. scriptIdx vm \<ge> length (scripts vm)))))))"

definition checkStackSize :: "(unit, 'pk, 'sg) vm" where
  "checkStackSize =
     vbind (peekDstack Depth) (\<lambda>d.
     vbind (onAstack (\<lambda>s. rbind (Depth s) (\<lambda>a. Inr (a, s)))) (\<lambda>a.
       if wrap32 (d + a) > MaxStackSize then scriptError ErrStackOverflow else vret ()))"

definition Step :: "('pk, 'sg) script_env \<Rightarrow> (bool, 'pk, 'sg) vm" where
  "Step env =
     vbind validPC (\<lambda>_.
     vbind (vget (\<lambda>vm. scripts vm ! scriptIdx vm ! scriptOff vm)) (\<lambda>pop.
     vbind (vmodify (\<lambda>vm. vm\<lparr>scriptOff := scriptOff vm + 1\<rparr>)) (\<lambda>_.
     vbind (executeOpcode env pop) (\<lambda>_.
     vbind checkStackSize (\<lambda>_.
     vbind (vget (\<lambda>vm. scriptOff vm \<ge> length (scripts vm ! scriptIdx vm))) (\<lambda>ended.
       if ended then endScript else vret False))))))"

section \<open>What handlers leave alone\<close>

text \<open>The program counter, the scripts and the transaction: no opcode handler changes them, whether
  it returns or fails.\<close>

definition pc ::
    "('pk, 'sg) Engine \<Rightarrow> parsedOpcode list list \<times> nat \<times> nat \<times> bool \<times> bytes list \<times> DomainTransaction \<times> nat \<times> u16" where
  "pc vm = (scripts vm, scriptIdx vm, scriptOff vm, isP2SH vm, savedFirstStack vm, engineTx vm, txIdx vm, scriptVersion vm)"

definition after :: "(script_failure \<times> ('pk, 'sg) Engine) + ('a \<times> ('pk, 'sg) Engine) \<Rightarrow> ('pk, 'sg) Engine" where
  "after r = (case r of Inl (e, vm) \<Rightarrow> vm | Inr (x, vm) \<Rightarrow> vm)"

definition keepsPc :: "('a, 'pk, 'sg) vm \<Rightarrow> bool" where
  "keepsPc m \<longleftrightarrow> (\<forall>vm. pc (after (m vm)) = pc vm)"

lemma after_simps [simp]: "after (Inl (e, vm)) = vm" "after (Inr (x, vm)) = vm"
  by (simp_all add: after_def)

lemma keepsPc_vret [vm_frame]: "keepsPc (vret x)"
  by (simp add: keepsPc_def vret_def)

lemma keepsPc_vfail [vm_frame]: "keepsPc (vfail e)"
  by (simp add: keepsPc_def vfail_def)

lemma keepsPc_vlift [vm_frame]: "keepsPc (vlift r)"
  by (simp add: keepsPc_def vlift_def split: sum.splits)

lemma keepsPc_vget [vm_frame]: "keepsPc (vget f)"
  by (simp add: keepsPc_def vget_def)

lemma keepsPc_vmodify [vm_frame]: "(\<And>vm. pc (f vm) = pc vm) \<Longrightarrow> keepsPc (vmodify f)"
  by (simp add: keepsPc_def vmodify_def)

lemma keepsPc_onDstack [vm_frame]: "keepsPc (onDstack f)" "keepsPc (onAstack f)" "keepsPc (doDstack g)" "keepsPc (peekDstack h)"
  by (simp_all add: keepsPc_def onDstack_def onAstack_def doDstack_def peekDstack_def pc_def split: sum.splits)

lemma keepsPc_vbind [vm_frame]: "keepsPc m \<Longrightarrow> (\<And>x. keepsPc (f x)) \<Longrightarrow> keepsPc (vbind m f)"
  unfolding keepsPc_def vbind_def
  by (intro allI) (metis (mono_tags, lifting) after_simps case_prod_conv rbind_simps(1,2) sumE surj_pair)

lemma keepsPc_if [vm_frame]: "(b \<Longrightarrow> keepsPc m) \<Longrightarrow> (\<not> b \<Longrightarrow> keepsPc n) \<Longrightarrow> keepsPc (if b then m else n)"
  by simp

lemma keepsPc_case [vm_frame]:
  "keepsPc m \<Longrightarrow> (\<And>x. keepsPc (f x)) \<Longrightarrow> keepsPc (case r of None \<Rightarrow> m | Some x \<Rightarrow> f x)"
  by (simp split: option.splits)

lemma pc_conds [simp]: "pc (vm\<lparr>condStack := c\<rparr>) = pc vm" "pc (vm\<lparr>numOps := n\<rparr>) = pc vm"
  by (simp_all add: pc_def)

lemma keepsPc_popIfBool [vm_frame]: "keepsPc popIfBool" "keepsPc (pushCond c)"
  by (auto simp: popIfBool_def pushCond_def intro!: vm_frame)

lemmas push_defs = opcodeFalse_def opcodePushData_def opcode1Negate_def opcodeN_def

lemmas control_defs = opcodeNop_def opcodeIf_def opcodeNotIf_def opcodeElse_def opcodeEndif_def opcodeVerify_def
  opcodeReturn_def opcodeCheckLockTimeVerify_def opcodeCheckSequenceVerify_def abstractVerify_def Let_def

lemmas stack_defs = opcodeToAltStack_def opcodeFromAltStack_def opcode2Drop_def opcode2Dup_def opcode3Dup_def
  opcode2Over_def opcode2Rot_def opcode2Swap_def opcodeIfDup_def opcodeDepth_def opcodeDrop_def opcodeDup_def
  opcodeNip_def opcodeOver_def opcodePick_def opcodeRoll_def opcodeRot_def opcodeSwap_def opcodeTuck_def

lemmas splice_defs = opcodeSize_def opcodeEqual_def opcodeEqualVerify_def abstractVerify_def

lemmas num_defs = opcode1Add_def opcode1Sub_def opcodeNegate_def opcodeAbs_def opcodeNot_def opcode0NotEqual_def
  opcodeAdd_def opcodeSub_def opcodeBoolAnd_def opcodeBoolOr_def opcodeNumEqual_def opcodeNumEqualVerify_def
  opcodeNumNotEqual_def opcodeLessThan_def opcodeGreaterThan_def opcodeLessThanOrEqual_def
  opcodeGreaterThanOrEqual_def opcodeMin_def opcodeMax_def opcodeWithin_def abstractVerify_def

lemmas crypto_defs = opcodeSha256_def opcodeBlake2b_def opcodeCheckSig_def opcodeCheckSigECDSA_def opcodeCheckSigVerify_def
  opcodeCheckMultiSig_def opcodeCheckMultiSigECDSA_def opcodeCheckMultiSigVerify_def abstractVerify_def

lemma keepsPc_engineSigHash [vm_frame]: "keepsPc (engineSigHash scheme hashType)"
  by (auto simp: keepsPc_def engineSigHash_def pc_def split: option.splits sum.splits)

definition isScheme :: "('pk, 'sg) script_env \<Rightarrow> ('pk, 'sg) sig_scheme \<Rightarrow> bool" where
  "isScheme env scheme \<longleftrightarrow> scheme = schnorrScheme env \<or> scheme = ecdsaScheme env"

lemma isScheme_simps [simp]: "isScheme env (schnorrScheme env)" "isScheme env (ecdsaScheme env)"
  by (simp_all add: isScheme_def)

lemma keepsPc_engineVerify [vm_frame]: "isScheme env scheme \<Longrightarrow> keepsPc (engineVerify env scheme h sg pk)"
  by (auto simp: keepsPc_def engineVerify_def isScheme_def schnorrScheme_def ecdsaScheme_def pc_def split: prod.splits)

lemma keepsPc_popMany [vm_frame]: "keepsPc (popMany n)"
  by (induction n) (auto intro!: vm_frame)

lemma keepsPc_multiSigLoop [vm_frame]:
  "isScheme env scheme \<Longrightarrow> keepsPc (multiSigLoop env scheme pubKeys n pubKeyIdx signatureIdx numSignatures sigs)"
  by (induction n arbitrary: pubKeyIdx signatureIdx numSignatures sigs) (auto simp: Let_def intro!: vm_frame)

lemma keepsPc_checkSig [vm_frame]:
  assumes "isScheme env scheme"
  shows "keepsPc (checkSigWith env scheme pop)" "keepsPc (checkMultiSigWith env scheme pop)"
  using assms by (auto simp: checkSigWith_def checkMultiSigWith_def Let_def intro!: vm_frame)

lemma keepsPc_runOpfunc [vm_frame]: "keepsPc (runOpfunc env f pop)"
proof (cases f)
  case (FnPush g)
  then show ?thesis by (cases g) (auto simp: push_defs intro!: vm_frame)
next
  case (FnControl g)
  then show ?thesis by (cases g) (auto simp: control_defs intro!: vm_frame)
next
  case (FnStack g)
  then show ?thesis by (cases g) (auto simp: stack_defs intro!: vm_frame)
next
  case (FnSplice g)
  then show ?thesis by (cases g) (auto simp: splice_defs intro!: vm_frame)
next
  case (FnNum g)
  then show ?thesis by (cases g) (auto simp: num_defs intro!: vm_frame)
next
  case (FnCrypto g)
  then show ?thesis by (cases g) (auto simp: crypto_defs intro!: vm_frame)
qed (auto simp: opcodeReserved_def opcodeDisabled_def opcodeInvalid_def intro!: vm_frame)

lemma keepsPc_executeOpcode [vm_frame]: "keepsPc (executeOpcode env pop)"
  by (auto simp: executeOpcode_def countOp_def intro!: vm_frame)

lemma keepsPc_checkStackSize [vm_frame]: "keepsPc checkStackSize"
  by (auto simp: checkStackSize_def intro!: vm_frame)

lemma keepsPcD: "keepsPc m \<Longrightarrow> m vm = Inr (x, vm') \<Longrightarrow> pc vm' = pc vm"
  by (metis after_simps(2) keepsPc_def)

section \<open>Termination of the execution loop\<close>

lemma vbind_Inr [simp]: "vbind m f vm = Inr (y, vm') \<longleftrightarrow> (\<exists>x w. m vm = Inr (x, w) \<and> f x w = Inr (y, vm'))"
  by (auto simp: vbind_def rbind_eq_Inr_iff)

lemma basic_Inr [simp]:
  "vret x vm = Inr (y, vm') \<longleftrightarrow> y = x \<and> vm' = vm"
  "vfail e vm = Inr (y, vm') \<longleftrightarrow> False"
  "vget f vm = Inr (z, vm') \<longleftrightarrow> z = f vm \<and> vm' = vm"
  "vmodify g vm = Inr (u, vm') \<longleftrightarrow> vm' = g vm"
  by (auto simp: vret_def vfail_def vget_def vmodify_def)

lemma if_Inr: "(if b then m else n) vm = Inr r \<longleftrightarrow> (if b then m vm = Inr r else n vm = Inr r)"
  by simp

lemma keepsPc_CheckErrorCondition [vm_frame]: "keepsPc (CheckErrorCondition finalScript)"
  by (auto simp: CheckErrorCondition_def intro!: vm_frame)

lemma keepsPc_GetStack [vm_frame]: "keepsPc GetStack" "keepsPc (SetStack dat)"
  by (auto simp: GetStack_def SetStack_def intro!: vm_frame)

text \<open>The work left: the scripts not yet left, counting the one that a pay-to-script-hash input may
  still add, and the opcodes left in the current script.\<close>

definition scriptsLeft :: "('pk, 'sg) Engine \<Rightarrow> nat" where
  "scriptsLeft vm = (if scriptIdx vm \<le> 1 \<and> isP2SH vm then length (scripts vm) + 1 else length (scripts vm)) - scriptIdx vm"

definition opcodesLeft :: "('pk, 'sg) Engine \<Rightarrow> nat" where
  "opcodesLeft vm = length (scripts vm ! scriptIdx vm) - scriptOff vm"

lemma nextScript_pc:
  assumes "nextScript vm = Inr (x, vm')"
  shows "isP2SH vm' = isP2SH vm" "scriptIdx vm' = scriptIdx vm + 1"
    "scripts vm' = scripts vm \<or> (\<exists>pops. scriptIdx vm = 1 \<and> isP2SH vm \<and> scripts vm' = scripts vm @ [pops])"
    "engineTx vm' = engineTx vm" "txIdx vm' = txIdx vm" "scriptOff vm' = scriptOff vm"
proof -
  note k = keepsPcD [OF keepsPc_GetStack(1)] keepsPcD [OF keepsPc_GetStack(2)] keepsPcD [OF keepsPc_CheckErrorCondition]
  have *: "isP2SH vm' = isP2SH vm \<and> scriptIdx vm' = scriptIdx vm + 1 \<and>
    (scripts vm' = scripts vm \<or> (\<exists>pops. scriptIdx vm = 1 \<and> isP2SH vm \<and> scripts vm' = scripts vm @ [pops])) \<and>
    engineTx vm' = engineTx vm \<and> txIdx vm' = txIdx vm \<and> scriptOff vm' = scriptOff vm"
    using assms unfolding nextScript_def
    by (fastforce simp: pc_def split: if_split_asm prod.splits option.splits dest!: k)
  then show "isP2SH vm' = isP2SH vm" "scriptIdx vm' = scriptIdx vm + 1"
    "scripts vm' = scripts vm \<or> (\<exists>pops. scriptIdx vm = 1 \<and> isP2SH vm \<and> scripts vm' = scripts vm @ [pops])"
    "engineTx vm' = engineTx vm" "txIdx vm' = txIdx vm" "scriptOff vm' = scriptOff vm"
    by blast+
qed

lemma endScript_decreases:
  assumes "endScript vm = Inr (b, vm')" and "scriptIdx vm < length (scripts vm)"
  shows "scriptsLeft vm' < scriptsLeft vm"
proof -
  obtain w1 w2 where w1: "onAstack (\<lambda>s. rbind (dropAll s) (\<lambda>s. Inr ((), s))) vm = Inr ((), w1)"
    and w2: "nextScript (w1\<lparr>numOps := 0, scriptOff := 0\<rparr>) = Inr ((), w2)"
    and vm': "vm' = (if scriptIdx w2 < length (scripts w2) \<and> scriptOff w2 \<ge> length (scripts w2 ! scriptIdx w2)
                  then w2\<lparr>scriptIdx := scriptIdx w2 + 1\<rparr> else w2)"
    using assms(1) by (auto simp: endScript_def split: if_split_asm)
  have "pc w1 = pc vm" using w1 by (rule keepsPcD [OF keepsPc_onDstack(2)])
  then show ?thesis
    using nextScript_pc [OF w2] assms(2) vm' by (auto simp: pc_def scriptsLeft_def)
qed

lemma Step_decreases:
  assumes "Step env vm = Inr (b, vm')"
  shows "scriptsLeft vm' < scriptsLeft vm \<or> scriptsLeft vm' = scriptsLeft vm \<and> opcodesLeft vm' < opcodesLeft vm"
proof -
  let ?pop = "scripts vm ! scriptIdx vm ! scriptOff vm"
  obtain w1 w2 where v: "validPC vm = Inr ((), vm)"
    and w1: "executeOpcode env ?pop (vm\<lparr>scriptOff := scriptOff vm + 1\<rparr>) = Inr ((), w1)"
    and w2: "checkStackSize w1 = Inr ((), w2)"
    and b: "(if scriptOff w2 \<ge> length (scripts w2 ! scriptIdx w2) then endScript w2 else vret False w2) = Inr (b, vm')"
    using assms by (auto simp: Step_def validPC_def split: if_split_asm)
  have valid: "scriptIdx vm < length (scripts vm)" "scriptOff vm < length (scripts vm ! scriptIdx vm)"
    using v by (auto simp: validPC_def split: if_split_asm)
  have pc: "pc w2 = pc (vm\<lparr>scriptOff := scriptOff vm + 1\<rparr>)"
    using keepsPcD [OF keepsPc_executeOpcode w1] keepsPcD [OF keepsPc_checkStackSize w2] by simp
  show ?thesis
  proof (cases "scriptOff w2 \<ge> length (scripts w2 ! scriptIdx w2)")
    case True
    then have "scriptsLeft vm' < scriptsLeft w2"
      using b pc valid by (intro endScript_decreases [of w2 b]) (auto simp: pc_def)
    moreover have "scriptsLeft w2 = scriptsLeft vm"
      using pc by (simp add: pc_def scriptsLeft_def)
    ultimately show ?thesis by simp
  next
    case False
    then show ?thesis
      using b pc valid by (auto simp: pc_def scriptsLeft_def opcodesLeft_def)
  qed
qed

function executeLoop :: "('pk, 'sg) script_env \<Rightarrow> (unit, 'pk, 'sg) vm" where
  "executeLoop env vm =
     (case Step env vm of
        Inl e \<Rightarrow> Inl e
      | Inr (done, vm') \<Rightarrow> if done then Inr ((), vm') else executeLoop env vm')"
  by pat_completeness auto
termination
  by (relation "measures [\<lambda>(env, vm). scriptsLeft vm, \<lambda>(env, vm). opcodesLeft vm]")
    (auto dest: Step_decreases)

declare executeLoop.simps [simp del]

definition Execute :: "('pk, 'sg) script_env \<Rightarrow> (unit, 'pk, 'sg) vm" where
  "Execute env =
     vbind (vget scriptVersion) (\<lambda>version.
       if version > MaxScriptPublicKeyVersion then vret ()
       else vbind (executeLoop env) (\<lambda>_. CheckErrorCondition True))"

section \<open>Setting up an engine\<close>

definition parseScriptAndVerifySize :: "bytes \<Rightarrow> script_failure + parsedOpcode list" where
  "parseScriptAndVerifySize script =
     (if length script > MaxScriptSize then Inl (ScriptError ErrScriptTooBig)
      else (case ParseScript script of (pops, Some e) \<Rightarrow> Inl e | (pops, None) \<Rightarrow> Inr pops))"

text \<open>When \<open>Init\<close> fails it may have set some fields of the engine; the engine is then dropped by
  \<open>NewEngine\<close>, and the transaction validator resets it before it goes back to the pool, so a failure
  gives no engine here.\<close>

definition Init ::
    "ScriptPublicKey \<Rightarrow> DomainTransaction \<Rightarrow> int \<Rightarrow> u32 \<Rightarrow> ('pk, 'sg) SigCache option \<Rightarrow> ('pk, 'sg) SigCache option
     \<Rightarrow> SighashReusedValues option \<Rightarrow> ('pk, 'sg) Engine \<Rightarrow> script_failure + ('pk, 'sg) Engine" where
  "Init scriptPubKey tx idx flgs cache cacheECDSA reused vm =
     (if idx < 0 \<or> idx \<ge> int (length (Inputs tx)) then Inl (ScriptError ErrInvalidIndex)
      else
        let scriptSig = SignatureScript (Inputs tx ! nat idx)
        in if length scriptSig = 0 \<and> length (spkScript scriptPubKey) = 0 then Inl (ScriptError ErrEvalFalse)
           else
             let vm = vm\<lparr>scriptVersion := spkVersion scriptPubKey, flags := flgs, sigCache := cache, sigCacheECDSA := cacheECDSA\<rparr>
             in if scriptVersion vm > MaxScriptPublicKeyVersion then Inr vm
                else
                  rbind (parseScriptAndVerifySize scriptSig) (\<lambda>parsedScriptSig.
                    if \<not> isPushOnly parsedScriptSig then Inl (ScriptError ErrNotPushOnly)
                    else
                      rbind (parseScriptAndVerifySize (spkScript scriptPubKey)) (\<lambda>parsedScriptPubKey.
                        let vm = vm\<lparr>scripts := [parsedScriptSig, parsedScriptPubKey]\<rparr>;
                            vm = (if length scriptSig = 0 then vm\<lparr>scriptIdx := scriptIdx vm + 1\<rparr> else vm)
                        in if isScriptHash parsedScriptPubKey \<and> \<not> isPushOnly parsedScriptSig
                           then Inl (ScriptError ErrNotPushOnly)
                           else
                             let vm = (if isScriptHash parsedScriptPubKey then vm\<lparr>isP2SH := True\<rparr> else vm)
                             in Inr (vm\<lparr>engineTx := tx, txIdx := nat idx, sigHashReusedValues := reused\<rparr>))))"

text \<open>The zero value of the engine; its transaction is the zero value of \<open>DomainTransaction\<close>.\<close>

definition zeroTx :: DomainTransaction where
  "zeroTx = \<lparr>txVersion = 0, Inputs = [], Outputs = [], LockTime = 0, SubnetworkID = replicate 20 0, Gas = 0,
             Payload = [], txFee = 0, txMass = 0, txID = None\<rparr>"

definition zeroEngine :: "('pk, 'sg) Engine" where
  "zeroEngine =
     \<lparr>scriptVersion = 0, scripts = [], scriptIdx = 0, scriptOff = 0, dstack = [], astack = [], engineTx = zeroTx,
      txIdx = 0, condStack = [], numOps = 0, flags = 0, sigCache = None, sigCacheECDSA = None,
      sigHashReusedValues = None, isP2SH = False, savedFirstStack = []\<rparr>"

definition NewEngine ::
    "ScriptPublicKey \<Rightarrow> DomainTransaction \<Rightarrow> int \<Rightarrow> u32 \<Rightarrow> ('pk, 'sg) SigCache option \<Rightarrow> ('pk, 'sg) SigCache option
     \<Rightarrow> SighashReusedValues option \<Rightarrow> script_failure + ('pk, 'sg) Engine" where
  "NewEngine scriptPubKey tx idx flgs cache cacheECDSA reused =
     Init scriptPubKey tx idx flgs cache cacheECDSA reused zeroEngine"

definition Reset :: "('pk, 'sg) Engine \<Rightarrow> ('pk, 'sg) Engine" where
  "Reset vm =
     vm\<lparr>scripts := [], scriptIdx := 0, scriptOff := 0, dstack := [], astack := [], condStack := [], numOps := 0,
        isP2SH := False, savedFirstStack := []\<rparr>"

end
