(* ===== verification/Script_Safety.thy ===== *)
theory Script_Safety
  imports Script_Engine Tx_Encoding
begin

text \<open>
  Safety of script execution: on an engine for an input whose UTXO entry is known, no opcode
  panics, stack items keep the size limit, and after every step the stacks and the operation count
  are within their limits.

  The proofs follow the structure of the code. \<open>grows k m V\<close> says that the computation \<open>m\<close> does not
  panic, keeps the invariant \<open>goodVm\<close>, adds at most \<open>k\<close> items to the stacks and returns a value in
  \<open>V\<close>; one rule per construct and one fact per handler give it for every opcode.
\<close>

section \<open>Stack operations\<close>

definition small :: "stack \<Rightarrow> bool" where
  "small s \<longleftrightarrow> (\<forall>x \<in> set s. length x \<le> MaxScriptElementSize)"

lemma small_simps [simp]:
  "small []" "small (x # s) \<longleftrightarrow> length x \<le> MaxScriptElementSize \<and> small s" "small (s @ t) \<longleftrightarrow> small s \<and> small t"
  by (auto simp: small_def)

definition stackSafe :: "nat \<Rightarrow> (stack \<Rightarrow> script_failure + ('a \<times> stack)) \<Rightarrow> ('a \<Rightarrow> bool) \<Rightarrow> bool" where
  "stackSafe k f V \<longleftrightarrow>
     (\<forall>s. small s \<and> length s + k \<le> 1000 \<longrightarrow>
        f s \<noteq> Inl GoPanic \<and> (\<forall>x s'. f s = Inr (x, s') \<longrightarrow> V x \<and> small s' \<and> length s' \<le> length s + k))"

lemma sized_1000: "length s \<le> 1000 \<Longrightarrow> sized s"
  by (simp add: sized_def)

lemma nipN_cases:
  assumes "small s" and "length s \<le> 1000"
  obtains "nipN s i = Inl (ScriptError ErrInvalidStackOperation)"
  | x t where "nipN s i = Inr (x, t)" "length x \<le> MaxScriptElementSize" "small t" "length s = Suc (length t)"
proof (cases "i < 0 \<or> i \<ge> int (length s)")
  case True
  then show thesis using assms nipN_error sized_1000 that(1) by blast
next
  case False
  then have "\<exists>x t. nipN s i = Inr (x, t)"
    using sized_1000 [OF assms(2)] by (auto simp: nipN_def Let_def)
  then obtain x t where "nipN s i = Inr (x, t)" by blast
  moreover from this obtain a b where "s = a @ x # b" "t = a @ b" using nipN_InrD(2) by blast
  ultimately show thesis using assms(1) by (intro that(2) [of x t]) auto
qed

lemma PeekByteArray_cases:
  assumes "small s" and "length s \<le> 1000"
  obtains "PeekByteArray s i = Inl (ScriptError ErrInvalidStackOperation)"
  | x where "PeekByteArray s i = Inr x" "length x \<le> MaxScriptElementSize"
proof (cases "i < 0 \<or> i \<ge> int (length s)")
  case True
  then show thesis using assms PeekByteArray_error sized_1000 that(1) by blast
next
  case False
  then have "nat (int (length s) - i - 1) < length s" by auto
  then show thesis
    using False assms sized_1000 [OF assms(2)] by (intro that(2) [of "s ! nat (int (length s) - i - 1)"])
      (auto simp: PeekByteArray_def small_def)
qed

lemma stackSafe_nipN: "stackSafe 0 (\<lambda>s. nipN s i) (\<lambda>x. length x \<le> MaxScriptElementSize)"
  unfolding stackSafe_def
proof (intro allI impI)
  fix s assume "small s \<and> length s + 0 \<le> 1000"
  then have "small s" "length s \<le> 1000" by simp_all
  then show "nipN s i \<noteq> Inl GoPanic \<and> (\<forall>x s'. nipN s i = Inr (x, s') \<longrightarrow>
      length x \<le> MaxScriptElementSize \<and> small s' \<and> length s' \<le> length s + 0)"
    by (rule nipN_cases [of s i]) auto
qed

lemma stackSafe_PopByteArray: "stackSafe 0 PopByteArray (\<lambda>x. length x \<le> MaxScriptElementSize)"
  using stackSafe_nipN [of 0] by (simp add: stackSafe_def PopByteArray_def)

lemma stackSafe_bind:
  assumes "stackSafe k f V" and "\<And>x. V x \<Longrightarrow> stackSafe j (g x) W"
  shows "stackSafe (k + j) (\<lambda>s. rbind (f s) (\<lambda>(x, s). g x s)) W"
proof -
  have *: "small s \<Longrightarrow> length s + k \<le> 1000 \<Longrightarrow> f s \<noteq> Inl GoPanic \<and>
      (\<forall>x s'. f s = Inr (x, s') \<longrightarrow> V x \<and> small s' \<and> length s' \<le> length s + k)" for s
    using assms(1) by (simp add: stackSafe_def)
  have **: "V x \<Longrightarrow> small s \<Longrightarrow> length s + j \<le> 1000 \<Longrightarrow> g x s \<noteq> Inl GoPanic \<and>
      (\<forall>y s'. g x s = Inr (y, s') \<longrightarrow> W y \<and> small s' \<and> length s' \<le> length s + j)" for x s
    using assms(2) by (simp add: stackSafe_def)
  show ?thesis
    unfolding stackSafe_def
  proof (intro allI impI conjI)
    fix s assume s: "small s \<and> length s + (k + j) \<le> 1000"
    then have f: "f s \<noteq> Inl GoPanic" "\<And>x t. f s = Inr (x, t) \<Longrightarrow> V x \<and> small t \<and> length t + j \<le> 1000"
      using * [of s] by fastforce+
    then show "rbind (f s) (\<lambda>(x, s). g x s) \<noteq> Inl GoPanic"
      using ** by (cases "f s") auto
    fix y s' assume "rbind (f s) (\<lambda>(x, s). g x s) = Inr (y, s')"
    then obtain x t where t: "f s = Inr (x, t)" "g x t = Inr (y, s')"
      by (auto simp: rbind_eq_Inr_iff)
    then have "length t \<le> length s + k" "W y \<and> small s' \<and> length s' \<le> length t + j"
      using f(2) [OF t(1)] ** [of x t] * [of s] s by auto
    then show "W y" "small s'" "length s' \<le> length s + (k + j)" by simp_all
  qed
qed

lemma stackSafe_pure: "r \<noteq> Inl GoPanic \<Longrightarrow> (\<And>y. r = Inr y \<Longrightarrow> W y) \<Longrightarrow> stackSafe 0 (\<lambda>s. rbind r (\<lambda>y. Inr (y, s))) W"
  by (auto simp: stackSafe_def rbind_eq_Inr_iff rbind_eq_Inl_iff)

lemma makeScriptNum_no_panic: "makeScriptNum v L \<noteq> Inl GoPanic"
  by (auto simp: makeScriptNum_def checkMinimalDataEncoding_def Let_def)

lemma stackSafe_PopInt: "stackSafe 0 PopInt (\<lambda>n. \<bar>n\<bar> < 2 ^ 31)"
proof -
  have "stackSafe (0 + 0) (\<lambda>s. rbind (PopByteArray s) (\<lambda>(so, s).
      rbind (makeScriptNum so defaultScriptNumLen) (\<lambda>n. Inr (n, s)))) (\<lambda>n. \<bar>n\<bar> < 2 ^ 31)"
    using makeScriptNum_no_panic makeScriptNum_range [of 4]
    by (intro stackSafe_bind [OF stackSafe_PopByteArray] stackSafe_pure) (auto simp: defaultScriptNumLen_def)
  then show ?thesis by (simp add: PopInt_def [abs_def])
qed

lemma stackSafe_PopBool: "stackSafe 0 PopBool (\<lambda>_. True)"
  using stackSafe_bind [OF stackSafe_PopByteArray, where g = "\<lambda>so s. Inr (asBool so, s)" and W = "\<lambda>_. True" and j = 0]
  by (simp add: stackSafe_def PopBool_def [abs_def])

lemma stackSafe_push [vm_safe]: "length x \<le> MaxScriptElementSize \<Longrightarrow> stackSafe 1 (\<lambda>s. Inr ((), PushByteArray s x)) (\<lambda>_. True)"
  by (simp add: stackSafe_def PushByteArray_def)

lemma Bytes_small:
  assumes "\<bar>n\<bar> < 2 ^ 32"
  shows "\<exists>v. Bytes n = Inr v \<and> length v \<le> 5"
proof -
  have "int64_range n" "n \<noteq> - (2 ^ 63)" using assms by (auto simp: int64_range_def)
  then show ?thesis using Bytes_length [of n 4] assms by simp
qed

text \<open>Operations that return the new stack, and operations that only look at it.\<close>

definition doSafe :: "nat \<Rightarrow> (stack \<Rightarrow> script_failure + stack) \<Rightarrow> bool" where
  "doSafe k f \<longleftrightarrow> (\<forall>s. small s \<and> length s + k \<le> 1000 \<longrightarrow>
     f s \<noteq> Inl GoPanic \<and> (\<forall>s'. f s = Inr s' \<longrightarrow> small s' \<and> length s' \<le> length s + k))"

lemma stackSafe_do: "doSafe k f \<Longrightarrow> stackSafe k (\<lambda>s. rbind (f s) (\<lambda>s. Inr ((), s))) (\<lambda>_. True)"
  by (auto simp: stackSafe_def doSafe_def rbind_eq_Inr_iff rbind_eq_Inl_iff)

lemma doSafeD:
  assumes "doSafe k f" and "small s" and "length s + k \<le> 1000"
  shows "f s \<noteq> Inl GoPanic" and "f s = Inr s' \<Longrightarrow> small s' \<and> length s' \<le> length s + k"
  using assms by (auto simp: doSafe_def)

lemma doSafe_nip:
  assumes "\<And>x. length x \<le> MaxScriptElementSize \<Longrightarrow> doSafe k (g x)"
  shows "doSafe k (\<lambda>s. rbind (nipN s i) (\<lambda>(x, s). g x s))"
  unfolding doSafe_def
proof (intro allI impI)
  fix s assume s: "small s \<and> length s + k \<le> 1000"
  then have "small s" "length s \<le> 1000" by simp_all
  then show "rbind (nipN s i) (\<lambda>(x, s). g x s) \<noteq> Inl GoPanic \<and>
      (\<forall>s'. rbind (nipN s i) (\<lambda>(x, s). g x s) = Inr s' \<longrightarrow> small s' \<and> length s' \<le> length s + k)"
  proof (rule nipN_cases [of s i])
    fix x t assume t: "nipN s i = Inr (x, t)" "length x \<le> MaxScriptElementSize" "small t" "length s = Suc (length t)"
    then show ?thesis
      using s doSafeD [OF assms [OF t(2)] t(3)] by fastforce
  qed auto
qed

lemma doSafe_peek:
  assumes "\<And>x. length x \<le> MaxScriptElementSize \<Longrightarrow> doSafe k (\<lambda>s. g x s)"
  shows "doSafe k (\<lambda>s. rbind (PeekByteArray s i) (\<lambda>x. g x s))"
  unfolding doSafe_def
proof (intro allI impI)
  fix s assume s: "small s \<and> length s + k \<le> 1000"
  then have "small s" "length s \<le> 1000" by simp_all
  then show "rbind (PeekByteArray s i) (\<lambda>x. g x s) \<noteq> Inl GoPanic \<and>
      (\<forall>s'. rbind (PeekByteArray s i) (\<lambda>x. g x s) = Inr s' \<longrightarrow> small s' \<and> length s' \<le> length s + k)"
    by (rule PeekByteArray_cases [of s i]) (use assms s in \<open>auto simp: doSafe_def\<close>)
qed

lemma doSafe_dropLoop: "doSafe 0 (dropLoop n)"
proof (induction n)
  case (Suc n)
  then show ?case
    using doSafe_nip [of 0 "\<lambda>_. dropLoop n" 0] by (simp add: PopByteArray_def)
qed (simp add: doSafe_def)

lemma doSafe_push_then:
  assumes "doSafe k f" and "length x \<le> MaxScriptElementSize"
  shows "doSafe (Suc k) (\<lambda>s. f (PushByteArray s x))"
  using doSafeD [OF assms(1), of "s @ [x]" for s] assms(2) by (fastforce simp: doSafe_def PushByteArray_def)

lemma doSafe_nipPushLoop: "doSafe 0 (nipPushLoop n e)"
proof (induction n)
  case (Suc n)
  show ?case
    unfolding doSafe_def
  proof (intro allI impI)
    fix s assume "small s \<and> length s + 0 \<le> 1000"
    then have "small s" "length s \<le> 1000" by simp_all
    then show "nipPushLoop (Suc n) e s \<noteq> Inl GoPanic \<and>
        (\<forall>s'. nipPushLoop (Suc n) e s = Inr s' \<longrightarrow> small s' \<and> length s' \<le> length s + 0)"
    proof (rule nipN_cases [of s e])
      fix x t assume "nipN s e = Inr (x, t)" "length x \<le> MaxScriptElementSize" "small t" "length s = Suc (length t)"
      then show ?thesis
        using doSafeD [OF Suc, of "t @ [x]"] \<open>length s \<le> 1000\<close> by (auto simp: PushByteArray_def)
    qed auto
  qed
qed (simp add: doSafe_def)

lemma doSafe_peekPushLoop: "doSafe n (peekPushLoop n e)"
proof (induction n)
  case (Suc n)
  then show ?case
    using doSafe_peek [of "Suc n" "\<lambda>x s. peekPushLoop n e (PushByteArray s x)" e] doSafe_push_then by simp
qed (simp add: doSafe_def)

lemma doSafe_ops [vm_safe]:
  "doSafe 0 (\<lambda>s. DropN s n)" "doSafe 0 (\<lambda>s. RotN s n)" "doSafe 0 (\<lambda>s. SwapN s n)"
  "doSafe (nat n) (\<lambda>s. DupN s n)" "doSafe (nat n) (\<lambda>s. OverN s n)"
  "doSafe 0 (\<lambda>s. NipN s n)" "doSafe 1 (\<lambda>s. PickN s n)" "doSafe 1 (\<lambda>s. RollN s n)" "doSafe 3 Tuck"
  "length x \<le> MaxScriptElementSize \<Longrightarrow> doSafe 1 (\<lambda>s. Inr (PushByteArray s x))"
  "doSafe 1 (\<lambda>s. Inr (PushBool s b))" "\<bar>m\<bar> < 2 ^ 32 \<Longrightarrow> doSafe 1 (\<lambda>s. PushInt s m)"
proof -
  have err: "doSafe k (\<lambda>s. Inl (ScriptError c))" for k c by (simp add: doSafe_def)
  show "doSafe 0 (\<lambda>s. DropN s n)" "doSafe 0 (\<lambda>s. RotN s n)" "doSafe 0 (\<lambda>s. SwapN s n)"
    "doSafe (nat n) (\<lambda>s. DupN s n)" "doSafe (nat n) (\<lambda>s. OverN s n)"
    by (cases "n < 1"; simp add: DropN_def RotN_def SwapN_def DupN_def OverN_def err
        doSafe_dropLoop doSafe_nipPushLoop doSafe_peekPushLoop)+
  show push: "length x \<le> MaxScriptElementSize \<Longrightarrow> doSafe 1 (\<lambda>s. Inr (PushByteArray s x))" for x
    by (simp add: doSafe_def PushByteArray_def)
  show "doSafe 0 (\<lambda>s. NipN s n)"
    using doSafe_nip [of 0 "\<lambda>_ s. Inr s" n] by (simp add: NipN_def doSafe_def)
  show "doSafe 1 (\<lambda>s. PickN s n)" "doSafe 1 (\<lambda>s. RollN s n)"
    using doSafe_peek [of 1 "\<lambda>x s. Inr (PushByteArray s x)" n] doSafe_nip [of 1 "\<lambda>x s. Inr (PushByteArray s x)" n] push
    by (simp_all add: PickN_def RollN_def)
  have "doSafe 3 (\<lambda>s. Inr (PushByteArray (PushByteArray (PushByteArray s x) y) x))"
    if "length x \<le> MaxScriptElementSize" "length y \<le> MaxScriptElementSize" for x y
    using that by (simp add: doSafe_def PushByteArray_def)
  then have "doSafe 3 (\<lambda>s. rbind (nipN s 0) (\<lambda>(y, s). Inr (PushByteArray (PushByteArray (PushByteArray s x) y) x)))"
    if "length x \<le> MaxScriptElementSize" for x
    using that by (intro doSafe_nip)
  then show "doSafe 3 Tuck"
    using doSafe_nip [of 3 "\<lambda>x s. rbind (nipN s 0) (\<lambda>(y, s). Inr (PushByteArray (PushByteArray (PushByteArray s x) y) x))" 0]
    by (simp add: Tuck_def [abs_def] PopByteArray_def)
  show "doSafe 1 (\<lambda>s. Inr (PushBool s b))"
    by (simp add: doSafe_def PushBool_def PushByteArray_def fromBool_def MaxScriptElementSize_def)
  show "\<bar>m\<bar> < 2 ^ 32 \<Longrightarrow> doSafe 1 (\<lambda>s. PushInt s m)"
    using Bytes_small [of m] by (auto simp: doSafe_def PushInt_def PushByteArray_def MaxScriptElementSize_def)
qed

section \<open>Safe computations\<close>

text \<open>The context a signature check needs, and the limits that hold between opcodes.\<close>

definition ctxOk :: "('pk, 'sg) Engine \<Rightarrow> bool" where
  "ctxOk vm \<longleftrightarrow> txIdx vm < length (Inputs (engineTx vm)) \<and>
     inputUTXOEntry (Inputs (engineTx vm) ! txIdx vm) \<noteq> None \<and> sigHashReusedValues vm \<noteq> None"

definition goodVm :: "('pk, 'sg) Engine \<Rightarrow> bool" where
  "goodVm vm \<longleftrightarrow> ctxOk vm \<and> small (dstack vm) \<and> small (astack vm) \<and>
     0 \<le> numOps vm \<and> numOps vm \<le> MaxOpsPerScript \<and> set (condStack vm) \<subseteq> {OpCondFalse, OpCondTrue, OpCondSkip}"

definition height :: "('pk, 'sg) Engine \<Rightarrow> nat" where
  "height vm = length (dstack vm) + length (astack vm)"

definition grows :: "nat \<Rightarrow> ('a, 'pk, 'sg) vm \<Rightarrow> ('a \<Rightarrow> bool) \<Rightarrow> bool" where
  "grows k m V \<longleftrightarrow>
     (\<forall>vm. goodVm vm \<and> height vm + k \<le> 1000 \<longrightarrow>
        (\<forall>vm'. m vm \<noteq> Inl (GoPanic, vm')) \<and>
        (\<forall>x vm'. m vm = Inr (x, vm') \<longrightarrow> V x \<and> goodVm vm' \<and> height vm' \<le> height vm + k))"

lemma growsI:
  assumes "\<And>vm vm'. goodVm vm \<Longrightarrow> height vm + k \<le> 1000 \<Longrightarrow> m vm = Inl (GoPanic, vm') \<Longrightarrow> False"
    and "\<And>vm x vm'. goodVm vm \<Longrightarrow> height vm + k \<le> 1000 \<Longrightarrow> m vm = Inr (x, vm') \<Longrightarrow> V x \<and> goodVm vm' \<and> height vm' \<le> height vm + k"
  shows "grows k m V"
  using assms unfolding grows_def by blast

lemma growsD:
  assumes "grows k m V" and "goodVm vm" and "height vm + k \<le> 1000"
  shows "m vm = Inl (GoPanic, vm') \<Longrightarrow> False"
    and "m vm = Inr (x, vm') \<Longrightarrow> V x \<and> goodVm vm' \<and> height vm' \<le> height vm + k"
  using assms unfolding grows_def by blast+

lemma grows_weaken:
  fixes m :: "('a, 'pk, 'sg) vm"
  assumes "grows k m V" and "k \<le> j" and "\<And>x. V x \<Longrightarrow> W x"
  shows "grows j m W"
proof (rule growsI)
  fix vm :: "('pk, 'sg) Engine" and x vm' assume vm: "goodVm vm" "height vm + j \<le> 1000"
  then have h: "height vm + k \<le> 1000" using assms(2) by simp
  show "m vm = Inl (GoPanic, vm') \<Longrightarrow> False"
    by (rule growsD(1) [OF assms(1) vm(1) h])
  show "m vm = Inr (x, vm') \<Longrightarrow> W x \<and> goodVm vm' \<and> height vm' \<le> height vm + j"
    using growsD(2) [OF assms(1) vm(1) h] assms(2,3) by fastforce
qed

lemma grows_le: "grows k m V \<Longrightarrow> k \<le> j \<Longrightarrow> grows j m V"
  by (rule grows_weaken)

lemma grows_exact [vm_strong]:
  "grows 0 (vret x) (\<lambda>y. y = x)"
  "grows 0 (vget f) (\<lambda>y. \<exists>vm. goodVm vm \<and> y = f vm)"
  "r \<noteq> Inl GoPanic \<Longrightarrow> grows 0 (vlift r) (\<lambda>y. r = Inr y)"
  by (auto simp: grows_def vret_def vget_def vlift_def split: sum.splits)

lemma grows_vret [vm_safe]: "V x \<Longrightarrow> grows 0 (vret x) V"
  by (simp add: grows_def vret_def)

lemma grows_vfail [vm_safe]: "e \<noteq> GoPanic \<Longrightarrow> grows 0 (vfail e) V"
  by (simp add: grows_def vfail_def)

lemma grows_vlift [vm_safe]: "r \<noteq> Inl GoPanic \<Longrightarrow> (\<And>x. r = Inr x \<Longrightarrow> V x) \<Longrightarrow> grows 0 (vlift r) V"
  by (auto simp: grows_def vlift_def split: sum.splits)

lemma goodVm_stacks:
  "goodVm (vm\<lparr>dstack := s\<rparr>) \<longleftrightarrow> goodVm (vm\<lparr>dstack := []\<rparr>) \<and> small s"
  "goodVm (vm\<lparr>astack := s\<rparr>) \<longleftrightarrow> goodVm (vm\<lparr>astack := []\<rparr>) \<and> small s"
  by (auto simp: goodVm_def ctxOk_def)

lemma goodVm_small: "goodVm vm \<Longrightarrow> small (dstack vm)" "goodVm vm \<Longrightarrow> small (astack vm)"
  "goodVm vm \<Longrightarrow> goodVm (vm\<lparr>dstack := []\<rparr>)" "goodVm vm \<Longrightarrow> goodVm (vm\<lparr>astack := []\<rparr>)"
  by (auto simp: goodVm_def ctxOk_def)

lemma stackSafeD:
  assumes "stackSafe k f V" and "small s" and "length s + k \<le> 1000"
  shows "f s = Inl GoPanic \<Longrightarrow> False" and "f s = Inr (x, s') \<Longrightarrow> V x \<and> small s' \<and> length s' \<le> length s + k"
  using assms unfolding stackSafe_def by blast+

lemma grows_onDstack [vm_safe]:
  assumes "stackSafe k f V"
  shows "grows k (onDstack f :: ('a, 'pk, 'sg) vm) V"
proof (rule growsI)
  fix vm :: "('pk, 'sg) Engine" and x vm' assume vm: "goodVm vm" "height vm + k \<le> 1000"
  then have h: "length (dstack vm) + k \<le> 1000" by (simp add: height_def)
  note f = stackSafeD [OF assms goodVm_small(1) [OF vm(1)] h]
  show "onDstack f vm = Inl (GoPanic, vm') \<Longrightarrow> False"
    using f(1) by (auto simp: onDstack_def split: sum.splits)
  assume "onDstack f vm = Inr (x, vm')"
  then obtain s where "f (dstack vm) = Inr (x, s)" "vm' = vm\<lparr>dstack := s\<rparr>"
    by (auto simp: onDstack_def split: sum.splits)
  then show "V x \<and> goodVm vm' \<and> height vm' \<le> height vm + k"
    using f(2) vm(1) goodVm_small(3) by (fastforce simp: height_def goodVm_stacks(1) [where s = s])
qed

lemma grows_onAstack [vm_safe]:
  assumes "stackSafe k f V"
  shows "grows k (onAstack f :: ('a, 'pk, 'sg) vm) V"
proof (rule growsI)
  fix vm :: "('pk, 'sg) Engine" and x vm' assume vm: "goodVm vm" "height vm + k \<le> 1000"
  then have h: "length (astack vm) + k \<le> 1000" by (simp add: height_def)
  note f = stackSafeD [OF assms goodVm_small(2) [OF vm(1)] h]
  show "onAstack f vm = Inl (GoPanic, vm') \<Longrightarrow> False"
    using f(1) by (auto simp: onAstack_def split: sum.splits)
  assume "onAstack f vm = Inr (x, vm')"
  then obtain s where "f (astack vm) = Inr (x, s)" "vm' = vm\<lparr>astack := s\<rparr>"
    by (auto simp: onAstack_def split: sum.splits)
  then show "V x \<and> goodVm vm' \<and> height vm' \<le> height vm + k"
    using f(2) vm(1) goodVm_small(4) by (fastforce simp: height_def goodVm_stacks(2) [where s = s])
qed

lemma grows_doDstack [vm_safe]: "doSafe k f \<Longrightarrow> grows k (doDstack f) (\<lambda>_. True)"
  unfolding doDstack_def by (intro grows_onDstack stackSafe_do)

lemma grows_vbind [vm_safe]:
  fixes m :: "('a, 'pk, 'sg) vm"
  assumes "grows j m V" and "\<And>x. V x \<Longrightarrow> grows k (f x) W"
  shows "grows (j + k) (vbind m f) W"
proof (rule growsI)
  fix vm :: "('pk, 'sg) Engine" and y vm' assume vm: "goodVm vm" "height vm + (j + k) \<le> 1000"
  then have h: "height vm + j \<le> 1000" by simp
  note m = growsD [OF assms(1) vm(1) h]
  show "vbind m f vm = Inl (GoPanic, vm') \<Longrightarrow> False"
  proof -
    assume "vbind m f vm = Inl (GoPanic, vm')"
    then obtain x w where x: "m vm = Inr (x, w)" "f x w = Inl (GoPanic, vm')"
      using m(1) by (auto simp: vbind_def rbind_eq_Inl_iff)
    then show False
      using m(2) [OF x(1)] growsD(1) [OF assms(2), of x w] vm(2) by simp
  qed
  assume "vbind m f vm = Inr (y, vm')"
  then obtain x w where x: "m vm = Inr (x, w)" "f x w = Inr (y, vm')" by auto
  then show "W y \<and> goodVm vm' \<and> height vm' \<le> height vm + (j + k)"
    using m(2) [OF x(1)] growsD(2) [OF assms(2), of x w y vm'] vm(2) by simp
qed

lemma grows_if [vm_safe]:
  "(b \<Longrightarrow> grows j m V) \<Longrightarrow> (\<not> b \<Longrightarrow> grows k n V) \<Longrightarrow> grows (max j k) (if b then m else n) V"
  by (cases b) (auto intro: grows_weaken)

lemma grows_case [vm_safe]:
  "(r = None \<Longrightarrow> grows j m V) \<Longrightarrow> (\<And>x. r = Some x \<Longrightarrow> grows k (f x) V) \<Longrightarrow>
   grows (max j k) (case r of None \<Rightarrow> m | Some x \<Rightarrow> f x) V"
  by (cases r) (auto intro: grows_weaken)

section \<open>The handlers are safe\<close>

lemmas pops_safe [vm_safe] = stackSafe_PopByteArray stackSafe_PopInt stackSafe_PopBool

lemma peek_safe [vm_safe]:
  "grows 0 (peekDstack (\<lambda>s. PeekByteArray s i)) (\<lambda>x. length x \<le> MaxScriptElementSize)"
  "grows 0 (peekDstack Depth) (\<lambda>d. 0 \<le> d \<and> d \<le> 1000)"
proof -
  have "stackSafe 0 (\<lambda>s. rbind (PeekByteArray s i) (\<lambda>x. Inr (x, s))) (\<lambda>x. length x \<le> MaxScriptElementSize)"
    unfolding stackSafe_def
  proof (intro allI impI)
    fix s assume "small s \<and> length s + 0 \<le> 1000"
    then have "small s" "length s \<le> 1000" by simp_all
    then show "rbind (PeekByteArray s i) (\<lambda>x. Inr (x, s)) \<noteq> Inl GoPanic \<and>
        (\<forall>x s'. rbind (PeekByteArray s i) (\<lambda>x. Inr (x, s)) = Inr (x, s') \<longrightarrow>
           length x \<le> MaxScriptElementSize \<and> small s' \<and> length s' \<le> length s + 0)"
      by (rule PeekByteArray_cases [of s i]) (auto simp: \<open>small s\<close>)
  qed
  then show "grows 0 (peekDstack (\<lambda>s. PeekByteArray s i)) (\<lambda>x. length x \<le> MaxScriptElementSize)"
    unfolding peekDstack_def by (rule grows_onDstack)
  have "stackSafe 0 (\<lambda>s. rbind (Depth s) (\<lambda>x. Inr (x, s))) (\<lambda>d. 0 \<le> d \<and> d \<le> 1000)"
    by (auto simp: stackSafe_def Depth_def sized_1000)
  then show "grows 0 (peekDstack Depth) (\<lambda>d. 0 \<le> d \<and> d \<le> 1000)"
    unfolding peekDstack_def by (rule grows_onDstack)
qed

lemma vmodify_safe:
  assumes "\<And>vm. goodVm vm \<Longrightarrow> goodVm (f vm) \<and> height (f vm) = height vm"
  shows "grows 0 (vmodify f) (\<lambda>_. True)"
  using assms by (auto simp: grows_def vmodify_def)

lemma goodVm_condStack:
  "goodVm vm \<Longrightarrow> set cs \<subseteq> {OpCondFalse, OpCondTrue, OpCondSkip} \<Longrightarrow> goodVm (vm\<lparr>condStack := cs\<rparr>)"
  "height (vm\<lparr>condStack := cs\<rparr>) = height vm"
  by (auto simp: goodVm_def ctxOk_def height_def)

lemma goodVm_conds: "goodVm vm \<Longrightarrow> set (condStack vm) \<subseteq> {OpCondFalse, OpCondTrue, OpCondSkip}"
  by (simp add: goodVm_def)

lemma count_safe [vm_strong]:
  fixes m :: "('a, 'pk, 'sg) vm"
  assumes "0 \<le> n" and "grows k m V"
  shows "grows k (vbind (vmodify (\<lambda>vm. vm\<lparr>numOps := numOps vm + n\<rparr>)) (\<lambda>_.
           vbind (vget numOps) (\<lambda>ops. if ops > MaxOpsPerScript then scriptError c else m))) V"
proof (rule growsI)
  fix vm :: "('pk, 'sg) Engine" and x vm'
  assume vm: "goodVm vm" "height vm + k \<le> 1000"
  let ?vm = "vm\<lparr>numOps := numOps vm + n\<rparr>"
  have good: "goodVm ?vm" if "numOps vm + n \<le> MaxOpsPerScript"
    using vm(1) assms(1) that by (simp add: goodVm_def ctxOk_def)
  note m = growsD [OF assms(2) good]
  have h: "height ?vm = height vm" by (simp add: height_def)
  show "vbind (vmodify (\<lambda>vm. vm\<lparr>numOps := numOps vm + n\<rparr>)) (\<lambda>_.
      vbind (vget numOps) (\<lambda>ops. if ops > MaxOpsPerScript then scriptError c else m)) vm = Inl (GoPanic, vm') \<Longrightarrow> False"
    using m(1) h vm(2) by (auto simp: vbind_def vmodify_def vget_def vfail_def not_less split: if_split_asm)
  show "vbind (vmodify (\<lambda>vm. vm\<lparr>numOps := numOps vm + n\<rparr>)) (\<lambda>_.
      vbind (vget numOps) (\<lambda>ops. if ops > MaxOpsPerScript then scriptError c else m)) vm = Inr (x, vm') \<Longrightarrow>
      V x \<and> goodVm vm' \<and> height vm' \<le> height vm + k"
    using m(2) h vm(2) by (auto simp: vbind_def vmodify_def vget_def vfail_def not_less split: if_split_asm)
qed

lemma verifyLockTime_no_panic [simp]:
  "verifyLockTime a b \<noteq> Inl GoPanic" "verifyLockTimeWithThreshold a t b \<noteq> Inl GoPanic"
  by (auto simp: verifyLockTime_def verifyLockTimeThreshold_def verifyLockTimeWithThreshold_def)

lemma popIfBool_safe [vm_safe]: "grows 0 popIfBool (\<lambda>_. True)"
  unfolding popIfBool_def by (rule grows_le, (rule vm_strong vm_safe | force)+)

lemma push_safe: "grows 1 (runPush f pop) (\<lambda>_. True)" if "length (popData pop) \<le> MaxScriptElementSize"
proof -
  have "\<bar>uint (opValue (popOpcode pop) - (Op1 - 1))\<bar> < 2 ^ 32"
    using uint_bounded [of "opValue (popOpcode pop) - (Op1 - 1)"] by simp
  with that show ?thesis
    by (cases f) (simp_all only: runPush.simps push_defs, (rule vm_safe vm_safe | simp)+)
qed

lemma cond_safe [vm_safe]:
  "c \<in> {OpCondFalse, OpCondTrue, OpCondSkip} \<Longrightarrow> grows 0 (pushCond c) (\<lambda>_. True)"
  unfolding pushCond_def
proof (rule vmodify_safe)
  fix vm assume "c \<in> {OpCondFalse, OpCondTrue, OpCondSkip}" "goodVm vm"
  then have "set (condStack vm @ [c]) \<subseteq> {OpCondFalse, OpCondTrue, OpCondSkip}"
    using goodVm_conds [of vm] by simp
  then show "goodVm (vm\<lparr>condStack := condStack vm @ [c]\<rparr>) \<and> height (vm\<lparr>condStack := condStack vm @ [c]\<rparr>) = height vm"
    using \<open>goodVm vm\<close> goodVm_condStack by blast
qed

lemma cond_update_safe [vm_safe]:
  assumes "\<exists>vm :: ('pk, 'sg) Engine. goodVm vm \<and> cs = condStack vm"
  shows "c \<in> {OpCondFalse, OpCondTrue} \<Longrightarrow> grows 0 (vmodify (\<lambda>vm :: ('pk, 'sg) Engine. vm\<lparr>condStack := cs[i := c]\<rparr>)) (\<lambda>_. True)"
    and "grows 0 (vmodify (\<lambda>vm :: ('pk, 'sg) Engine. vm\<lparr>condStack := take n cs\<rparr>)) (\<lambda>_. True)"
proof -
  have cs: "set cs \<subseteq> {OpCondFalse, OpCondTrue, OpCondSkip}"
    using assms goodVm_conds by blast
  show "grows 0 (vmodify (\<lambda>vm :: ('pk, 'sg) Engine. vm\<lparr>condStack := cs[i := c]\<rparr>)) (\<lambda>_. True)" if "c \<in> {OpCondFalse, OpCondTrue}"
    using set_update_subset_insert [of cs i c] cs that by (intro vmodify_safe) (auto intro!: goodVm_condStack)
  show "grows 0 (vmodify (\<lambda>vm :: ('pk, 'sg) Engine. vm\<lparr>condStack := take n cs\<rparr>)) (\<lambda>_. True)"
    using set_take_subset [of n cs] cs by (intro vmodify_safe) (auto intro!: goodVm_condStack)
qed

lemma control_safe: "grows 1 (runControl f pop) (\<lambda>_. True)"
proof (cases f)
  case C_CheckLockTimeVerify
  then show ?thesis
    by (simp only: runControl.simps control_defs)
      (rule grows_le, (rule vm_strong vm_safe | force simp: engineInput_def goodVm_def ctxOk_def)+)
next
  case C_CheckSequenceVerify
  then show ?thesis
    by (simp only: runControl.simps control_defs)
      (rule grows_le, (rule vm_strong vm_safe | force simp: engineInput_def goodVm_def ctxOk_def)+)
qed (simp only: runControl.simps control_defs, rule grows_le, (rule vm_strong vm_safe | assumption | simp)+)+

lemma stack_safe: "grows 3 (runStack f pop) (\<lambda>_. True)"
  by (cases f) (simp only: runStack.simps stack_defs, rule grows_le, (rule vm_strong vm_safe | force)+)+

lemma splice_safe: "grows 3 (runSplice f pop) (\<lambda>_. True)"
  by (cases f) (simp only: runSplice.simps splice_defs, rule grows_le,
      (rule vm_strong vm_safe | force simp: MaxScriptElementSize_def)+)+

lemma operand_bounds:
  fixes a b :: int
  shows "\<bar>a\<bar> < 2 ^ 32 \<Longrightarrow> \<bar>wrap64 a\<bar> < 2 ^ 32"
    "(c \<Longrightarrow> \<bar>a\<bar> < 2 ^ 32) \<Longrightarrow> (\<not> c \<Longrightarrow> \<bar>b\<bar> < 2 ^ 32) \<Longrightarrow> \<bar>if c then a else b\<bar> < 2 ^ 32"
proof -
  assume "\<bar>a\<bar> < 2 ^ 32"
  moreover from this have "int64_range a" by (auto simp: int64_range_def)
  ultimately show "\<bar>wrap64 a\<bar> < 2 ^ 32" by simp
qed simp

lemma num_safe: "grows 1 (runNum f pop) (\<lambda>_. True)"
  by (cases f) (simp only: runNum.simps num_defs, rule grows_le,
      (rule vm_strong vm_safe | rule operand_bounds | simp)+)+

text \<open>Documented behaviour of blake2b: a digest has 32 bytes.\<close>

definition blake2bOk :: "('pk, 'sg) script_env \<Rightarrow> bool" where
  "blake2bOk env \<longleftrightarrow> (\<forall>b. length (blake2b_Sum256 env b) = 32)"

lemma calculateSignatureHash_ok: "\<exists>r. calculateSignatureHash b tx i txIn entry ht reused = Inr r"
proof -
  have parts: "\<exists>h q. getPreviousOutputsHash b tx ht r = Inr (h, q)" "\<exists>h q. getSequencesHash b tx ht r = Inr (h, q)"
    "\<exists>h q. getSigOpCountsHash b tx ht r = Inr (h, q)" "\<exists>h q. getOutputsHash b tx i ht r = Inr (h, q)"
    "\<exists>h q. getPayloadHash b tx r = Inr (h, q)" for r
    by (auto simp: getPreviousOutputsHash_def getSequencesHash_def getSigOpCountsHash_def getOutputsHash_def
        getPayloadHash_def signingHash_enc split: option.split)
  obtain h1 r1 where 1: "getPreviousOutputsHash b tx ht reused = Inr (h1, r1)" using parts(1) by blast
  obtain h2 r2 where 2: "getSequencesHash b tx ht r1 = Inr (h2, r2)" using parts(2) by blast
  obtain h3 r3 where 3: "getSigOpCountsHash b tx ht r2 = Inr (h3, r3)" using parts(3) by blast
  obtain h4 r4 where 4: "getOutputsHash b tx i ht r3 = Inr (h4, r4)" using parts(4) by blast
  obtain h5 r5 where 5: "getPayloadHash b tx r4 = Inr (h5, r5)" using parts(5) by blast
  show ?thesis
    by (simp add: calculateSignatureHash_def 1 2 3 4 5 signingHash_enc)
qed

lemma sigHash_no_panic:
  assumes "isScheme env scheme" and "ctxOk vm"
  shows "schemeSigHash scheme (engineTx vm) (txIdx vm) hashType reused \<in> insert (Inl NonStandardHashType) (range Inr)"
proof -
  have "CalculateSignatureHashSchnorr b (engineTx vm) (txIdx vm) hashType reused \<in> insert (Inl NonStandardHashType) (range Inr)"
    for b
    using assms(2) calculateSignatureHash_ok
    by (auto simp: CalculateSignatureHashSchnorr_def ctxOk_def Let_def split: option.splits sum.splits) (metis Inl_Inr_False)
  then show ?thesis
    using assms(1) by (fastforce simp: isScheme_def schnorrScheme_def ecdsaScheme_def CalculateSignatureHashECDSA_def)
qed

lemma engineSigHash_safe [vm_safe]: "isScheme env scheme \<Longrightarrow> grows 0 (engineSigHash scheme hashType) (\<lambda>_. True)"
proof (rule growsI)
  fix vm :: "('a, 'b) Engine" and x vm'
  assume s: "isScheme env scheme" and vm: "goodVm vm"
  obtain reused where r: "sigHashReusedValues vm = Some reused"
    using vm by (auto simp: goodVm_def ctxOk_def)
  have ctx: "ctxOk vm" using vm by (simp add: goodVm_def)
  note cases = sigHash_no_panic [OF s ctx, of hashType reused]
  show "engineSigHash scheme hashType vm = Inl (GoPanic, vm') \<Longrightarrow> False"
    using cases r by (auto simp: engineSigHash_def split: if_split_asm sum.splits prod.splits)
  show "engineSigHash scheme hashType vm = Inr (x, vm') \<Longrightarrow> True \<and> goodVm vm' \<and> height vm' \<le> height vm + 0"
    using cases r vm
    by (auto simp: engineSigHash_def goodVm_def ctxOk_def height_def split: if_split_asm sum.splits prod.splits)
qed

lemma engineVerify_safe [vm_safe]: "isScheme env scheme \<Longrightarrow> grows 0 (engineVerify env scheme h sg pk) (\<lambda>_. True)"
  by (auto simp: grows_def engineVerify_def isScheme_def schnorrScheme_def ecdsaScheme_def goodVm_def ctxOk_def height_def
      split: prod.splits)

lemma scheme_checks_no_panic [simp]:
  assumes "isScheme env scheme"
  shows "schemeCheckPubKey scheme k \<noteq> Inl GoPanic" "schemeCheckSigLength scheme k \<noteq> Inl GoPanic"
  using assms by (auto simp: isScheme_def schnorrScheme_def ecdsaScheme_def checkPubKeyEncoding_def
      checkPubKeyEncodingECDSA_def checkSignatureLength_def checkSignatureLengthECDSA_def split: if_split_asm)

lemma popMany_safe [vm_safe]: "grows 0 (popMany n) (\<lambda>xs. length xs = n)"
proof (induction n)
  case (Suc n)
  note [vm_safe] = Suc
  show ?case
    unfolding popMany.simps by (rule grows_le, (rule grows_vret vm_safe | simp)+)
qed (simp add: grows_vret)

lemma multiSigLoop_safe [vm_safe]:
  assumes "isScheme env scheme"
  shows "signatureIdx + numSignatures \<le> length sigs \<Longrightarrow> pubKeyIdx + n \<le> Suc (length pubKeys) \<Longrightarrow>
    grows 0 (multiSigLoop env scheme pubKeys n pubKeyIdx signatureIdx numSignatures sigs) (\<lambda>_. True)"
proof (induction n arbitrary: pubKeyIdx signatureIdx numSignatures sigs)
  case (Suc n)
  have IH: "grows 0 (multiSigLoop env scheme pubKeys n (Suc pubKeyIdx) i k sgs) (\<lambda>_. True)"
    if "i + k \<le> length sgs" for i k sgs
    using Suc.IH that Suc.prems(2) by simp
  show ?case
    unfolding multiSigLoop.simps Let_def
    by (rule grows_le, (rule vm_strong IH grows_vret vm_safe assms | use Suc.prems assms in \<open>simp; fail\<close>)+)
qed (simp add: grows_vret)

lemma checkSig_safe [vm_safe]:
  assumes "isScheme env scheme"
  shows "grows 1 (checkSigWith env scheme pop) (\<lambda>_. True)"
  unfolding checkSigWith_def Let_def
  by (rule grows_le, (rule vm_strong grows_vret vm_safe assms | use assms in \<open>simp; fail\<close>)+)

lemma checkMultiSig_safe [vm_safe]:
  assumes "isScheme env scheme"
  shows "grows 1 (checkMultiSigWith env scheme pop) (\<lambda>_. True)"
  unfolding checkMultiSigWith_def Let_def
  by (rule grows_le, (rule vm_strong grows_vret vm_safe assms | use assms in \<open>simp; fail\<close>)+)

lemma crypto_safe: "blake2bOk env \<Longrightarrow> grows 2 (runCrypto env f pop) (\<lambda>_. True)"
  by (cases f) (simp only: runCrypto.simps crypto_defs, rule grows_le,
      (rule vm_strong grows_vret vm_safe isScheme_simps | simp add: blake2bOk_def MaxScriptElementSize_def)+)+

lemma runOpfunc_safe:
  assumes "blake2bOk env" and "length (popData pop) \<le> MaxScriptElementSize"
  shows "grows 3 (runOpfunc env f pop) (\<lambda>_. True)"
proof (cases f)
  case (FnPush g)
  then show ?thesis by (auto intro: grows_le [OF push_safe [OF assms(2)]])
next
  case (FnControl g)
  then show ?thesis by (auto intro: grows_le [OF control_safe])
next
  case (FnStack g)
  then show ?thesis using stack_safe by simp
next
  case (FnSplice g)
  then show ?thesis using splice_safe by simp
next
  case (FnNum g)
  then show ?thesis by (auto intro: grows_le [OF num_safe])
next
  case (FnCrypto g)
  then show ?thesis by (auto intro: grows_le [OF crypto_safe [OF assms(1)]])
qed (simp_all add: opcodeReserved_def opcodeDisabled_def opcodeInvalid_def grows_le [OF grows_vfail])

text \<open>Parsed opcodes come from the table, and only pushes carry data.\<close>

definition wfPop :: "parsedOpcode \<Rightarrow> bool" where
  "wfPop pop \<longleftrightarrow> popOpcode pop \<in> set opcodeArray \<and> (opValue (popOpcode pop) > Op16 \<longrightarrow> popData pop = [])"

lemma parseOne_wf:
  assumes "parseOne script = Some (pop, rest)"
  shows "wfPop pop"
proof -
  obtain instr off where script: "script = instr # off"
    using assms by (cases script) (simp_all add: parseOne_def)
  define i where "i = unat instr"
  have i: "i < 256" unfolding i_def by (rule unat_byte_less)
  then have mem: "opcodeArray ! i \<in> set opcodeArray" by (intro nth_mem) (simp add: length_opcodeArray)
  consider "1 \<le> i" "i \<le> 75" | "i \<in> {76, 77, 78}" | "i = 0 \<or> 79 \<le> i" by fastforce
  then show ?thesis
  proof cases
    case 1
    then have "\<not> opValue (opcodeArray ! i) > Op16"
      using opcodeArray_value [OF i] by (simp add: word_less_nat_alt)
    then show ?thesis
      using assms mem by (auto simp: script parseOne_direct [OF i_def 1] wfPop_def split: if_split_asm)
  next
    case 2
    then have "\<not> opValue (opcodeArray ! i) > Op16"
      using opcodeArray_value [OF i] by (auto simp: word_less_nat_alt)
    then show ?thesis
      using assms mem by (auto simp: script parseOne_pushdata [OF i_def 2 refl refl] wfPop_def split: if_split_asm)
  next
    case 3
    then show ?thesis
      using assms mem by (auto simp: script parseOne_plain [OF i_def 3] wfPop_def)
  qed
qed

lemma ParseScript_wf: "list_all wfPop (fst (ParseScript script))"
  by (induction script rule: ParseScript_induct) (auto simp: ParseScript_step parseOne_wf split: prod.splits)

lemma countOp_safe: "grows 0 (countOp pop) (\<lambda>_. opValue (popOpcode pop) > Op16 \<or> length (popData pop) \<le> MaxScriptElementSize)"
  unfolding countOp_def
  by (rule grows_le, (rule vm_strong vm_safe | simp)+)

lemma executeOpcode_safe:
  assumes "blake2bOk env" and "wfPop pop"
  shows "grows 3 (executeOpcode env pop) (\<lambda>_. True)"
proof -
  have 1: "grows 0 (if b then vlift (checkMinimalDataPush pop) else vret ()) (\<lambda>_. True)" for b :: bool
    by (rule grows_le, (rule vm_safe | simp add: checkMinimalDataPush_def Let_def)+)
  have 2: "grows 3 (runOpfunc env f pop) (\<lambda>_. True)" if "opValue (popOpcode pop) > Op16 \<or> length (popData pop) \<le> MaxScriptElementSize" for f
    using runOpfunc_safe [OF assms(1)] assms(2) that by (auto simp: wfPop_def)
  show ?thesis
    unfolding executeOpcode_def
    by (rule grows_le, (rule countOp_safe 1 2 vm_strong vm_safe | simp)+)
qed

end
