(* ===== verification/Script_Invariant.thy ===== *)
theory Script_Invariant
  imports Script_Safety
begin

text \<open>
  The invariant of script execution and what follows from it: reachable engines are within the
  limits and point at an opcode, and execution always ends, without a panic.
\<close>

section \<open>Facts about the opcode table\<close>

fun kindOk :: "opcode \<Rightarrow> bool" where
  "kindOk op =
     (case opFunc op of
        FnPush _ \<Rightarrow> opValue op \<le> Op16
      | FnReserved \<Rightarrow> opValue op \<noteq> OpBlake2b
      | FnCrypto C_Blake2b \<Rightarrow> opValue op = OpBlake2b
      | _ \<Rightarrow> opValue op > Op16 \<and> opValue op \<noteq> OpBlake2b)"

lemma table_kinds: "list_all kindOk opcodeArray"
  by (simp add: opcodeArray_def opcodeArray_push_def opcodeArray_named_def opcodeArray_undefined_def opc_def)

lemma kindOk_table: "op \<in> set opcodeArray \<Longrightarrow> kindOk op"
  using table_kinds by (simp add: list_all_iff del: kindOk.simps)

lemma table_push:
  assumes "op \<in> set opcodeArray" and "opValue op \<le> Op16"
  shows "(\<exists>g. opFunc op = FnPush g) \<or> opFunc op = FnReserved"
proof (cases "opFunc op")
  case (FnCrypto g)
  then show ?thesis using kindOk_table [OF assms(1)] assms(2) by (cases g) auto
qed (use kindOk_table [OF assms(1)] assms(2) in auto)

lemma table_blake2b:
  assumes "op \<in> set opcodeArray" and "opValue op = OpBlake2b"
  shows "opFunc op = FnCrypto C_Blake2b"
proof (cases "opFunc op")
  case (FnCrypto g)
  then show ?thesis using kindOk_table [OF assms(1)] assms(2) by (cases g) auto
qed (use kindOk_table [OF assms(1)] assms(2) in auto)

section \<open>The invariant\<close>

text \<open>Pay-to-script-hash inputs: while the first script runs, it pushes one item per opcode; the
  second script is the hash comparison; when it starts with nothing saved, the stack is empty and
  its first opcode fails.\<close>

definition p2shInv :: "('pk, 'sg) Engine \<Rightarrow> bool" where
  "p2shInv vm \<longleftrightarrow>
     (scriptIdx vm = 0 \<longrightarrow> isPushOnly (scripts vm ! 0) \<and> condStack vm = [] \<and> (0 < scriptOff vm \<longrightarrow> dstack vm \<noteq> [])) \<and>
     (scriptIdx vm \<le> 1 \<longrightarrow> isScriptHash (scripts vm ! 1)) \<and>
     (scriptIdx vm = 1 \<and> savedFirstStack vm = [] \<longrightarrow> scriptOff vm = 0 \<and> dstack vm = [] \<and> condStack vm = [])"

definition stepInv :: "('pk, 'sg) Engine \<Rightarrow> bool" where
  "stepInv vm \<longleftrightarrow>
     goodVm vm \<and> height vm \<le> 244 \<and> list_all (list_all wfPop) (scripts vm) \<and>
     scriptIdx vm < length (scripts vm) \<and> scriptOff vm < length (scripts vm ! scriptIdx vm) \<and>
     length (scripts vm) = (if scriptIdx vm < 2 then 2 else 3) \<and>
     small (savedFirstStack vm) \<and> length (savedFirstStack vm) \<le> 244 \<and> (isP2SH vm \<longrightarrow> p2shInv vm)"

lemma runPush_pushes: "runPush g pop vm = Inr (u, vm') \<Longrightarrow> \<exists>x. vm' = vm\<lparr>dstack := dstack vm @ [x]\<rparr>"
  by (cases g) (auto simp: push_defs doDstack_def onDstack_def PushByteArray_def PushInt_def rbind_eq_Inr_iff
      split: sum.splits)

lemma countOp_small: "\<not> opValue (popOpcode pop) > Op16 \<Longrightarrow> countOp pop vm = Inr (u, vm') \<Longrightarrow> vm' = vm"
  by (auto simp: countOp_def split: if_split_asm)

lemma vlift_Inr [simp]: "vlift r vm = Inr (x, vm') \<longleftrightarrow> r = Inr x \<and> vm' = vm"
  by (auto simp: vlift_def split: sum.splits)

lemma countOp_Inr: "countOp pop vm = Inr (u, vm') \<Longrightarrow> vm' = vm \<or> vm' = vm\<lparr>numOps := numOps vm + 1\<rparr>"
  by (auto simp: countOp_def split: if_split_asm)

lemma executeOpcode_Inr:
  assumes "executeOpcode env pop vm = Inr (u, vm')" and "condStack vm = []"
  obtains w where "countOp pop vm = Inr ((), w)" "runOpfunc env (opFunc (popOpcode pop)) pop w = Inr (u, vm')"
proof -
  obtain w where w: "countOp pop vm = Inr ((), w)" "isBranchExecuting w \<or> isConditional pop \<Longrightarrow>
      runOpfunc env (opFunc (popOpcode pop)) pop w = Inr (u, vm')"
    using assms(1) unfolding executeOpcode_def by (auto split: if_split_asm)
  moreover have "isBranchExecuting w"
    using countOp_Inr [OF w(1)] assms(2) by (auto simp: isBranchExecuting_def)
  ultimately show thesis using that by blast
qed

lemma executeOpcode_push:
  assumes "wfPop pop" and "\<not> opValue (popOpcode pop) > Op16" and "condStack vm = []"
    and "executeOpcode env pop vm = Inr (u, vm')"
  shows "\<exists>x. vm' = vm\<lparr>dstack := dstack vm @ [x]\<rparr>"
proof -
  obtain w where w: "countOp pop vm = Inr ((), w)" "runOpfunc env (opFunc (popOpcode pop)) pop w = Inr (u, vm')"
    using executeOpcode_Inr [OF assms(4,3)] by blast
  then have "w = vm" using countOp_small assms(2) by blast
  then show ?thesis
    using table_push [of "popOpcode pop"] assms(1,2) w(2) runPush_pushes
    by (auto simp: wfPop_def opcodeReserved_def not_less)
qed

lemma executeOpcode_blake2b_empty:
  assumes "wfPop pop" and "opValue (popOpcode pop) = OpBlake2b" and "condStack vm = []" and "dstack vm = []"
  shows "executeOpcode env pop vm \<noteq> Inr (u, vm')"
proof
  assume "executeOpcode env pop vm = Inr (u, vm')"
  then obtain w where w: "countOp pop vm = Inr ((), w)" "runOpfunc env (opFunc (popOpcode pop)) pop w = Inr (u, vm')"
    using assms(3) by (rule executeOpcode_Inr)
  have "dstack w = []"
    using countOp_Inr [OF w(1)] assms(4) by auto
  then show False
    using w(2) table_blake2b [of "popOpcode pop"] assms(1,2) by (simp add: wfPop_def opcodeBlake2b_def onDstack_def)
qed

section \<open>Whole stacks\<close>

lemma dropAll_ok [simp]: "length s \<le> 1000 \<Longrightarrow> dropAll s = Inr []"
proof -
  assume s: "length s \<le> 1000"
  then have "Depth s = Inr (int (length s))" by (simp add: Depth_def sized_1000)
  then show ?thesis
    using dropLoop_drops [of "[]" s] sized_1000 [OF s] by (cases "s = []") (auto simp: dropAll_def DropN_def)
qed

lemma peekAll_ok: "length s \<le> 1000 \<Longrightarrow> n \<le> length s \<Longrightarrow> peekAll s n = Inr (drop (length s - n) s)"
proof (induction n)
  case (Suc n)
  let ?i = "length s - Suc n"
  have "PeekByteArray s (int n) = Inr (s ! ?i)"
    using PeekByteArray_split [of "take ?i s" "s ! ?i" "drop (Suc ?i) s" n] Suc.prems sized_1000 [of s]
    by (simp add: id_take_nth_drop [symmetric])
  moreover have "drop ?i s = s ! ?i # drop (length s - n) s"
    using Suc.prems Cons_nth_drop_Suc [of ?i s] by (simp add: Suc_diff_Suc)
  ultimately show ?case
    using Suc by simp
qed simp

lemma getStack_ok [simp]: "length s \<le> 1000 \<Longrightarrow> getStack s = Inr s"
  by (simp add: getStack_def Depth_def sized_1000 peekAll_ok)

lemma setStack_ok [simp]: "length s \<le> 1000 \<Longrightarrow> setStack s dat = Inr dat"
proof -
  have "foldl PushByteArray t dat = t @ dat" for t
    by (induction dat arbitrary: t) (simp_all add: PushByteArray_def)
  then show "length s \<le> 1000 \<Longrightarrow> setStack s dat = Inr dat"
    by (simp add: setStack_def)
qed

lemma stack_access:
  assumes "height vm \<le> 1000"
  shows "GetStack vm = Inr (dstack vm, vm)" "SetStack dat vm = Inr ((), vm\<lparr>dstack := dat\<rparr>)"
    "onAstack (\<lambda>s. rbind (dropAll s) (\<lambda>s. Inr ((), s))) vm = Inr ((), vm\<lparr>astack := []\<rparr>)"
    "peekDstack Depth vm = Inr (int (length (dstack vm)), vm)"
    "onAstack (\<lambda>s. rbind (Depth s) (\<lambda>a. Inr (a, s))) vm = Inr (int (length (astack vm)), vm)"
  using assms by (simp_all add: height_def GetStack_def SetStack_def peekDstack_def doDstack_def onDstack_def onAstack_def
      Depth_def sized_1000)

lemma checkStackSize_ok:
  assumes "height vm \<le> 1000"
  shows "checkStackSize vm = (if height vm \<le> 244 then Inr ((), vm) else Inl (ScriptError ErrStackOverflow, vm))"
proof -
  have "wrap32 (int (length (dstack vm)) + int (length (astack vm))) = int (height vm)"
    using assms by (simp add: height_def wrap32_def)
  then show ?thesis
    by (simp add: checkStackSize_def vbind_def stack_access [OF assms] MaxStackSize_def vfail_def vret_def)
qed

lemma CheckErrorCondition_safe:
  assumes "goodVm vm" and "height vm \<le> 1000"
  shows "CheckErrorCondition b vm \<noteq> Inl (GoPanic, vm')"
    and "CheckErrorCondition b vm = Inr (u, vm') \<Longrightarrow>
           scriptIdx vm \<ge> length (scripts vm) \<and> (\<exists>s. vm' = vm\<lparr>dstack := s\<rparr> \<and> small s \<and> length s \<le> length (dstack vm))"
proof -
  have "small (dstack vm)" "length (dstack vm) + 0 \<le> 1000"
    using assms by (simp_all add: goodVm_def height_def)
  note p = stackSafeD [OF stackSafe_PopBool this]
  show "CheckErrorCondition b vm \<noteq> Inl (GoPanic, vm')"
    using p(1) by (auto simp: CheckErrorCondition_def vbind_def vget_def vfail_def vret_def stack_access [OF assms(2)]
        onDstack_def rbind_eq_Inl_iff split: if_split_asm sum.splits)
  show "CheckErrorCondition b vm = Inr (u, vm') \<Longrightarrow>
           scriptIdx vm \<ge> length (scripts vm) \<and> (\<exists>s. vm' = vm\<lparr>dstack := s\<rparr> \<and> small s \<and> length s \<le> length (dstack vm))"
    using p(2) by (fastforce simp: CheckErrorCondition_def stack_access [OF assms(2)] onDstack_def
        split: if_split_asm sum.splits)
qed

section \<open>The invariant is preserved\<close>

text \<open>What holds after the last opcode of a script and its stack check.\<close>

definition endInv :: "('pk, 'sg) Engine \<Rightarrow> bool" where
  "endInv vm \<longleftrightarrow>
     goodVm vm \<and> height vm \<le> 244 \<and> list_all (list_all wfPop) (scripts vm) \<and> scriptIdx vm < length (scripts vm) \<and>
     length (scripts vm) = (if scriptIdx vm < 2 then 2 else 3) \<and>
     small (savedFirstStack vm) \<and> length (savedFirstStack vm) \<le> 244 \<and>
     (isP2SH vm \<longrightarrow> (scriptIdx vm = 0 \<longrightarrow> dstack vm \<noteq> [] \<and> isScriptHash (scripts vm ! 1)) \<and>
                    (scriptIdx vm = 1 \<longrightarrow> savedFirstStack vm \<noteq> []))"

text \<open>What holds before the program counter is checked for an empty script.\<close>

definition nextInv :: "('pk, 'sg) Engine \<Rightarrow> bool" where
  "nextInv vm \<longleftrightarrow>
     goodVm vm \<and> height vm \<le> 244 \<and> condStack vm = [] \<and> scriptOff vm = 0 \<and> list_all (list_all wfPop) (scripts vm) \<and>
     0 < scriptIdx vm \<and> (scriptIdx vm < length (scripts vm) \<longrightarrow> length (scripts vm) = (if scriptIdx vm < 2 then 2 else 3)) \<and>
     small (savedFirstStack vm) \<and> length (savedFirstStack vm) \<le> 244 \<and>
     (isP2SH vm \<and> scriptIdx vm = 1 \<longrightarrow> isScriptHash (scripts vm ! 1) \<and> savedFirstStack vm \<noteq> [])"

lemma goodVm_fields:
  assumes "goodVm vm"
  shows "goodVm (vm\<lparr>scriptOff := a\<rparr>)" "goodVm (vm\<lparr>scriptIdx := b\<rparr>)" "goodVm (vm\<lparr>savedFirstStack := c\<rparr>)"
    "goodVm (vm\<lparr>scripts := d\<rparr>)" "goodVm (vm\<lparr>numOps := 0\<rparr>)"
    "small s \<Longrightarrow> goodVm (vm\<lparr>dstack := s\<rparr>)" "small s \<Longrightarrow> goodVm (vm\<lparr>astack := s\<rparr>)"
  using assms by (simp_all add: goodVm_def ctxOk_def MaxOpsPerScript_def)

lemma height_fields [simp]:
  "height (vm\<lparr>scriptOff := a\<rparr>) = height vm" "height (vm\<lparr>scriptIdx := b\<rparr>) = height vm"
  "height (vm\<lparr>savedFirstStack := c\<rparr>) = height vm" "height (vm\<lparr>scripts := d\<rparr>) = height vm"
  "height (vm\<lparr>numOps := n\<rparr>) = height vm"
  by (simp_all add: height_def)

lemma ParseScript_error: "snd (ParseScript script) = Some e \<Longrightarrow> e = ScriptError ErrMalformedPush"
  by (induction script rule: ParseScript_induct) (auto simp: ParseScript_step split: prod.splits)

lemma nextScript_first:
  "scriptIdx vm = 0 \<Longrightarrow> isP2SH vm \<Longrightarrow> height vm \<le> 1000 \<Longrightarrow>
   nextScript vm = Inr ((), vm\<lparr>scriptIdx := 1, savedFirstStack := dstack vm\<rparr>)"
  by (simp add: nextScript_def vbind_def vget_def vmodify_def stack_access)

lemma nextScript_other:
  "\<not> (isP2SH vm \<and> scriptIdx vm \<le> 1) \<Longrightarrow> nextScript vm = Inr ((), vm\<lparr>scriptIdx := scriptIdx vm + 1\<rparr>)"
  by (auto simp: nextScript_def vbind_def vget_def vmodify_def)

lemma nextScript_redeem:
  assumes "goodVm vm" "height vm \<le> 1000" "scriptIdx vm = 1" "isP2SH vm" "savedFirstStack vm \<noteq> []"
  shows "nextScript vm \<noteq> Inl (GoPanic, vm')"
    and "nextScript vm = Inr (u, vm') \<Longrightarrow>
      vm' = vm\<lparr>scriptIdx := 2, scripts := scripts vm @ [fst (ParseScript (last (savedFirstStack vm)))],
               dstack := butlast (savedFirstStack vm)\<rparr>"
proof -
  let ?vm = "vm\<lparr>scriptIdx := 2\<rparr>"
  obtain pops err where parse: "ParseScript (last (savedFirstStack vm)) = (pops, err)" by fastforce
  have good: "goodVm ?vm" "height ?vm \<le> 1000" using assms(1,2) by (simp_all add: goodVm_fields)
  note c = CheckErrorCondition_safe [OF good]
  have eq: "nextScript vm = rbind (CheckErrorCondition False ?vm) (\<lambda>(_, w).
      if length (savedFirstStack w) = 0 then Inl (GoPanic, w)
      else case ParseScript (last (savedFirstStack w)) of
        (pops, Some e) \<Rightarrow> Inl (e, w)
      | (pops, None) \<Rightarrow> SetStack (butlast (savedFirstStack w)) (w\<lparr>scripts := scripts w @ [pops]\<rparr>))"
    using assms(3,4) by (auto simp: nextScript_def vbind_def vget_def vmodify_def vfail_def numeral_2_eq_2
        intro!: arg_cong [where f = "rbind _"] split: prod.splits option.splits)
  show "nextScript vm \<noteq> Inl (GoPanic, vm')"
  proof (cases "CheckErrorCondition False ?vm")
    case (Inl e)
    then show ?thesis using c(1) by (auto simp: eq)
  next
    case (Inr r)
    then obtain v w where r: "CheckErrorCondition False ?vm = Inr (v, w)" by (cases r) auto
    obtain s where w: "CheckErrorCondition False ?vm = Inr (v, ?vm\<lparr>dstack := s\<rparr>)" "length s \<le> 1000"
      using c(2) [OF r] r good(2) by (auto simp: height_def)
    then show ?thesis
      using assms(5) parse ParseScript_error [of "last (savedFirstStack vm)"]
      by (auto simp: eq SetStack_def doDstack_def onDstack_def split: option.splits)
  qed
  assume "nextScript vm = Inr (u, vm')"
  then obtain s where "CheckErrorCondition False ?vm = Inr ((), ?vm\<lparr>dstack := s\<rparr>)" "length s \<le> 1000" "err = None"
    using c(2) good(2) parse by (fastforce simp: eq rbind_eq_Inr_iff height_def split: if_split_asm option.splits)
  then show "vm' = vm\<lparr>scriptIdx := 2, scripts := scripts vm @ [fst (ParseScript (last (savedFirstStack vm)))],
               dstack := butlast (savedFirstStack vm)\<rparr>"
    using \<open>nextScript vm = Inr (u, vm')\<close> assms(5) parse by (auto simp: eq SetStack_def doDstack_def onDstack_def)
qed

lemma nextScript_nextInv:
  assumes "endInv vm" and "condStack vm = []" and "scriptOff vm = 0" and "astack vm = []"
  shows "nextScript vm \<noteq> Inl (GoPanic, vm')" and "nextScript vm = Inr (u, vm') \<Longrightarrow> nextInv vm'"
proof -
  have good: "goodVm vm" "height vm \<le> 1000" "height vm = length (dstack vm)"
    using assms(1,4) by (simp_all add: endInv_def height_def)
  consider (first) "scriptIdx vm = 0" "isP2SH vm" | (redeem) "scriptIdx vm = 1" "isP2SH vm" "savedFirstStack vm \<noteq> []"
    | (other) "\<not> (isP2SH vm \<and> scriptIdx vm \<le> 1)"
    using assms(1) by (auto simp: endInv_def le_Suc_eq)
  then have "nextScript vm \<noteq> Inl (GoPanic, vm') \<and> (nextScript vm = Inr (u, vm') \<longrightarrow> nextInv vm')"
  proof cases
    case first
    then show ?thesis
      using assms good by (auto simp: nextScript_first endInv_def nextInv_def goodVm_fields goodVm_small)
  next
    case redeem
    have "small (butlast (savedFirstStack vm))" "length (butlast (savedFirstStack vm)) \<le> 244"
      using assms(1) by (auto simp: endInv_def small_def dest: in_set_butlastD)
    then show ?thesis
      using nextScript_redeem [OF good(1,2) redeem] assms redeem ParseScript_wf
      by (auto simp: endInv_def nextInv_def goodVm_fields height_def)
  next
    case other
    then show ?thesis
      using assms good by (auto simp: nextScript_other endInv_def nextInv_def goodVm_fields)
  qed
  then show "nextScript vm \<noteq> Inl (GoPanic, vm')" "nextScript vm = Inr (u, vm') \<Longrightarrow> nextInv vm'"
    by blast+
qed

lemma endScript_safe:
  assumes "endInv vm"
  shows "endScript vm \<noteq> Inl (GoPanic, vm')"
    and "endScript vm = Inr (done, vm') \<Longrightarrow>
           goodVm vm' \<and> height vm' \<le> 244 \<and> (done \<longleftrightarrow> scriptIdx vm' \<ge> length (scripts vm')) \<and> (\<not> done \<longrightarrow> stepInv vm')"
proof -
  let ?vm = "vm\<lparr>astack := [], numOps := 0, scriptOff := 0\<rparr>"
  have h: "height vm \<le> 1000" using assms by (simp add: endInv_def)
  have eq: "endScript vm = (if condStack vm \<noteq> [] then Inl (ScriptError ErrUnbalancedConditional, vm)
      else rbind (nextScript ?vm) (\<lambda>(_, w).
        let w' = (if scriptIdx w < length (scripts w) \<and> scriptOff w \<ge> length (scripts w ! scriptIdx w)
                  then w\<lparr>scriptIdx := scriptIdx w + 1\<rparr> else w)
        in Inr (scriptIdx w' \<ge> length (scripts w'), w')))"
    by (auto simp: endScript_def vbind_def vget_def vfail_def vmodify_def stack_access [OF h] Let_def
        intro!: arg_cong [where f = "rbind _"])
  have "endInv ?vm"
    using assms by (auto simp: endInv_def goodVm_fields height_def)
  note n = nextScript_nextInv [OF this]
  show "endScript vm \<noteq> Inl (GoPanic, vm')"
    using n(1) by (auto simp: eq rbind_eq_Inl_iff Let_def)
  assume "endScript vm = Inr (done, vm')"
  then obtain w where w: "nextInv w" "vm' = (if scriptIdx w < length (scripts w) \<and> scriptOff w \<ge> length (scripts w ! scriptIdx w)
      then w\<lparr>scriptIdx := scriptIdx w + 1\<rparr> else w)" "done \<longleftrightarrow> scriptIdx vm' \<ge> length (scripts vm')"
    using n(2) by (auto simp: eq rbind_eq_Inr_iff Let_def split: if_split_asm)
  then show "goodVm vm' \<and> height vm' \<le> 244 \<and> (done \<longleftrightarrow> scriptIdx vm' \<ge> length (scripts vm')) \<and> (\<not> done \<longrightarrow> stepInv vm')"
    by (auto simp: nextInv_def stepInv_def p2shInv_def goodVm_fields split: if_split_asm)
qed

lemma executeOpcode_endInv:
  assumes "blake2bOk env" and "stepInv vm" and "pop = scripts vm ! scriptIdx vm ! scriptOff vm"
    and "executeOpcode env pop (vm\<lparr>scriptOff := scriptOff vm + 1\<rparr>) = Inr (u, w)" and "height w \<le> 244"
  shows "endInv w" and "scriptOff w < length (scripts w ! scriptIdx w) \<Longrightarrow> stepInv w"
proof -
  let ?vm = "vm\<lparr>scriptOff := scriptOff vm + 1\<rparr>"
  have idx: "scriptIdx vm < length (scripts vm)" "scriptOff vm < length (scripts vm ! scriptIdx vm)"
    using assms(2) by (simp_all add: stepInv_def)
  have wf: "wfPop pop"
    using assms(2,3) idx by (simp add: stepInv_def list_all_length)
  have good: "goodVm ?vm" "height ?vm + 3 \<le> 1000"
    using assms(2) by (simp_all add: stepInv_def goodVm_fields)
  have w: "goodVm w" "pc w = pc ?vm"
    using growsD(2) [OF executeOpcode_safe [OF assms(1) wf] good assms(4)] keepsPcD [OF keepsPc_executeOpcode assms(4)] by simp_all
  have first: "dstack w \<noteq> [] \<and> condStack w = []" if "isP2SH vm" "scriptIdx vm = 0"
  proof -
    have "\<not> opValue (popOpcode pop) > Op16" "condStack ?vm = []"
      using that assms(2,3) idx by (auto simp: stepInv_def p2shInv_def isPushOnly_def list_all_length)
    then show ?thesis
      using executeOpcode_push [OF wf _ _ assms(4)] by auto
  qed
  have second: "savedFirstStack vm \<noteq> []" if "isP2SH vm" "scriptIdx vm = 1"
  proof
    assume "savedFirstStack vm = []"
    then have p: "scriptOff vm = 0" "dstack ?vm = []" "isScriptHash (scripts vm ! 1)" "condStack ?vm = []"
      using that assms(2) by (auto simp: stepInv_def p2shInv_def)
    then have "opValue (popOpcode pop) = OpBlake2b"
      using that assms(3) by (simp add: isScriptHash_def)
    then show False
      using executeOpcode_blake2b_empty [OF wf _ p(4,2)] assms(4) by blast
  qed
  show "endInv w" "scriptOff w < length (scripts w ! scriptIdx w) \<Longrightarrow> stepInv w"
    using w first second assms(2,5) by (auto simp: pc_def endInv_def stepInv_def p2shInv_def)
qed

lemma if_app: "(if b then f else g) x = (if b then f x else g x)"
  by simp

lemma Step_safe:
  assumes "blake2bOk env" and "stepInv vm"
  shows "Step env vm \<noteq> Inl (GoPanic, vm')"
    and "Step env vm = Inr (done, vm') \<Longrightarrow>
           goodVm vm' \<and> height vm' \<le> 244 \<and> (done \<longleftrightarrow> scriptIdx vm' \<ge> length (scripts vm')) \<and> (\<not> done \<longrightarrow> stepInv vm')"
proof -
  let ?pop = "scripts vm ! scriptIdx vm ! scriptOff vm"
  let ?vm = "vm\<lparr>scriptOff := scriptOff vm + 1\<rparr>"
  have idx: "scriptIdx vm < length (scripts vm)" "scriptOff vm < length (scripts vm ! scriptIdx vm)"
    using assms(2) by (simp_all add: stepInv_def)
  have eq: "Step env vm = rbind (executeOpcode env ?pop ?vm) (\<lambda>(_, w). rbind (checkStackSize w) (\<lambda>(_, w).
      if scriptOff w \<ge> length (scripts w ! scriptIdx w) then endScript w else Inr (False, w)))"
    using idx by (simp add: Step_def vbind_def validPC_def vget_def vmodify_def if_app case_prod_beta' vret_def cong: if_cong)
  have wf: "wfPop ?pop"
    using assms(2) idx by (simp add: stepInv_def list_all_length)
  have good: "goodVm ?vm" "height ?vm + 3 \<le> 1000" "height ?vm \<le> 244"
    using assms(2) by (simp_all add: stepInv_def goodVm_fields)
  note ex = growsD [OF executeOpcode_safe [OF assms(1) wf] good(1,2)]
  have w: "checkStackSize w = (if height w \<le> 244 then Inr ((), w) else Inl (ScriptError ErrStackOverflow, w))"
    if "executeOpcode env ?pop ?vm = Inr (u, w)" for u w
    using ex(2) [OF that] good(3) by (intro checkStackSize_ok) simp
  show "Step env vm \<noteq> Inl (GoPanic, vm')"
    using ex(1) w executeOpcode_endInv(1) [OF assms refl] endScript_safe(1)
    by (fastforce simp: eq rbind_eq_Inl_iff split: if_split_asm)
  assume "Step env vm = Inr (done, vm')"
  then obtain u v where v: "executeOpcode env ?pop ?vm = Inr (u, v)" "height v \<le> 244"
    "(if scriptOff v \<ge> length (scripts v ! scriptIdx v) then endScript v else Inr (False, v)) = Inr (done, vm')"
    using w by (auto simp: eq rbind_eq_Inr_iff split: if_split_asm)
  note i = executeOpcode_endInv [OF assms refl v(1,2)]
  show "goodVm vm' \<and> height vm' \<le> 244 \<and> (done \<longleftrightarrow> scriptIdx vm' \<ge> length (scripts vm')) \<and> (\<not> done \<longrightarrow> stepInv vm')"
  proof (cases "scriptOff v \<ge> length (scripts v ! scriptIdx v)")
    case True
    then show ?thesis using endScript_safe(2) [OF i(1)] v(3) by simp
  next
    case False
    then show ?thesis using i(2) v(3) by (auto simp: stepInv_def)
  qed
qed

lemma executeLoop_safe:
  assumes "blake2bOk env"
  shows "stepInv vm \<Longrightarrow> executeLoop env vm \<noteq> Inl (GoPanic, vm')"
    and "stepInv vm \<Longrightarrow> executeLoop env vm = Inr (u, vm') \<Longrightarrow>
           goodVm vm' \<and> height vm' \<le> 244 \<and> scriptIdx vm' \<ge> length (scripts vm')"
proof -
  have "stepInv vm \<longrightarrow> executeLoop env vm \<noteq> Inl (GoPanic, vm') \<and> (executeLoop env vm = Inr (u, vm') \<longrightarrow>
           goodVm vm' \<and> height vm' \<le> 244 \<and> scriptIdx vm' \<ge> length (scripts vm'))"
    using assms
  proof (induction env vm rule: executeLoop.induct)
    case (1 env vm)
    show ?case
    proof
      assume inv: "stepInv vm"
      note s = Step_safe [OF 1(2) inv]
      show "executeLoop env vm \<noteq> Inl (GoPanic, vm') \<and> (executeLoop env vm = Inr (u, vm') \<longrightarrow>
           goodVm vm' \<and> height vm' \<le> 244 \<and> scriptIdx vm' \<ge> length (scripts vm'))"
      proof (cases "Step env vm")
        case (Inl e)
        then show ?thesis using s(1) by (subst (1 2) executeLoop.simps) auto
      next
        case (Inr r)
        obtain d w where r: "r = (d, w)" by (cases r)
        show ?thesis
          using s(2) Inr r 1(1) [OF Inr r [symmetric]] 1(2) by (subst (1 2) executeLoop.simps) (cases d; auto)
      qed
    qed
  qed
  then show "stepInv vm \<Longrightarrow> executeLoop env vm \<noteq> Inl (GoPanic, vm')"
    "stepInv vm \<Longrightarrow> executeLoop env vm = Inr (u, vm') \<Longrightarrow>
           goodVm vm' \<and> height vm' \<le> 244 \<and> scriptIdx vm' \<ge> length (scripts vm')"
    by blast+
qed

section \<open>New engines\<close>

lemma parseScriptAndVerifySize_Inr:
  assumes "parseScriptAndVerifySize script = Inr pops"
  shows "list_all wfPop pops" and "pops = [] \<longleftrightarrow> script = []"
proof -
  have p: "ParseScript script = (pops, None)"
    using assms by (auto simp: parseScriptAndVerifySize_def split: if_split_asm prod.splits option.splits)
  then show "list_all wfPop pops"
    using ParseScript_wf [of script] by simp
  show "pops = [] \<longleftrightarrow> script = []"
    using p by (cases "script = []") (auto simp: ParseScript_step split: option.splits prod.splits)
qed

lemma NewEngine_stepInv:
  assumes "NewEngine spk tx idx flgs c ce (Some reused) = Inr vm"
    and "inputUTXOEntry (Inputs tx ! nat idx) \<noteq> None" and "\<not> scriptVersion vm > MaxScriptPublicKeyVersion"
  shows "stepInv vm"
proof -
  let ?sig = "SignatureScript (Inputs tx ! nat idx)"
  obtain sigPops pkPops where idx: "0 \<le> idx" "idx < int (length (Inputs tx))"
    and nonempty: "?sig \<noteq> [] \<or> spkScript spk \<noteq> []"
    and parse: "parseScriptAndVerifySize ?sig = Inr sigPops" "parseScriptAndVerifySize (spkScript spk) = Inr pkPops"
    and push: "isPushOnly sigPops"
    and vm: "vm = zeroEngine\<lparr>scriptVersion := spkVersion spk, flags := flgs, sigCache := c, sigCacheECDSA := ce,
       scripts := [sigPops, pkPops], scriptIdx := (if ?sig = [] then 1 else 0), isP2SH := isScriptHash pkPops,
       engineTx := tx, txIdx := nat idx, sigHashReusedValues := Some reused\<rparr>"
    using assms(1,3)
    by (auto simp: NewEngine_def Init_def Let_def rbind_eq_Inr_iff zeroEngine_def not_le not_less split: if_split_asm)
  note p1 = parseScriptAndVerifySize_Inr [OF parse(1)]
  note p2 = parseScriptAndVerifySize_Inr [OF parse(2)]
  have "nat idx < length (Inputs tx)" using idx by auto
  then show ?thesis
    using p1 p2 push nonempty assms(2)
    by (auto simp: vm stepInv_def goodVm_def ctxOk_def height_def p2shInv_def zeroEngine_def MaxOpsPerScript_def)
qed

text \<open>The engines that execution passes through.\<close>

inductive reaches :: "('pk, 'sg) script_env \<Rightarrow> ('pk, 'sg) Engine \<Rightarrow> ('pk, 'sg) Engine \<Rightarrow> bool" for env vm where
  start: "reaches env vm vm"
| step: "reaches env vm w \<Longrightarrow> Step env w = Inr (False, w') \<Longrightarrow> reaches env vm w'"

lemma reaches_stepInv: "reaches env vm w \<Longrightarrow> blake2bOk env \<Longrightarrow> stepInv vm \<Longrightarrow> stepInv w"
  by (induction rule: reaches.induct) (auto dest: Step_safe(2))

lemma CheckErrorCondition_final:
  assumes "height vm \<le> 1000" and "scriptIdx vm \<ge> length (scripts vm)"
  shows "(\<exists>w. CheckErrorCondition True vm = Inr ((), w)) \<longleftrightarrow> (\<exists>x. dstack vm = [x] \<and> asBool x)"
proof -
  have "sized (dstack vm)" using assms(1) by (simp add: height_def sized_def)
  then show ?thesis
    using assms PopByteArray_simps(2) [of "[]"]
    by (cases "dstack vm" rule: list.exhaust; cases "tl (dstack vm)")
      (auto simp: CheckErrorCondition_def vbind_def vget_def vfail_def vret_def stack_access onDstack_def PopBool_def sized_def)
qed

lemma Execute_no_panic:
  assumes "blake2bOk env" and "NewEngine spk tx idx flgs c ce (Some reused) = Inr vm"
    and "inputUTXOEntry (Inputs tx ! nat idx) \<noteq> None"
  shows "Execute env vm \<noteq> Inl (GoPanic, vm')"
proof (cases "scriptVersion vm > MaxScriptPublicKeyVersion")
  case True
  then show ?thesis by (simp add: Execute_def vbind_def vget_def vret_def)
next
  case False
  note loop = executeLoop_safe [OF assms(1) NewEngine_stepInv [OF assms(2,3) False]]
  show ?thesis
  proof (cases "executeLoop env vm")
    case (Inl e)
    then show ?thesis using loop(1) False by (auto simp: Execute_def vbind_def vget_def)
  next
    case (Inr r)
    then obtain w where w: "executeLoop env vm = Inr ((), w)" by (cases r) auto
    then have fin: "goodVm w" "height w \<le> 1000"
      using loop(2) by fastforce+
    then show ?thesis
      using CheckErrorCondition_safe(1) [OF fin] w False by (auto simp: Execute_def vbind_def vget_def)
  qed
qed

text \<open>A concrete environment, an anyone-can-spend output and an input that pushes 1.\<close>

definition exampleEnv :: "(nat, nat) script_env" where
  "exampleEnv = \<lparr>blake3 = lengthHash, blake2b_Sum256 = (\<lambda>m. word_of_nat (length m) # replicate 31 1),
     secp_schnorr = exampleLib, secp_ecdsa = exampleLib, rangeFirst = firstKey\<rparr>"

abbreviation exampleNew :: "bytes \<Rightarrow> bytes \<Rightarrow> script_failure + (nat, nat) Engine" where
  "exampleNew sig pk \<equiv>
     NewEngine \<lparr>spkScript = pk, spkVersion = 0\<rparr> (sampleTx sig) 0 0 None None (Some emptyReusedValues)"

lemma exampleEnv_blake2bOk: "blake2bOk exampleEnv"
  by (simp add: blake2bOk_def exampleEnv_def)

lemma sampleTx_entry: "inputUTXOEntry (Inputs (sampleTx sig) ! nat 0) \<noteq> None"
  by (simp add: sampleTx_def)

section \<open>Properties\<close>



text \<open>C7. The limits hold throughout execution: in every engine that execution of a new engine
  passes through, for a script of a supported version and an input whose UTXO entry is known, the
  two stacks have at most 244 items together, no item is longer than 520 bytes, at most 201
  operations are counted, and the program counter points at an opcode.\<close>

theorem engine_invariant:
  assumes "blake2bOk env" and "NewEngine spk tx idx flgs c ce (Some reused) = Inr vm"
    and "inputUTXOEntry (Inputs tx ! nat idx) \<noteq> None" and "\<not> scriptVersion vm > MaxScriptPublicKeyVersion"
    and "reaches env vm w"
  shows "int (length (dstack w) + length (astack w)) \<le> MaxStackSize \<and>
         list_all (\<lambda>x. length x \<le> MaxScriptElementSize) (dstack w @ astack w) \<and>
         numOps w \<le> MaxOpsPerScript \<and> validPC w = Inr ((), w)"
proof -
  have "stepInv w"
    using reaches_stepInv [OF assms(5,1) NewEngine_stepInv [OF assms(2-4)]] .
  then show ?thesis
    by (auto simp: stepInv_def goodVm_def height_def MaxStackSize_def small_def list_all_iff validPC_def)
qed

theorem engine_invariant_witness:
  "\<exists>vm w. exampleNew [81] [97] = Inr vm \<and> Step exampleEnv vm = Inr (False, w) \<and>
          dstack w = [[1]] \<and> validPC w = Inr ((), w)"
proof -
  have "case exampleNew [81] [97] of
          Inr vm \<Rightarrow> \<not> scriptVersion vm > MaxScriptPublicKeyVersion \<and>
             (case Step exampleEnv vm of Inr (done, w) \<Rightarrow> \<not> done \<and> dstack w = [[1]] | _ \<Rightarrow> False)
        | _ \<Rightarrow> False"
    by code_simp
  then obtain vm w where vm: "exampleNew [81] [97] = Inr vm" "\<not> scriptVersion vm > MaxScriptPublicKeyVersion"
    and w: "Step exampleEnv vm = Inr (False, w)" "dstack w = [[1]]"
    by (auto split: sum.splits)
  have "reaches exampleEnv vm w"
    by (rule reaches.step [OF reaches.start w(1)])
  then show ?thesis
    using engine_invariant [OF exampleEnv_blake2bOk vm(1) sampleTx_entry vm(2)] vm w by blast
qed

end
