(* ===== verification/Script_Caches.thy ===== *)
theory Script_Caches
  imports Script_Invariant
begin

text \<open>
  The caches of the script engine do not influence its verdict.

  The engine carries two signature caches and the reusable hashes of its transaction. Two engines
  are alike when they agree on everything else, run on the same transaction and a supported script
  version, and what their caches hold is right. A
  computation is cache-independent when it takes alike engines to equal results and alike engines.
  All opcode handlers, \<open>Step\<close> and \<open>Execute\<close> are, by the rules below for the ways they are composed
  and, for the signature opcodes, by the interface of the signature cache.
\<close>

section \<open>Alike engines\<close>

definition bare :: "('pk, 'sg) Engine \<Rightarrow> ('pk, 'sg) Engine" where
  "bare vm = vm\<lparr>sigCache := None, sigCacheECDSA := None, sigHashReusedValues := None\<rparr>"

definition cachesOk :: "('pk, 'sg) script_env \<Rightarrow> DomainTransaction \<Rightarrow> ('pk, 'sg) Engine \<Rightarrow> bool" where
  "cachesOk env tx vm \<longleftrightarrow>
     pred_option (cacheSound (secp_schnorr env)) (sigCache vm) \<and>
     pred_option (cacheSound (secp_ecdsa env)) (sigCacheECDSA vm) \<and>
     (\<exists>r. sigHashReusedValues vm = Some r \<and> reusedOk (blake3 env) tx r) \<and>
     engineTx vm = tx \<and> \<not> scriptVersion vm > MaxScriptPublicKeyVersion"

definition alike :: "('pk, 'sg) script_env \<Rightarrow> DomainTransaction \<Rightarrow> ('pk, 'sg) Engine \<Rightarrow> ('pk, 'sg) Engine \<Rightarrow> bool" where
  "alike env tx vm vm' \<longleftrightarrow> cachesOk env tx vm \<and> cachesOk env tx vm' \<and> bare vm = bare vm'"

abbreviation alikeResults ::
    "('pk, 'sg) script_env \<Rightarrow> DomainTransaction \<Rightarrow> (script_failure \<times> ('pk, 'sg) Engine) + ('a \<times> ('pk, 'sg) Engine)
     \<Rightarrow> (script_failure \<times> ('pk, 'sg) Engine) + ('a \<times> ('pk, 'sg) Engine) \<Rightarrow> bool" where
  "alikeResults env tx \<equiv> rel_sum (rel_prod (=) (alike env tx)) (rel_prod (=) (alike env tx))"

definition sim :: "('pk, 'sg) script_env \<Rightarrow> DomainTransaction \<Rightarrow> ('a, 'pk, 'sg) vm \<Rightarrow> bool" where
  "sim env tx m \<longleftrightarrow> (\<forall>vm vm'. alike env tx vm vm' \<longrightarrow> alikeResults env tx (m vm) (m vm'))"

lemma bare_fields [simp]:
  "scriptVersion (bare vm) = scriptVersion vm" "scripts (bare vm) = scripts vm" "scriptIdx (bare vm) = scriptIdx vm"
  "scriptOff (bare vm) = scriptOff vm" "dstack (bare vm) = dstack vm" "astack (bare vm) = astack vm"
  "engineTx (bare vm) = engineTx vm" "txIdx (bare vm) = txIdx vm" "condStack (bare vm) = condStack vm"
  "numOps (bare vm) = numOps vm" "isP2SH (bare vm) = isP2SH vm" "savedFirstStack (bare vm) = savedFirstStack vm"
  by (simp_all add: bare_def)

lemma alike_dstack: "alike env tx vm vm' \<Longrightarrow> dstack vm' = dstack vm \<and> astack vm' = astack vm"
  by (metis alike_def bare_fields(5,6))

section \<open>Rules\<close>

lemma sim_vret [vm_sim]: "sim env tx (vret x)"
  by (simp add: sim_def vret_def)

lemma sim_vfail [vm_sim]: "sim env tx (vfail e)"
  by (simp add: sim_def vfail_def)

lemma sim_vlift [vm_sim]: "sim env tx (vlift r)"
  by (simp add: sim_def vlift_def split: sum.splits)

lemma sim_vbind [vm_sim]:
  assumes "sim env tx m" and "\<And>x. sim env tx (f x)"
  shows "sim env tx (vbind m f)"
  unfolding sim_def
proof (intro allI impI)
  fix vm vm' assume "alike env tx vm vm'"
  then have "alikeResults env tx (m vm) (m vm')" using assms(1) by (simp add: sim_def)
  then show "alikeResults env tx (vbind m f vm) (vbind m f vm')"
    by (cases rule: rel_sum.cases) (use assms(2) in \<open>auto simp: vbind_def sim_def\<close>)
qed

lemma sim_if [vm_sim]: "(b \<Longrightarrow> sim env tx m) \<Longrightarrow> (\<not> b \<Longrightarrow> sim env tx n) \<Longrightarrow> sim env tx (if b then m else n)"
  by simp

lemma sim_case [vm_sim]:
  "sim env tx m \<Longrightarrow> (\<And>x. sim env tx (f x)) \<Longrightarrow> sim env tx (case r of None \<Rightarrow> m | Some x \<Rightarrow> f x)"
  by (simp split: option.splits)

lemma sim_vget [vm_sim]: "(\<And>vm. f (bare vm) = f vm) \<Longrightarrow> sim env tx (vget f)"
proof -
  assume "\<And>vm. f (bare vm) = f vm"
  then have "f vm = f vm'" if "alike env tx vm vm'" for vm vm'
    using that by (metis alike_def)
  then show ?thesis by (simp add: sim_def vget_def)
qed

text \<open>A change of the engine that neither reads nor writes the caches.\<close>

definition cacheFree :: "(('pk, 'sg) Engine \<Rightarrow> ('pk, 'sg) Engine) \<Rightarrow> bool" where
  "cacheFree f \<longleftrightarrow> (\<forall>vm. bare (f vm) = f (bare vm) \<and> sigCache (f vm) = sigCache vm \<and>
     sigCacheECDSA (f vm) = sigCacheECDSA vm \<and> sigHashReusedValues (f vm) = sigHashReusedValues vm \<and>
     engineTx (f vm) = engineTx vm \<and> scriptVersion (f vm) = scriptVersion vm)"

lemma alike_cacheFree: "cacheFree f \<Longrightarrow> alike env tx vm vm' \<Longrightarrow> alike env tx (f vm) (f vm')"
  by (simp add: cacheFree_def alike_def cachesOk_def)

lemma sim_vmodify [vm_sim]: "cacheFree f \<Longrightarrow> sim env tx (vmodify f)"
  by (simp add: sim_def vmodify_def alike_cacheFree)

lemma cacheFree_stacks: "cacheFree (\<lambda>vm. vm\<lparr>dstack := s\<rparr>)" "cacheFree (\<lambda>vm. vm\<lparr>astack := s\<rparr>)"
  by (simp_all add: cacheFree_def bare_def)

lemma sim_onDstack [vm_sim]: "sim env tx (onDstack f)" "sim env tx (onAstack f)"
proof -
  have "alikeResults env tx (onDstack f vm) (onDstack f vm') \<and> alikeResults env tx (onAstack f vm) (onAstack f vm')"
    if "alike env tx vm vm'" for vm vm' :: "('a, 'b) Engine"
    using that alike_dstack [OF that] alike_cacheFree [OF cacheFree_stacks(1) that]
      alike_cacheFree [OF cacheFree_stacks(2) that]
    by (auto simp: onDstack_def onAstack_def split: sum.splits)
  then show "sim env tx (onDstack f)" "sim env tx (onAstack f)"
    by (simp_all add: sim_def)
qed

lemma sim_doDstack [vm_sim]: "sim env tx (doDstack g)" "sim env tx (peekDstack h)"
  by (simp_all add: doDstack_def peekDstack_def sim_onDstack)

section \<open>Handlers\<close>

lemma sim_popIfBool [vm_sim]: "sim env tx popIfBool" "sim env tx (pushCond c)"
  by (auto simp: popIfBool_def pushCond_def cacheFree_def bare_def intro!: vm_sim)

lemma isBranchExecuting_bare [simp]: "isBranchExecuting (bare vm) = isBranchExecuting vm"
  by (simp add: isBranchExecuting_def)

lemma sim_engineSigHash [vm_sim]:
  assumes "isScheme env scheme"
  shows "sim env tx (engineSigHash scheme hashType)"
  unfolding sim_def
proof (intro allI impI)
  fix vm vm' :: "('a, 'b) Engine" assume a: "alike env tx vm vm'"
  then obtain r r' where r: "sigHashReusedValues vm = Some r" "reusedOk (blake3 env) tx r"
    "sigHashReusedValues vm' = Some r'" "reusedOk (blake3 env) tx r'" and tx: "engineTx vm = tx" "engineTx vm' = tx"
    by (auto simp: alike_def cachesOk_def)
  have idx: "txIdx vm' = txIdx vm"
    using a by (metis alike_def bare_fields(8))
  have upd: "alike env tx (vm\<lparr>sigHashReusedValues := Some q\<rparr>) (vm'\<lparr>sigHashReusedValues := Some q'\<rparr>)"
    if "reusedOk (blake3 env) tx q" "reusedOk (blake3 env) tx q'" for q q'
    using a that tx by (simp add: alike_def cachesOk_def bare_def)
  note h = CalculateSignatureHashSchnorr_cases [OF r(2), of r' "txIdx vm" hashType]
  show "alikeResults env tx (engineSigHash scheme hashType vm) (engineSigHash scheme hashType vm')"
    using assms h r a tx idx upd
    by (auto simp: engineSigHash_def isScheme_def schnorrScheme_def ecdsaScheme_def CalculateSignatureHashECDSA_def)
qed

lemma sim_engineVerify [vm_sim]:
  assumes "isScheme env scheme"
  shows "sim env tx (engineVerify env scheme h sg pk)"
  unfolding sim_def
proof (intro allI impI)
  fix vm vm' :: "('a, 'b) Engine" assume a: "alike env tx vm vm'"
  have co: "pred_option (cacheSound (schemeLib scheme)) (schemeCache scheme vm)"
    "pred_option (cacheSound (schemeLib scheme)) (schemeCache scheme vm')"
    using a assms by (auto simp: alike_def cachesOk_def isScheme_def schnorrScheme_def ecdsaScheme_def)
  have upd: "alike env tx (schemeSetCache scheme c vm) (schemeSetCache scheme c' vm')"
    if "pred_option (cacheSound (schemeLib scheme)) c" "pred_option (cacheSound (schemeLib scheme)) c'" for c c'
    using a assms that by (auto simp: alike_def cachesOk_def bare_def isScheme_def schnorrScheme_def ecdsaScheme_def)
  show "alikeResults env tx (engineVerify env scheme h sg pk vm) (engineVerify env scheme h sg pk vm')"
    using signatures.cachedVerify_verifies [OF co(1), of "rangeFirst env" "(h, sg, pk)"]
      signatures.cachedVerify_verifies [OF co(2), of "rangeFirst env" "(h, sg, pk)"]
      upd [OF signatures.cachedVerify_sound [OF co(1), of "rangeFirst env" "(h, sg, pk)"]
        signatures.cachedVerify_sound [OF co(2), of "rangeFirst env" "(h, sg, pk)"]]
    by (simp add: engineVerify_def case_prod_beta)
qed

lemma sim_popMany [vm_sim]: "sim env tx (popMany n)"
  by (induction n) (auto intro!: vm_sim)

lemma sim_multiSigLoop [vm_sim]:
  "isScheme env scheme \<Longrightarrow> sim env tx (multiSigLoop env scheme pubKeys n pubKeyIdx signatureIdx numSignatures sigs)"
  by (induction n arbitrary: pubKeyIdx signatureIdx numSignatures sigs) (auto simp: Let_def intro!: vm_sim)

lemmas cacheFree_defs = cacheFree_def bare_def isBranchExecuting_def

lemma sim_checkSig [vm_sim]:
  assumes "isScheme env scheme"
  shows "sim env tx (checkSigWith env scheme pop)" "sim env tx (checkMultiSigWith env scheme pop)"
  using assms by (auto simp: checkSigWith_def checkMultiSigWith_def Let_def cacheFree_defs intro!: vm_sim)

lemma sim_abstractVerify [vm_sim]: "sim env tx (abstractVerify pop c)"
  by (auto simp: abstractVerify_def intro!: vm_sim)

lemma sim_runOpfunc [vm_sim]: "sim env tx (runOpfunc env f pop)"
proof (cases f)
  case (FnPush g)
  then show ?thesis by (cases g) (auto simp: push_defs intro!: vm_sim)
next
  case (FnControl g)
  then show ?thesis
    by (cases g) (auto simp: control_defs cacheFree_defs engineInput_def intro!: vm_sim)
next
  case (FnStack g)
  then show ?thesis by (cases g) (auto simp: stack_defs intro!: vm_sim)
next
  case (FnSplice g)
  then show ?thesis by (cases g) (auto simp: splice_defs intro!: vm_sim)
next
  case (FnNum g)
  then show ?thesis by (cases g) (auto simp: num_defs intro!: vm_sim)
next
  case (FnCrypto g)
  then show ?thesis by (cases g) (auto simp: crypto_defs intro!: vm_sim)
qed (auto simp: opcodeReserved_def opcodeDisabled_def opcodeInvalid_def intro!: vm_sim)

section \<open>Steps\<close>

lemma sim_executeOpcode [vm_sim]: "sim env tx (executeOpcode env pop)"
  by (auto simp: executeOpcode_def countOp_def cacheFree_defs intro!: vm_sim)

lemma sim_checkStackSize [vm_sim]: "sim env tx checkStackSize"
  by (auto simp: checkStackSize_def intro!: vm_sim)

lemma sim_CheckErrorCondition [vm_sim]: "sim env tx (CheckErrorCondition finalScript)"
  by (auto simp: CheckErrorCondition_def intro!: vm_sim)

lemma sim_parse [vm_sim]:
  "(\<And>e. sim env tx (g e)) \<Longrightarrow> (\<And>pops. sim env tx (f pops)) \<Longrightarrow>
   sim env tx (case r of (pops, None) \<Rightarrow> f pops | (pops, Some e) \<Rightarrow> g e)"
  by (simp split: prod.splits option.splits)

lemma sim_nextScript [vm_sim]: "sim env tx nextScript"
  by (auto simp: nextScript_def GetStack_def SetStack_def cacheFree_defs intro!: vm_sim split: prod.split)

lemma sim_endScript [vm_sim]: "sim env tx endScript"
  by (auto simp: endScript_def cacheFree_defs intro!: vm_sim)

lemma sim_validPC [vm_sim]: "sim env tx validPC"
proof -
  have "scripts vm' = scripts vm \<and> scriptIdx vm' = scriptIdx vm \<and> scriptOff vm' = scriptOff vm"
    if "alike env tx vm vm'" for vm vm'
    using that by (metis alike_def bare_fields(2-4))
  then show ?thesis by (auto simp: sim_def validPC_def)
qed

lemma sim_Step [vm_sim]: "sim env tx (Step env)"
  by (auto simp: Step_def cacheFree_defs intro!: vm_sim)

lemma sim_executeLoop [vm_sim]: "sim env tx (executeLoop env)"
proof -
  have "alike env tx vm vm' \<Longrightarrow> alikeResults env tx (executeLoop env vm) (executeLoop env vm')" for vm vm'
  proof (induction env vm arbitrary: vm' rule: executeLoop.induct)
    case (1 env vm)
    have "alikeResults env tx (Step env vm) (Step env vm')"
      using 1(2) sim_Step by (auto simp: sim_def)
    then show ?case
      using 1(1) by (cases rule: rel_sum.cases) (auto simp: executeLoop.simps [of env vm] executeLoop.simps [of env vm'])
  qed
  then show ?thesis by (simp add: sim_def)
qed

lemma sim_Execute: "sim env tx (Execute env)"
  by (auto simp: Execute_def cacheFree_defs intro!: vm_sim)

section \<open>Engines from a pool\<close>

text \<open>The transaction validator takes its engines from a pool, to which they return after \<open>Reset\<close>.
  \<open>Reset\<close> leaves the transaction, the version, the flags and the caches of the last use behind.
  \<open>Init\<close> overwrites all of them, except for a script version that is too new, where \<open>Execute\<close>
  looks at nothing but the version.\<close>

definition pooled :: "('pk, 'sg) Engine \<Rightarrow> bool" where
  "pooled vm \<longleftrightarrow> scripts vm = [] \<and> scriptIdx vm = 0 \<and> scriptOff vm = 0 \<and> dstack vm = [] \<and> astack vm = [] \<and>
     condStack vm = [] \<and> numOps vm = 0 \<and> \<not> isP2SH vm \<and> savedFirstStack vm = []"

lemma pooled_zero [simp]: "pooled zeroEngine"
  by (simp add: pooled_def zeroEngine_def)

lemma pooled_Reset [simp]: "pooled (Reset vm)"
  by (simp add: pooled_def Reset_def)

text \<open>What \<open>Init\<close> checks and parses does not depend on the engine.\<close>

definition prepared :: "ScriptPublicKey \<Rightarrow> DomainTransaction \<Rightarrow> int \<Rightarrow> script_failure + (parsedOpcode list \<times> parsedOpcode list)" where
  "prepared spk tx idx =
     rbind (parseScriptAndVerifySize (SignatureScript (Inputs tx ! nat idx))) (\<lambda>sigPops.
       rbind (guard (isPushOnly sigPops) (ScriptError ErrNotPushOnly)) (\<lambda>_.
         rbind (parseScriptAndVerifySize (spkScript spk)) (\<lambda>pkPops. Inr (sigPops, pkPops))))"

definition readyEngine ::
    "ScriptPublicKey \<Rightarrow> DomainTransaction \<Rightarrow> nat \<Rightarrow> u32 \<Rightarrow> ('pk, 'sg) SigCache option \<Rightarrow> ('pk, 'sg) SigCache option
     \<Rightarrow> SighashReusedValues option \<Rightarrow> parsedOpcode list \<times> parsedOpcode list \<Rightarrow> ('pk, 'sg) Engine" where
  "readyEngine spk tx i flgs c ce r pops =
     \<lparr>scriptVersion = spkVersion spk, scripts = [fst pops, snd pops],
      scriptIdx = (if length (SignatureScript (Inputs tx ! i)) = 0 then 1 else 0), scriptOff = 0, dstack = [],
      astack = [], engineTx = tx, txIdx = i, condStack = [], numOps = 0, flags = flgs, sigCache = c,
      sigCacheECDSA = ce, sigHashReusedValues = r, isP2SH = isScriptHash (snd pops), savedFirstStack = []\<rparr>"

lemma Init_cases:
  assumes "pooled vm"
  shows "Init spk tx idx flgs c ce r vm =
    (if idx < 0 \<or> idx \<ge> int (length (Inputs tx)) then Inl (ScriptError ErrInvalidIndex)
     else if length (SignatureScript (Inputs tx ! nat idx)) = 0 \<and> length (spkScript spk) = 0
     then Inl (ScriptError ErrEvalFalse)
     else if spkVersion spk > MaxScriptPublicKeyVersion
     then Inr (vm\<lparr>scriptVersion := spkVersion spk, flags := flgs, sigCache := c, sigCacheECDSA := ce\<rparr>)
     else rbind (prepared spk tx idx) (\<lambda>pops. Inr (readyEngine spk tx (nat idx) flgs c ce r pops)))"
proof -
  let ?sig = "parseScriptAndVerifySize (SignatureScript (Inputs tx ! nat idx))"
  let ?pk = "parseScriptAndVerifySize (spkScript spk)"
  show ?thesis
    using assms
    by (cases vm; cases ?sig; cases ?pk) (simp_all add: Init_def Let_def pooled_def prepared_def readyEngine_def guard_def)
qed

lemma alike_ready:
  assumes "pred_option (cacheSound (secp_schnorr env)) c" "pred_option (cacheSound (secp_schnorr env)) c'"
    and "pred_option (cacheSound (secp_ecdsa env)) ce" "pred_option (cacheSound (secp_ecdsa env)) ce'"
    and "reusedOk (blake3 env) tx r" "reusedOk (blake3 env) tx r'" and "\<not> spkVersion spk > MaxScriptPublicKeyVersion"
  shows "alike env tx (readyEngine spk tx i flgs c ce (Some r) pops) (readyEngine spk tx i flgs c' ce' (Some r') pops)"
  using assms by (simp add: alike_def cachesOk_def bare_def readyEngine_def)

end
