(* ===== verification/Tx_Validator.thy ===== *)
theory Tx_Validator
  imports Script_Caches
begin

text \<open>
  Transaction validation (processes/transactionvalidator).

  The validator has its configuration and two signature caches; validation returns the caches it
  leaves behind. The engine pool is a \<open>sync.Pool\<close>, which may hand out any engine that was put back
  or a new one: the parameter \<open>pool\<close> gives the engine handed out for each input. The four checks
  that run concurrently report over a channel: the parameter \<open>arrival\<close> is the order in which their
  results arrive. The JSON inspection of data payloads (image decoding, base64, entropy in floating
  point) is the parameter \<open>isValidJSONObject\<close>.
\<close>

section \<open>Errors and configuration\<close>

datatype rule_error =
    ErrMissingTxOut "DomainOutpoint list" | ErrImmatureSpend | ErrBadTxOutValue | ErrSpendTooHigh | ErrUnfinalizedTx
  | ErrScriptMalformed | ErrScriptValidation | ErrWrongSigOpCount | ErrNoTxInputs | ErrTxOutValueZero
  | ErrDuplicateTxInputs | ErrBadCoinbasePayloadLen | ErrCoinbaseWithInputs | ErrCoinbaseTooManyOutputs
  | ErrCoinbaseTooLongScriptPublicKey | ErrInvalidGas | ErrSubnetworkRegistry | ErrInvalidPayload
  | ErrTooLargePayload | ErrSubnetworksDisabled | ErrTransactionVersionIsUnknown | PlainError | RuntimePanic

record transactionValidator =
  blockCoinbaseMaturity :: u64
  enableNonNativeSubnetworks :: bool
  maxCoinbasePayloadLength :: u64
  MergeSetSizeLimit :: u64
  coinbasePayloadScriptPublicKeyMaxLength :: byte

section \<open>Validation in isolation\<close>

definition checkTransactionInputCount :: "DomainTransaction \<Rightarrow> rule_error + unit" where
  "checkTransactionInputCount tx =
     (if \<not> IsCoinBase tx \<and> length (Inputs tx) = 0 then Inl ErrNoTxInputs else Inr ())"

fun amountRangesLoop :: "u64 \<Rightarrow> DomainTransactionOutput list \<Rightarrow> rule_error + unit" where
  "amountRangesLoop totalSompi [] = Inr ()"
| "amountRangesLoop totalSompi (txOut # outs) =
     (let sompi = outputValue txOut
      in if sompi = 0 then Inl ErrTxOutValueZero
         else if sompi > MaxSey then Inl ErrBadTxOutValue
         else
           let newTotalSompi = totalSompi + sompi
           in if newTotalSompi < totalSompi then Inl ErrBadTxOutValue
              else if newTotalSompi > MaxSey then Inl ErrBadTxOutValue
              else amountRangesLoop newTotalSompi outs)"

definition checkTransactionAmountRanges :: "DomainTransaction \<Rightarrow> rule_error + unit" where
  "checkTransactionAmountRanges tx = amountRangesLoop 0 (Outputs tx)"

fun duplicateInputsLoop :: "DomainOutpoint list \<Rightarrow> DomainTransactionInput list \<Rightarrow> rule_error + unit" where
  "duplicateInputsLoop existing [] = Inr ()"
| "duplicateInputsLoop existing (txIn # ins) =
     (if PreviousOutpoint txIn \<in> set existing then Inl ErrDuplicateTxInputs
      else duplicateInputsLoop (PreviousOutpoint txIn # existing) ins)"

definition checkDuplicateTransactionInputs :: "DomainTransaction \<Rightarrow> rule_error + unit" where
  "checkDuplicateTransactionInputs tx = duplicateInputsLoop [] (Inputs tx)"

definition checkCoinbaseInIsolation :: "transactionValidator \<Rightarrow> DomainTransaction \<Rightarrow> rule_error + unit" where
  "checkCoinbaseInIsolation v tx =
     (if \<not> IsCoinBase tx then Inr ()
      else if word_of_nat (length (Payload tx)) > maxCoinbasePayloadLength v then Inl ErrBadCoinbasePayloadLen
      else if length (Inputs tx) \<noteq> 0 then Inl ErrCoinbaseWithInputs
      else
        let outputsLimit = (MergeSetSizeLimit v + 2) * 2
        in if word_of_nat (length (Outputs tx)) > outputsLimit then Inl ErrCoinbaseTooManyOutputs
           else if list_ex (\<lambda>output. length (spkScript (outputScriptPublicKey output))
                              > unat (coinbasePayloadScriptPublicKeyMaxLength v)) (Outputs tx)
           then Inl ErrCoinbaseTooLongScriptPublicKey
           else Inr ())"

definition checkGasInBuiltInOrNativeTransactions :: "DomainTransaction \<Rightarrow> rule_error + unit" where
  "checkGasInBuiltInOrNativeTransactions tx =
     (if IsBuiltInOrNative (SubnetworkID tx) \<and> Gas tx > 0 then Inl ErrInvalidGas else Inr ())"

definition checkSubnetworkRegistryTransaction :: "DomainTransaction \<Rightarrow> rule_error + unit" where
  "checkSubnetworkRegistryTransaction tx =
     (if SubnetworkID tx \<noteq> SubnetworkIDRegistry then Inr ()
      else if length (Payload tx) \<noteq> 8 then Inl ErrSubnetworkRegistry
      else Inr ())"

definition checkDataTransactionPayload ::
    "(bytes \<Rightarrow> u64 \<Rightarrow> bool) \<Rightarrow> DomainTransaction \<Rightarrow> u64 \<Rightarrow> rule_error + unit" where
  "checkDataTransactionPayload isValidJSONObject tx daaScore =
     (if SubnetworkID tx \<noteq> SubnetworkIDData \<or> length (Payload tx) = 0 then Inr ()
      else if length (Payload tx) > 10000 then Inl ErrTooLargePayload
      else if \<not> isValidJSONObject (Payload tx) daaScore then Inl ErrInvalidPayload
      else Inr ())"

definition checkNativeTransactionPayload :: "DomainTransaction \<Rightarrow> rule_error + unit" where
  "checkNativeTransactionPayload tx =
     (if SubnetworkID tx = SubnetworkIDNative \<and> length (Payload tx) > 0 then Inl ErrInvalidPayload else Inr ())"

definition checkTransactionSubnetwork ::
    "transactionValidator \<Rightarrow> DomainTransaction \<Rightarrow> DomainSubnetworkID option \<Rightarrow> u64 \<Rightarrow> rule_error + unit" where
  "checkTransactionSubnetwork v tx localNodeSubnetworkID daaScore =
     (if \<not> enableNonNativeSubnetworks v \<and> SubnetworkID tx \<noteq> SubnetworkIDNative \<and>
         SubnetworkID tx \<noteq> SubnetworkIDCoinbase \<and> SubnetworkID tx \<noteq> SubnetworkIDData
      then Inl ErrSubnetworksDisabled
      else if daaScore \<le> 89872005 + 2592000 \<and> SubnetworkID tx = SubnetworkIDData then Inl ErrSubnetworksDisabled
      else
        let isLocalNodeFull = (localNodeSubnetworkID = None);
            shouldTxBeFull = (IsBuiltIn (SubnetworkID tx) \<or> localNodeSubnetworkID = Some (SubnetworkID tx))
        in if \<not> isLocalNodeFull \<and> \<not> shouldTxBeFull \<and> length (Payload tx) > 0 then Inl ErrInvalidPayload
           else Inr ())"

definition ValidateTransactionInIsolation ::
    "(bytes \<Rightarrow> u64 \<Rightarrow> bool) \<Rightarrow> transactionValidator \<Rightarrow> DomainTransaction \<Rightarrow> u64 \<Rightarrow> rule_error + unit" where
  "ValidateTransactionInIsolation isValidJSONObject v tx povdaaScore =
     rbind (checkTransactionInputCount tx) (\<lambda>_.
     rbind (checkTransactionAmountRanges tx) (\<lambda>_.
     rbind (checkDuplicateTransactionInputs tx) (\<lambda>_.
     rbind (checkCoinbaseInIsolation v tx) (\<lambda>_.
     rbind (checkGasInBuiltInOrNativeTransactions tx) (\<lambda>_.
     rbind (checkSubnetworkRegistryTransaction tx) (\<lambda>_.
     rbind (checkDataTransactionPayload isValidJSONObject tx povdaaScore) (\<lambda>_.
     rbind (checkNativeTransactionPayload tx) (\<lambda>_.
     rbind (checkTransactionSubnetwork v tx None povdaaScore) (\<lambda>_.
       if txVersion tx > MaxTransactionVersion then Inl ErrTransactionVersionIsUnknown else Inr ())))))))))"

section \<open>Validation in context\<close>

definition IsFinalizedTransaction :: "DomainTransaction \<Rightarrow> u64 \<Rightarrow> int \<Rightarrow> bool" where
  "IsFinalizedTransaction tx daaScore blockTime =
     (let lockTime = LockTime tx
      in if lockTime = 0 then True
         else if \<not> lockTime < LockTimeThreshold \<and> blockTime < 0 then False
         else
           let blockTimeOrBlueScore = (if lockTime < LockTimeThreshold then daaScore else word_of_int blockTime)
           in if lockTime < blockTimeOrBlueScore then True
              else list_all (\<lambda>input. Sequence input = - 1) (Inputs tx))"

definition ValidateTransactionInContextIgnoringUTXO :: "DomainTransaction \<Rightarrow> int \<Rightarrow> u64 \<Rightarrow> rule_error + unit" where
  "ValidateTransactionInContextIgnoringUTXO tx povBlockPastMedianTime povDAAScore =
     (if \<not> IsFinalizedTransaction tx povDAAScore povBlockPastMedianTime then Inl ErrUnfinalizedTx else Inr ())"

fun coinbaseMaturityLoop ::
    "transactionValidator \<Rightarrow> u64 \<Rightarrow> DomainOutpoint list \<Rightarrow> DomainTransactionInput list \<Rightarrow> rule_error + unit" where
  "coinbaseMaturityLoop v povDAAScore missing [] = (if length missing > 0 then Inl (ErrMissingTxOut missing) else Inr ())"
| "coinbaseMaturityLoop v povDAAScore missing (input # inputs) =
     (case inputUTXOEntry input of
        None \<Rightarrow> coinbaseMaturityLoop v povDAAScore (missing @ [PreviousOutpoint input]) inputs
      | Some utxoEntry \<Rightarrow>
          if isCoinbase utxoEntry \<and> blockDAAScore utxoEntry + blockCoinbaseMaturity v > povDAAScore
          then Inl ErrImmatureSpend
          else coinbaseMaturityLoop v povDAAScore missing inputs)"

definition checkTransactionCoinbaseMaturity :: "transactionValidator \<Rightarrow> DomainTransaction \<Rightarrow> u64 \<Rightarrow> rule_error + unit" where
  "checkTransactionCoinbaseMaturity v tx povDAAScore = coinbaseMaturityLoop v povDAAScore [] (Inputs tx)"

definition checkEntryAmounts :: "UTXOEntry \<Rightarrow> u64 \<Rightarrow> rule_error + u64" where
  "checkEntryAmounts entry totalSompiInBefore =
     (let totalSompiInAfter = totalSompiInBefore + amount entry
      in if totalSompiInAfter < totalSompiInBefore \<or> totalSompiInAfter > MaxSey then Inl ErrBadTxOutValue
         else Inr totalSompiInAfter)"

fun inputAmountsLoop :: "u64 \<Rightarrow> DomainOutpoint list \<Rightarrow> DomainTransactionInput list \<Rightarrow> rule_error + u64" where
  "inputAmountsLoop totalSompiIn missing [] =
     (if length missing > 0 then Inl (ErrMissingTxOut missing) else Inr totalSompiIn)"
| "inputAmountsLoop totalSompiIn missing (input # inputs) =
     (case inputUTXOEntry input of
        None \<Rightarrow> inputAmountsLoop totalSompiIn (missing @ [PreviousOutpoint input]) inputs
      | Some utxoEntry \<Rightarrow>
          rbind (checkEntryAmounts utxoEntry totalSompiIn) (\<lambda>totalSompiIn. inputAmountsLoop totalSompiIn missing inputs))"

definition checkTransactionInputAmounts :: "DomainTransaction \<Rightarrow> rule_error + u64" where
  "checkTransactionInputAmounts tx = inputAmountsLoop 0 [] (Inputs tx)"

definition checkTransactionOutputAmounts :: "DomainTransaction \<Rightarrow> u64 \<Rightarrow> rule_error + u64" where
  "checkTransactionOutputAmounts tx totalSompiIn =
     (let totalSompiOut = foldl (\<lambda>total out. total + outputValue out) 0 (Outputs tx)
      in if totalSompiIn < totalSompiOut then Inl ErrSpendTooHigh else Inr totalSompiOut)"

fun sequenceLockLoop :: "int \<Rightarrow> DomainOutpoint list \<Rightarrow> DomainTransactionInput list \<Rightarrow> rule_error + int" where
  "sequenceLockLoop lock missing [] = (if length missing > 0 then Inl (ErrMissingTxOut missing) else Inr lock)"
| "sequenceLockLoop lock missing (input # inputs) =
     (case inputUTXOEntry input of
        None \<Rightarrow> sequenceLockLoop lock (missing @ [PreviousOutpoint input]) inputs
      | Some utxoEntry \<Rightarrow>
          let inputDAAScore = blockDAAScore utxoEntry;
              sequenceNum = Sequence input;
              relativeLockUnsigned = sequenceNum AND SequenceLockTimeMask
          in if unat relativeLockUnsigned \<ge> 2 ^ 63 then Inl PlainError
             else
               let relativeLock = uint relativeLockUnsigned
               in if sequenceNum AND SequenceLockTimeDisabled = SequenceLockTimeDisabled
                  then sequenceLockLoop lock missing inputs
                  else if inputDAAScore = UnacceptedDAAScore then sequenceLockLoop lock missing inputs
                  else if unat inputDAAScore \<ge> 2 ^ 63 then Inl PlainError
                  else
                    let daa = wrap64 (uint inputDAAScore + relativeLock - 1)
                    in sequenceLockLoop (if daa > lock then daa else lock) missing inputs)"

definition calcTxSequenceLockFromReferencedUTXOEntries :: "DomainTransaction \<Rightarrow> rule_error + int" where
  "calcTxSequenceLockFromReferencedUTXOEntries tx =
     (if IsCoinBase tx then Inr (- 1) else sequenceLockLoop (- 1) [] (Inputs tx))"

definition sequenceLockActive :: "int \<Rightarrow> u64 \<Rightarrow> bool" where
  "sequenceLockActive lock daaScore =
     (if unat daaScore \<ge> 2 ^ 63 then True else if lock \<ge> uint daaScore then False else True)"

definition checkTransactionSequenceLock :: "DomainTransaction \<Rightarrow> u64 \<Rightarrow> rule_error + unit" where
  "checkTransactionSequenceLock tx povDAAScore =
     rbind (calcTxSequenceLockFromReferencedUTXOEntries tx) (\<lambda>lock.
       if \<not> sequenceLockActive lock povDAAScore then Inl ErrUnfinalizedTx else Inr ())"

text \<open>A missing entry makes the signature operation count dereference nil.\<close>

fun sigOpCountsLoop :: "DomainTransactionInput list \<Rightarrow> rule_error + unit" where
  "sigOpCountsLoop [] = Inr ()"
| "sigOpCountsLoop (input # inputs) =
     (case inputUTXOEntry input of
        None \<Rightarrow> Inl RuntimePanic
      | Some utxoEntry \<Rightarrow>
          if GetPreciseSigOpCount (SignatureScript input) (spkScript (scriptPublicKey utxoEntry)) \<noteq> uint (SigOpCount input)
          then Inl ErrWrongSigOpCount
          else sigOpCountsLoop inputs)"

definition validateTransactionSigOpCounts :: "DomainTransaction \<Rightarrow> rule_error + unit" where
  "validateTransactionSigOpCounts tx = sigOpCountsLoop (Inputs tx)"

section \<open>Script validation\<close>

text \<open>What outlives an engine: the two caches and the hashes of the transaction reused between inputs.
  The source shares them by pointer. An engine for a script version that is too new never gets the
  pointer to the reused hashes, so they stay as they were.\<close>

type_synonym ('pk, 'sg) script_caches = "('pk, 'sg) SigCache option \<times> ('pk, 'sg) SigCache option \<times> SighashReusedValues"

definition cachesAfter :: "SighashReusedValues \<Rightarrow> ('pk, 'sg) Engine \<Rightarrow> ('pk, 'sg) script_caches" where
  "cachesAfter reused vm =
     (sigCache vm, sigCacheECDSA vm,
      if scriptVersion vm > MaxScriptPublicKeyVersion then reused
      else (case sigHashReusedValues vm of None \<Rightarrow> reused | Some r \<Rightarrow> r))"

definition ScriptNoFlags :: u32 where
  "ScriptNoFlags = 0"

definition validateInputScript ::
    "('pk, 'sg) script_env \<Rightarrow> ('pk, 'sg) Engine \<Rightarrow> DomainTransaction \<Rightarrow> nat \<Rightarrow> ScriptPublicKey
     \<Rightarrow> ('pk, 'sg) script_caches \<Rightarrow> (rule_error + unit) \<times> ('pk, 'sg) script_caches" where
  "validateInputScript env vm tx i scriptPubKey caches =
     (case caches of (cache, cacheECDSA, reused) \<Rightarrow>
        (case Init scriptPubKey tx (int i) ScriptNoFlags cache cacheECDSA (Some reused) vm of
           Inl e \<Rightarrow> (Inl ErrScriptMalformed, caches)
         | Inr vm \<Rightarrow>
             (case Execute env vm of
                Inl (e, vm) \<Rightarrow> (Inl (if e = GoPanic then RuntimePanic else ErrScriptValidation), cachesAfter reused vm)
              | Inr (u, vm) \<Rightarrow> (Inr (), cachesAfter reused vm))))"

fun scriptsLoop ::
    "('pk, 'sg) script_env \<Rightarrow> (nat \<Rightarrow> ('pk, 'sg) Engine) \<Rightarrow> DomainTransaction \<Rightarrow> DomainOutpoint list \<Rightarrow> nat
     \<Rightarrow> DomainTransactionInput list \<Rightarrow> ('pk, 'sg) script_caches \<Rightarrow> (rule_error + unit) \<times> ('pk, 'sg) script_caches" where
  "scriptsLoop env pool tx missing i [] caches =
     (if length missing > 0 then Inl (ErrMissingTxOut missing) else Inr (), caches)"
| "scriptsLoop env pool tx missing i (input # inputs) caches =
     (case inputUTXOEntry input of
        None \<Rightarrow> scriptsLoop env pool tx (missing @ [PreviousOutpoint input]) (Suc i) inputs caches
      | Some utxoEntry \<Rightarrow>
          (case validateInputScript env (pool i) tx i (scriptPublicKey utxoEntry) caches of
             (Inl e, caches) \<Rightarrow> (Inl e, caches)
           | (Inr u, caches) \<Rightarrow> scriptsLoop env pool tx missing (Suc i) inputs caches))"

definition validateTransactionScripts ::
    "('pk, 'sg) script_env \<Rightarrow> (nat \<Rightarrow> ('pk, 'sg) Engine) \<Rightarrow> DomainTransaction
     \<Rightarrow> ('pk, 'sg) SigCache option \<times> ('pk, 'sg) SigCache option
     \<Rightarrow> (rule_error + unit) \<times> ('pk, 'sg) SigCache option \<times> ('pk, 'sg) SigCache option" where
  "validateTransactionScripts env pool tx caches =
     (case scriptsLoop env pool tx [] 0 (Inputs tx) (fst caches, snd caches, emptyReusedValues) of
        (result, c, ce, reused) \<Rightarrow> (result, c, ce))"

section \<open>The whole validation in context\<close>

text \<open>The loop that collects the results of the concurrent checks and keeps the first error.\<close>

definition collectResults :: "(rule_error + unit) list \<Rightarrow> rule_error option" where
  "collectResults results =
     foldl (\<lambda>firstErr res. case (res, firstErr) of (Inl e, None) \<Rightarrow> Some e | _ \<Rightarrow> firstErr) None results"

definition ValidateTransactionInContextAndPopulateFee ::
    "('pk, 'sg) script_env \<Rightarrow> (nat \<Rightarrow> ('pk, 'sg) Engine) \<Rightarrow> nat list \<Rightarrow> transactionValidator \<Rightarrow> DomainTransaction \<Rightarrow> u64
     \<Rightarrow> ('pk, 'sg) SigCache option \<times> ('pk, 'sg) SigCache option
     \<Rightarrow> (rule_error + unit) \<times> DomainTransaction \<times> ('pk, 'sg) SigCache option \<times> ('pk, 'sg) SigCache option" where
  "ValidateTransactionInContextAndPopulateFee env pool arrival v tx povDAAScore caches =
     (case checkTransactionInputAmounts tx of
        Inl e \<Rightarrow> (Inl e, tx, caches)
      | Inr totalSompiIn \<Rightarrow>
          (case checkTransactionOutputAmounts tx totalSompiIn of
             Inl e \<Rightarrow> (Inl e, tx, caches)
           | Inr totalSompiOut \<Rightarrow>
               let tx = tx\<lparr>txFee := totalSompiIn - totalSompiOut\<rparr>;
                   (scriptsResult, caches) = validateTransactionScripts env pool tx caches;
                   results = [checkTransactionCoinbaseMaturity v tx povDAAScore,
                              checkTransactionSequenceLock tx povDAAScore,
                              validateTransactionSigOpCounts tx,
                              scriptsResult]
               in (case collectResults (map (\<lambda>idx. results ! idx) arrival) of
                     Some e \<Rightarrow> (Inl e, tx, caches)
                   | None \<Rightarrow> (Inr (), tx, caches))))"

section \<open>Script validation without caches and pools\<close>

text \<open>The reference: a new engine for every input, no signature cache and no reused hashes.\<close>

definition scriptVerdict :: "('pk, 'sg) script_env \<Rightarrow> DomainTransaction \<Rightarrow> nat \<Rightarrow> ScriptPublicKey \<Rightarrow> rule_error + unit" where
  "scriptVerdict env tx i spk =
     (case NewEngine spk tx (int i) ScriptNoFlags None None (Some emptyReusedValues) of
        Inl e \<Rightarrow> Inl ErrScriptMalformed
      | Inr vm \<Rightarrow>
          (case Execute env vm of
             Inl (e, vm) \<Rightarrow> Inl (if e = GoPanic then RuntimePanic else ErrScriptValidation)
           | Inr r \<Rightarrow> Inr ()))"

fun verdictsFrom ::
    "('pk, 'sg) script_env \<Rightarrow> DomainTransaction \<Rightarrow> DomainOutpoint list \<Rightarrow> nat \<Rightarrow> DomainTransactionInput list
     \<Rightarrow> rule_error + unit" where
  "verdictsFrom env tx missing i [] = (if missing = [] then Inr () else Inl (ErrMissingTxOut missing))"
| "verdictsFrom env tx missing i (input # inputs) =
     (case inputUTXOEntry input of
        None \<Rightarrow> verdictsFrom env tx (missing @ [PreviousOutpoint input]) (Suc i) inputs
      | Some entry \<Rightarrow> rbind (scriptVerdict env tx i (scriptPublicKey entry)) (\<lambda>_. verdictsFrom env tx missing (Suc i) inputs))"

definition soundCaches :: "('pk, 'sg) script_env \<Rightarrow> ('pk, 'sg) SigCache option \<times> ('pk, 'sg) SigCache option \<Rightarrow> bool" where
  "soundCaches env caches \<longleftrightarrow>
     pred_option (cacheSound (secp_schnorr env)) (fst caches) \<and> pred_option (cacheSound (secp_ecdsa env)) (snd caches)"

lemma Execute_too_new: "scriptVersion vm > MaxScriptPublicKeyVersion \<Longrightarrow> Execute env vm = Inr ((), vm)"
  by (simp add: Execute_def vbind_def vget_def vret_def)

lemma validateInputScript_verdict:
  assumes "pooled vm" and "soundCaches env (c, ce)" and "reusedOk (blake3 env) tx r"
  shows "\<exists>c' ce' r'. validateInputScript env vm tx i spk (c, ce, r) = (scriptVerdict env tx i spk, c', ce', r') \<and>
           soundCaches env (c', ce') \<and> reusedOk (blake3 env) tx r'"
proof -
  note init = Init_cases [OF assms(1), of spk tx "int i" ScriptNoFlags c ce "Some r"]
    Init_cases [OF pooled_zero, of spk tx "int i" ScriptNoFlags None None "Some emptyReusedValues"]
  consider (bad) "i \<ge> length (Inputs tx) \<or> SignatureScript (Inputs tx ! i) = [] \<and> spkScript spk = []"
    | (new) "i < length (Inputs tx)" "\<not> (SignatureScript (Inputs tx ! i) = [] \<and> spkScript spk = [])"
        "spkVersion spk > MaxScriptPublicKeyVersion"
    | (run) "i < length (Inputs tx)" "\<not> (SignatureScript (Inputs tx ! i) = [] \<and> spkScript spk = [])"
        "\<not> spkVersion spk > MaxScriptPublicKeyVersion"
    by fastforce
  then show ?thesis
  proof cases
    case bad
    then show ?thesis
      using assms by (auto simp: validateInputScript_def scriptVerdict_def NewEngine_def init)
  next
    case new
    then show ?thesis
      using assms by (auto simp: validateInputScript_def scriptVerdict_def NewEngine_def init Execute_too_new cachesAfter_def)
  next
    case run
    show ?thesis
    proof (cases "prepared spk tx (int i)")
      case (Inl e)
      then show ?thesis
        using run assms by (auto simp: validateInputScript_def scriptVerdict_def NewEngine_def init)
    next
      case (Inr pops)
      let ?w = "readyEngine spk tx i ScriptNoFlags c ce (Some r) pops"
      let ?z = "readyEngine spk tx i ScriptNoFlags None None (Some emptyReusedValues) pops"
      have "alike env tx ?w ?z"
        using assms run by (intro alike_ready) (simp_all add: soundCaches_def reusedOk_empty)
      then have "alikeResults env tx (Execute env ?w) (Execute env ?z)"
        using sim_Execute by (auto simp: sim_def)
      then show ?thesis
        using run Inr
        by (cases rule: rel_sum.cases)
          (auto simp: validateInputScript_def scriptVerdict_def NewEngine_def init cachesAfter_def alike_def
            cachesOk_def soundCaches_def)
    qed
  qed
qed

lemma scriptsLoop_verdicts:
  assumes "\<And>i. pooled (pool i)" and "soundCaches env (c, ce)" and "reusedOk (blake3 env) tx r"
  shows "\<exists>c' ce' r'. scriptsLoop env pool tx missing i inputs (c, ce, r) = (verdictsFrom env tx missing i inputs, c', ce', r') \<and>
           soundCaches env (c', ce') \<and> reusedOk (blake3 env) tx r'"
  using assms(2,3)
proof (induction inputs arbitrary: missing i c ce r)
  case (Cons input inputs)
  show ?case
  proof (cases "inputUTXOEntry input")
    case None
    then show ?thesis using Cons by simp
  next
    case (Some entry)
    obtain c' ce' r' where step: "validateInputScript env (pool i) tx i (scriptPublicKey entry) (c, ce, r) =
        (scriptVerdict env tx i (scriptPublicKey entry), c', ce', r')" "soundCaches env (c', ce')"
        "reusedOk (blake3 env) tx r'"
      using validateInputScript_verdict [OF assms(1) Cons.prems] by blast
    then show ?thesis
      using Some Cons.IH [OF step(2,3)] by (cases "scriptVerdict env tx i (scriptPublicKey entry)") auto
  qed
qed auto

lemma validateTransactionScripts_verdicts:
  assumes "\<And>i. pooled (pool i)" and "soundCaches env caches"
  shows "\<exists>caches'. validateTransactionScripts env pool tx caches = (verdictsFrom env tx [] 0 (Inputs tx), caches') \<and>
           soundCaches env caches'"
proof -
  have "soundCaches env (fst caches, snd caches)" using assms(2) by simp
  then have "\<exists>c' ce' r'. scriptsLoop env pool tx [] 0 (Inputs tx) (fst caches, snd caches, emptyReusedValues) =
      (verdictsFrom env tx [] 0 (Inputs tx), c', ce', r') \<and> soundCaches env (c', ce') \<and> reusedOk (blake3 env) tx r'"
    by (rule scriptsLoop_verdicts [OF assms(1) _ reusedOk_empty])
  then show ?thesis by (auto simp: validateTransactionScripts_def)
qed

section \<open>What the checks mean\<close>

text \<open>The rules on amounts, maturity and relative locks over natural numbers.\<close>

definition inputAmount :: "DomainTransactionInput \<Rightarrow> nat" where
  "inputAmount input = (case inputUTXOEntry input of None \<Rightarrow> 0 | Some e \<Rightarrow> unat (amount e))"

abbreviation totalIn :: "DomainTransaction \<Rightarrow> nat" where
  "totalIn tx \<equiv> sum_list (map inputAmount (Inputs tx))"

abbreviation totalOut :: "DomainTransaction \<Rightarrow> nat" where
  "totalOut tx \<equiv> sum_list (map (\<lambda>out. unat (outputValue out)) (Outputs tx))"

definition hasEntry :: "DomainTransactionInput \<Rightarrow> bool" where
  "hasEntry input \<longleftrightarrow> inputUTXOEntry input \<noteq> None"

definition mature :: "transactionValidator \<Rightarrow> u64 \<Rightarrow> DomainTransactionInput \<Rightarrow> bool" where
  "mature v pov input \<longleftrightarrow>
     pred_option (\<lambda>e. isCoinbase e \<longrightarrow> unat (blockDAAScore e) + unat (blockCoinbaseMaturity v) \<le> unat pov) (inputUTXOEntry input)"

definition lockPassed :: "int \<Rightarrow> DomainTransactionInput \<Rightarrow> bool" where
  "lockPassed pov input \<longleftrightarrow>
     pred_option (\<lambda>e. Sequence input AND SequenceLockTimeDisabled = SequenceLockTimeDisabled \<or>
       blockDAAScore e = UnacceptedDAAScore \<or>
       uint (blockDAAScore e) + uint (Sequence input AND SequenceLockTimeMask) \<le> pov) (inputUTXOEntry input)"

definition sigOpsDeclared :: "DomainTransactionInput \<Rightarrow> bool" where
  "sigOpsDeclared input \<longleftrightarrow>
     pred_option (\<lambda>e. GetPreciseSigOpCount (SignatureScript input) (spkScript (scriptPublicKey e)) = uint (SigOpCount input))
       (inputUTXOEntry input)"

text \<open>DAA scores far from the limits of the integer types.\<close>

definition saneScores :: "transactionValidator \<Rightarrow> DomainTransactionInput \<Rightarrow> bool" where
  "saneScores v input \<longleftrightarrow>
     pred_option (\<lambda>e. (isCoinbase e \<longrightarrow> unat (blockDAAScore e) + unat (blockCoinbaseMaturity v) < 2 ^ 64) \<and>
       (blockDAAScore e = UnacceptedDAAScore \<or> unat (blockDAAScore e) < 2 ^ 62)) (inputUTXOEntry input)"

lemma unat_u64: "unat (a :: u64) < 18446744073709551616"
  using unsigned_less [of a, where ?'a = nat] by simp

lemma unat_MaxSey: "unat MaxSey = 1710000000000000000"
  by (simp add: MaxSey_def SeyPerEY_def)

lemma add_checked: "(a :: u64) + b < a \<or> a + b > MaxSey \<longleftrightarrow> unat a + unat b > unat MaxSey"
  using unat_u64 [of a] unat_u64 [of b]
  by (auto simp: word_less_nat_alt unat_plus_if' unat_MaxSey split: if_split_asm)

lemma add_unchecked: "unat a + unat b \<le> unat MaxSey \<Longrightarrow> unat ((a :: u64) + b) = unat a + unat b"
  by (simp add: unat_plus_if' unat_MaxSey)

lemma inputAmountsLoop_iff:
  "inputAmountsLoop t missing ins = Inr t' \<longleftrightarrow>
     missing = [] \<and> list_all hasEntry ins \<and> unat t + sum_list (map inputAmount ins) = unat t' \<and>
     (ins \<noteq> [] \<longrightarrow> unat t + sum_list (map inputAmount ins) \<le> unat MaxSey)"
proof (induction ins arbitrary: t missing)
  case Nil
  then show ?case by (auto simp: unsigned_word_eqI)
next
  case (Cons input ins)
  show ?case
  proof (cases "inputUTXOEntry input")
    case None
    then show ?thesis using Cons by (simp add: hasEntry_def)
  next
    case (Some e)
    show ?thesis
    proof (cases "unat t + unat (amount e) > unat MaxSey")
      case True
      then show ?thesis
        using Some by (simp add: checkEntryAmounts_def Let_def add_checked inputAmount_def)
    next
      case False
      then show ?thesis
        using Some Cons [of "t + amount e" missing] add_unchecked [of t "amount e"]
        by (auto simp: checkEntryAmounts_def Let_def add_checked hasEntry_def inputAmount_def)
    qed
  qed
qed

lemma amountRangesLoop_sum:
  "amountRangesLoop t outs = Inr () \<Longrightarrow> unat (foldl (\<lambda>total out. total + outputValue out) t outs) =
     unat t + sum_list (map (\<lambda>out. unat (outputValue out)) outs)"
proof (induction outs arbitrary: t)
  case (Cons out outs)
  have "unat t + unat (outputValue out) \<le> unat MaxSey"
    using Cons.prems add_checked [of t "outputValue out"] by (auto simp: Let_def split: if_split_asm)
  then show ?case
    using Cons add_unchecked [of t "outputValue out"] by (auto simp: Let_def split: if_split_asm)
qed simp

lemma coinbaseMaturityLoop_iff:
  "list_all (saneScores v) ins \<Longrightarrow> coinbaseMaturityLoop v pov missing ins = Inr () \<longleftrightarrow>
     missing = [] \<and> list_all hasEntry ins \<and> list_all (mature v pov) ins"
proof (induction ins arbitrary: missing)
  case (Cons input ins)
  show ?case
  proof (cases "inputUTXOEntry input")
    case None
    then show ?thesis using Cons by (simp add: hasEntry_def)
  next
    case (Some e)
    then have "isCoinbase e \<Longrightarrow> blockDAAScore e + blockCoinbaseMaturity v > pov \<longleftrightarrow> \<not> mature v pov input"
      using Cons.prems by (auto simp: saneScores_def mature_def word_less_nat_alt unat_plus_if')
    then show ?thesis using Some Cons by (auto simp: hasEntry_def mature_def)
  qed
qed simp

lemma int_unat: "int (unat (w :: u64)) = uint w"
  by simp

lemma relativeLock_small: "uint (s AND SequenceLockTimeMask) < 2 ^ 32"
proof -
  have "SequenceLockTimeMask = mask 32"
    by (simp add: SequenceLockTimeMask_def mask_eq_exp_minus_1)
  then show ?thesis using and_mask_lt_2p by metis
qed

lemma score_range:
  assumes "unat (d :: u64) < 2 ^ 62" and "uint (s :: u64) < 2 ^ 32"
  shows "int64_range (uint d + uint s - 1)"
proof -
  have "0 \<le> a \<Longrightarrow> 0 \<le> b \<Longrightarrow> a < 2 ^ 62 \<Longrightarrow> b < 2 ^ 32 \<Longrightarrow> int64_range (a + b - 1)" for a b :: int
    by (simp add: int64_range_def)
  moreover have "uint d < 2 ^ 62"
    using assms(1) int_unat [of d] by (simp del: of_nat_unat)
  ultimately show ?thesis using assms(2) by simp
qed

lemma sequenceLockLoop_value:
  "list_all (saneScores v) ins \<Longrightarrow> list_all hasEntry ins \<Longrightarrow>
   \<exists>l. sequenceLockLoop lock [] ins = Inr l \<and> (\<forall>pov. l < pov \<longleftrightarrow> lock < pov \<and> list_all (lockPassed pov) ins)"
proof (induction ins arbitrary: lock)
  case (Cons input ins)
  obtain e where e: "inputUTXOEntry input = Some e" using Cons.prems by (auto simp: hasEntry_def)
  let ?rel = "uint (Sequence input AND SequenceLockTimeMask)"
  have rel: "?rel < 2 ^ 32" by (rule relativeLock_small)
  then have rel': "\<not> unat (Sequence input AND SequenceLockTimeMask) \<ge> 2 ^ 63"
    using int_unat [of "Sequence input AND SequenceLockTimeMask"] by (simp del: of_nat_unat)
  let ?off = "Sequence input AND SequenceLockTimeDisabled = SequenceLockTimeDisabled \<or> blockDAAScore e = UnacceptedDAAScore"
  define lock' where "lock' = (if ?off then lock else max (uint (blockDAAScore e) + ?rel - 1) lock)"
  have range: "\<not> unat (blockDAAScore e) \<ge> 2 ^ 63 \<and> int64_range (uint (blockDAAScore e) + ?rel - 1)" if "\<not> ?off"
  proof -
    have "unat (blockDAAScore e) < 2 ^ 62"
      using Cons.prems(1) e that by (simp add: saneScores_def)
    then show ?thesis
      using score_range [OF _ rel, of "blockDAAScore e"] by simp
  qed
  have step: "sequenceLockLoop lock [] (input # ins) = sequenceLockLoop lock' [] ins"
  proof (cases ?off)
    case True
    then show ?thesis using rel' by (auto simp: e Let_def lock'_def)
  next
    case False
    then show ?thesis
      using range rel' by (simp add: e Let_def lock'_def max_def not_less [symmetric])
  qed
  have "lock' < pov \<longleftrightarrow> lock < pov \<and> lockPassed pov input" for pov
    by (auto simp: lock'_def lockPassed_def e)
  then show ?case
    using Cons.IH [of lock'] Cons.prems by (simp only: step list.pred_inject simp_thms) blast
qed simp

lemma sigOpCountsLoop_iff:
  "sigOpCountsLoop ins = Inr () \<longleftrightarrow> list_all hasEntry ins \<and> list_all sigOpsDeclared ins"
  by (induction ins) (auto simp: hasEntry_def sigOpsDeclared_def split: option.split)

lemma verdictsFrom_iff:
  "verdictsFrom env tx missing i ins = Inr () \<longleftrightarrow> missing = [] \<and> list_all hasEntry ins \<and>
     (\<forall>k < length ins. \<forall>e. inputUTXOEntry (ins ! k) = Some e \<longrightarrow> scriptVerdict env tx (i + k) (scriptPublicKey e) = Inr ())"
proof (induction ins arbitrary: missing i)
  case (Cons input ins)
  then show ?case
    by (auto simp: hasEntry_def rbind_eq_Inr_iff All_less_Suc2 split: option.split)
qed auto

lemma collectResults_None: "collectResults rs = None \<longleftrightarrow> list_all is_ok rs"
proof -
  have "foldl (\<lambda>firstErr res. case (res, firstErr) of (Inl e, None) \<Rightarrow> Some e | _ \<Rightarrow> firstErr) a rs = None \<longleftrightarrow>
          a = None \<and> list_all is_ok rs" for a
    by (induction rs arbitrary: a) (auto split: sum.splits option.splits)
  then show ?thesis by (simp add: collectResults_def)
qed

text \<open>The rules a transaction has to meet in context, with the fee that goes with it.\<close>

definition validInContext ::
    "('pk, 'sg) script_env \<Rightarrow> transactionValidator \<Rightarrow> DomainTransaction \<Rightarrow> u64 \<Rightarrow> bool" where
  "validInContext env v tx pov \<longleftrightarrow>
     list_all hasEntry (Inputs tx) \<and>
     totalIn tx \<le> unat MaxSey \<and> totalIn tx = totalOut tx + unat (txFee tx) \<and>
     list_all (mature v pov) (Inputs tx) \<and>
     (IsCoinBase tx \<or> list_all (lockPassed (uint pov)) (Inputs tx)) \<and>
     list_all sigOpsDeclared (Inputs tx) \<and>
     (\<forall>i < length (Inputs tx). \<forall>e. inputUTXOEntry (Inputs tx ! i) = Some e \<longrightarrow>
        scriptVerdict env tx i (scriptPublicKey e) = Inr ())"

lemma uint_above: "- 1 < uint (w :: u64)"
  by (rule less_le_trans [OF _ uint_ge_0]) simp

lemma checkTransactionSequenceLock_iff:
  assumes "list_all (saneScores v) (Inputs tx)" and "list_all hasEntry (Inputs tx)" and "unat pov < 2 ^ 63"
  shows "checkTransactionSequenceLock tx pov = Inr () \<longleftrightarrow> IsCoinBase tx \<or> list_all (lockPassed (uint pov)) (Inputs tx)"
proof -
  obtain l where "sequenceLockLoop (- 1) [] (Inputs tx) = Inr l"
    "\<And>pov. l < pov \<longleftrightarrow> - 1 < pov \<and> list_all (lockPassed pov) (Inputs tx)"
    using sequenceLockLoop_value [OF assms(1,2)] by blast
  moreover from this(2) [of "uint pov"] have "sequenceLockActive l pov \<longleftrightarrow> list_all (lockPassed (uint pov)) (Inputs tx)"
    using assms(3) uint_above [of pov] by (auto simp: sequenceLockActive_def)
  moreover have "sequenceLockActive (- 1) pov"
    using uint_above [of pov] by (simp add: sequenceLockActive_def)
  ultimately show ?thesis
    by (simp add: checkTransactionSequenceLock_def calcTxSequenceLockFromReferencedUTXOEntries_def)
qed

lemma amounts_iff:
  assumes "checkTransactionAmountRanges tx = Inr ()"
  shows "checkTransactionInputAmounts tx = Inr t \<longleftrightarrow>
           list_all hasEntry (Inputs tx) \<and> totalIn tx \<le> unat MaxSey \<and> unat t = totalIn tx"
    and "checkTransactionOutputAmounts tx t = Inr u \<longleftrightarrow> totalOut tx \<le> unat t \<and> unat u = totalOut tx"
proof -
  show "checkTransactionInputAmounts tx = Inr t \<longleftrightarrow>
      list_all hasEntry (Inputs tx) \<and> totalIn tx \<le> unat MaxSey \<and> unat t = totalIn tx"
    using inputAmountsLoop_iff [of 0 "[]" "Inputs tx" t] by (auto simp: checkTransactionInputAmounts_def)
  have "unat (foldl (\<lambda>total out. total + outputValue out) 0 (Outputs tx)) = totalOut tx"
    using amountRangesLoop_sum [of 0 "Outputs tx"] assms by (simp add: checkTransactionAmountRanges_def)
  then show "checkTransactionOutputAmounts tx t = Inr u \<longleftrightarrow> totalOut tx \<le> unat t \<and> unat u = totalOut tx"
    by (auto simp: checkTransactionOutputAmounts_def Let_def word_less_nat_alt not_less word_unat_eq_iff)
qed

lemma amounts_reject:
  assumes "checkTransactionAmountRanges tx = Inr ()"
    and "\<not> (list_all hasEntry (Inputs tx) \<and> totalIn tx \<le> unat MaxSey \<and> totalOut tx \<le> totalIn tx)"
  shows "\<exists>e. ValidateTransactionInContextAndPopulateFee env pool arrival v tx pov caches = (Inl e, tx, caches)"
proof (cases "checkTransactionInputAmounts tx")
  case (Inl e)
  then show ?thesis by (simp add: ValidateTransactionInContextAndPopulateFee_def)
next
  case (Inr t)
  then have "\<not> totalOut tx \<le> unat t" using amounts_iff(1) [OF assms(1)] assms(2) by auto
  then have "checkTransactionOutputAmounts tx t \<noteq> Inr u" for u
    using amounts_iff(2) [OF assms(1)] by auto
  then obtain e where "checkTransactionOutputAmounts tx t = Inl e"
    by (cases "checkTransactionOutputAmounts tx t") auto
  then show ?thesis using Inr by (simp add: ValidateTransactionInContextAndPopulateFee_def)
qed

abbreviation contextChecks ::
    "('pk, 'sg) script_env \<Rightarrow> transactionValidator \<Rightarrow> DomainTransaction \<Rightarrow> u64 \<Rightarrow> (rule_error + unit) list" where
  "contextChecks env v tx pov \<equiv>
     [checkTransactionCoinbaseMaturity v tx pov, checkTransactionSequenceLock tx pov,
      validateTransactionSigOpCounts tx, verdictsFrom env tx [] 0 (Inputs tx)]"

lemma inContext_run:
  assumes "\<And>i. pooled (pool i)" and "soundCaches env caches"
    and "checkTransactionInputAmounts tx = Inr t" "checkTransactionOutputAmounts tx t = Inr u"
  shows "\<exists>caches'. soundCaches env caches' \<and>
    ValidateTransactionInContextAndPopulateFee env pool arrival v tx pov caches =
      (case collectResults (map (\<lambda>idx. contextChecks env v (tx\<lparr>txFee := t - u\<rparr>) pov ! idx) arrival) of
         Some e \<Rightarrow> Inl e | None \<Rightarrow> Inr (), tx\<lparr>txFee := t - u\<rparr>, caches')"
proof -
  obtain caches' where "validateTransactionScripts env pool (tx\<lparr>txFee := t - u\<rparr>) caches =
      (verdictsFrom env (tx\<lparr>txFee := t - u\<rparr>) [] 0 (Inputs (tx\<lparr>txFee := t - u\<rparr>)), caches')" "soundCaches env caches'"
    using validateTransactionScripts_verdicts [where pool = pool and tx = "tx\<lparr>txFee := t - u\<rparr>" and caches = caches,
        OF assms(1,2)] by blast
  then show ?thesis
    by (intro exI [of _ caches'])
      (simp add: ValidateTransactionInContextAndPopulateFee_def assms(3,4) Let_def split: option.split)
qed

lemma checks_iff:
  assumes "list_all (saneScores v) (Inputs tx)" and "unat pov < 2 ^ 63"
    and "list_all hasEntry (Inputs tx)" "totalIn tx \<le> unat MaxSey" "totalIn tx = totalOut tx + unat (txFee tx)"
  shows "list_all (\<lambda>r. r = Inr ()) (contextChecks env v tx pov) \<longleftrightarrow> validInContext env v tx pov"
  using assms checkTransactionSequenceLock_iff [OF assms(1,3,2)]
  by (simp add: validInContext_def checkTransactionCoinbaseMaturity_def coinbaseMaturityLoop_iff
      validateTransactionSigOpCounts_def sigOpCountsLoop_iff verdictsFrom_iff)

lemma collectResults_Some:
  assumes "collectResults rs = Some e"
  shows "Inl e \<in> set rs"
proof -
  have "foldl (\<lambda>firstErr res. case (res, firstErr) of (Inl e, None) \<Rightarrow> Some e | _ \<Rightarrow> firstErr) a rs = Some e \<Longrightarrow>
          a = Some e \<or> Inl e \<in> set rs" for a
  proof (induction rs arbitrary: a)
    case (Cons r rs)
    from Cons.IH [OF Cons.prems [simplified foldl_Cons]] show ?case
      by (auto split: sum.splits option.splits)
  qed simp
  from this [of None] show ?thesis using assms by (simp add: collectResults_def)
qed

lemma scriptVerdict_no_panic:
  assumes "blake2bOk env" and "i < length (Inputs tx)" and "hasEntry (Inputs tx ! i)"
  shows "scriptVerdict env tx i spk \<noteq> Inl RuntimePanic"
proof (cases "NewEngine spk tx (int i) ScriptNoFlags None None (Some emptyReusedValues) :: script_failure + ('a, 'b) Engine")
  case (Inr vm)
  have "Execute env vm \<noteq> Inl (GoPanic, w)" for w
    using Execute_no_panic [OF assms(1) Inr] assms(3) by (simp add: hasEntry_def)
  then show ?thesis
    using Inr by (auto simp: scriptVerdict_def split: sum.splits)
qed (simp add: scriptVerdict_def)

lemma verdictsFrom_no_panic:
  assumes "blake2bOk env" and "\<And>k. k < length ins \<Longrightarrow> i + k < length (Inputs tx) \<and> Inputs tx ! (i + k) = ins ! k"
  shows "verdictsFrom env tx missing i ins \<noteq> Inl RuntimePanic"
  using assms(2)
proof (induction ins arbitrary: missing i)
  case (Cons input ins)
  have "Suc i + k < length (Inputs tx) \<and> Inputs tx ! (Suc i + k) = ins ! k" if "k < length ins" for k
    using Cons.prems [of "Suc k"] that by simp
  note IH = Cons.IH [of "Suc i", OF this]
  have "i < length (Inputs tx)" "Inputs tx ! i = input" using Cons.prems [of 0] by auto
  then have "hasEntry input \<Longrightarrow> scriptVerdict env tx i spk \<noteq> Inl RuntimePanic" for spk
    using scriptVerdict_no_panic [OF assms(1), of i tx] by simp
  then show ?case
    using IH by (auto simp: hasEntry_def rbind_eq_Inl_iff split: option.split)
qed simp

lemma amounts_no_panic:
  "inputAmountsLoop t missing ins \<noteq> Inl RuntimePanic" "checkTransactionOutputAmounts tx t \<noteq> Inl RuntimePanic"
  by (induction t missing ins rule: inputAmountsLoop.induct)
    (auto simp: checkEntryAmounts_def checkTransactionOutputAmounts_def Let_def rbind_eq_Inl_iff split: option.splits)

lemma coinbaseMaturityLoop_no_panic: "coinbaseMaturityLoop v pov missing ins \<noteq> Inl RuntimePanic"
  by (induction v pov missing ins rule: coinbaseMaturityLoop.induct) (auto split: option.splits)

lemma sequenceLockLoop_no_panic: "sequenceLockLoop lock missing ins \<noteq> Inl RuntimePanic"
proof (induction ins arbitrary: lock missing)
  case (Cons input ins)
  then show ?case by (cases "inputUTXOEntry input") (simp_all add: Let_def)
qed simp

lemma sigOpCountsLoop_no_panic: "list_all hasEntry ins \<Longrightarrow> sigOpCountsLoop ins \<noteq> Inl RuntimePanic"
  by (induction ins) (auto simp: hasEntry_def split: if_split_asm)

lemma checks_no_panic:
  assumes "blake2bOk env" and "list_all hasEntry (Inputs tx)"
  shows "Inl RuntimePanic \<notin> set (contextChecks env v tx pov)"
proof -
  have "checkTransactionSequenceLock tx pov \<noteq> Inl RuntimePanic"
    using sequenceLockLoop_no_panic
    by (auto simp: checkTransactionSequenceLock_def calcTxSequenceLockFromReferencedUTXOEntries_def rbind_eq_Inl_iff)
  moreover have "verdictsFrom env tx [] 0 (Inputs tx) \<noteq> Inl RuntimePanic"
    by (rule verdictsFrom_no_panic [OF assms(1)]) simp
  ultimately show ?thesis
    using coinbaseMaturityLoop_no_panic sigOpCountsLoop_no_panic [OF assms(2)]
    by (auto simp: checkTransactionCoinbaseMaturity_def validateTransactionSigOpCounts_def dest: sym)
qed

lemma duplicateInputsLoop_iff:
  "duplicateInputsLoop existing ins = Inr () \<longleftrightarrow>
     distinct (map PreviousOutpoint ins) \<and> set existing \<inter> set (map PreviousOutpoint ins) = {}"
  by (induction existing ins rule: duplicateInputsLoop.induct) auto

lemma amountRangesLoop_iff:
  "amountRangesLoop t outs = Inr () \<longleftrightarrow>
     list_all (\<lambda>out. outputValue out \<noteq> 0) outs \<and>
     (outs \<noteq> [] \<longrightarrow> unat t + sum_list (map (\<lambda>out. unat (outputValue out)) outs) \<le> unat MaxSey)"
proof (induction outs arbitrary: t)
  case (Cons out outs)
  show ?case
  proof (cases "unat t + unat (outputValue out) > unat MaxSey")
    case True
    then show ?thesis using add_checked [of t "outputValue out"] by (auto simp: Let_def)
  next
    case False
    then have "\<not> outputValue out > MaxSey" by (simp add: word_less_nat_alt)
    then show ?thesis
      using False Cons [of "t + outputValue out"] add_checked [of t "outputValue out"]
        add_unchecked [of t "outputValue out"] by (auto simp: Let_def)
  qed
qed simp

text \<open>A transaction that spends an output with the script OP_1, and a validator.\<close>

definition exampleTx :: DomainTransaction where
  "exampleTx = (sampleTx [])\<lparr>Inputs := map (\<lambda>input. input\<lparr>SigOpCount := 0\<rparr>) (Inputs (sampleTx []))\<rparr>"

definition exampleValidator :: transactionValidator where
  "exampleValidator = \<lparr>blockCoinbaseMaturity = 100, enableNonNativeSubnetworks = False, maxCoinbasePayloadLength = 204,
     MergeSetSizeLimit = 180, coinbasePayloadScriptPublicKeyMaxLength = 150\<rparr>"

definition exampleCaches :: "(nat, nat) SigCache option \<times> (nat, nat) SigCache option" where
  "exampleCaches = (Some (NewSigCache 10), None)"

lemma exampleCaches_sound: "soundCaches exampleEnv exampleCaches"
  by (simp add: soundCaches_def exampleCaches_def exampleEnv_def exampleLib_def lawful_def)

section \<open>Properties\<close>

text \<open>C3. Script validation with shared signature caches, hashes reused between inputs and engines
  recycled from a pool gives the verdict of the plain procedure (for each input in order, a new
  engine without caches), whatever the pool hands out and whatever sound caches earlier validations
  left behind; and it leaves sound caches.\<close>

theorem validateTransactionScripts_reference:
  assumes "\<And>i. pooled (pool i)" and "soundCaches env caches"
  shows "fst (validateTransactionScripts env pool tx caches) = verdictsFrom env tx [] 0 (Inputs tx) \<and>
         soundCaches env (snd (validateTransactionScripts env pool tx caches))"
  using validateTransactionScripts_verdicts [where pool = pool and tx = tx and caches = caches, OF assms] by auto

theorem validateTransactionScripts_reference_witness:
  "fst (validateTransactionScripts exampleEnv (\<lambda>_. zeroEngine) exampleTx exampleCaches) = Inr ()"
proof -
  have "verdictsFrom exampleEnv exampleTx [] 0 (Inputs exampleTx) = Inr ()"
    by code_simp
  then show ?thesis
    using validateTransactionScripts_reference [OF pooled_zero exampleCaches_sound, of exampleTx] by simp
qed

text \<open>C2. Validation in context accepts exactly the transactions that meet the rules, whatever the
  order in which its concurrent checks finish: every input spends a known output, the amounts add up
  over the natural numbers to the outputs and the fee it stores in the transaction, coinbase outputs
  are mature, relative locks have passed, signature operations are declared right, and every script
  pair succeeds on its own. The transaction must have passed the isolated amount checks and DAA
  scores must be far from the integer limits.\<close>

theorem validation_in_context_correct:
  assumes "\<And>i. pooled (pool i)" and "soundCaches env caches" and "set arrival = {0, 1, 2, 3}"
    and "checkTransactionAmountRanges tx = Inr ()"
    and "list_all (saneScores v) (Inputs tx)" and "unat pov < 2 ^ 63"
  shows "case ValidateTransactionInContextAndPopulateFee env pool arrival v tx pov caches of
           (result, tx', caches') \<Rightarrow>
             (result = Inr () \<longleftrightarrow> validInContext env v (tx\<lparr>txFee := word_of_nat (totalIn tx - totalOut tx)\<rparr>) pov) \<and>
             (result = Inr () \<longrightarrow> tx' = tx\<lparr>txFee := word_of_nat (totalIn tx - totalOut tx)\<rparr>) \<and>
             soundCaches env caches'"
proof (cases "list_all hasEntry (Inputs tx) \<and> totalIn tx \<le> unat MaxSey \<and> totalOut tx \<le> totalIn tx")
  case False
  have "\<not> validInContext env v (tx\<lparr>txFee := f\<rparr>) pov" for f
    using False by (auto simp: validInContext_def)
  moreover obtain e where "ValidateTransactionInContextAndPopulateFee env pool arrival v tx pov caches = (Inl e, tx, caches)"
    using amounts_reject [OF assms(4) False] by blast
  ultimately show ?thesis using assms(2) by simp
next
  case True
  define tx' where "tx' = tx\<lparr>txFee := word_of_nat (totalIn tx - totalOut tx)\<rparr>"
  have small: "totalIn tx < 2 ^ 64" using True by (simp add: unat_MaxSey)
  define t where "t = (word_of_nat (totalIn tx) :: u64)"
  define u where "u = (word_of_nat (totalOut tx) :: u64)"
  have tu: "unat t = totalIn tx" "unat u = totalOut tx"
    using small True by (simp_all add: t_def u_def unat_of_nat)
  have sums: "checkTransactionInputAmounts tx = Inr t" "checkTransactionOutputAmounts tx t = Inr u"
    using amounts_iff [OF assms(4)] True tu by auto
  have "unat (t - u) = totalIn tx - totalOut tx"
    using True tu by (simp add: unat_sub_if')
  moreover have "t - u = word_of_nat (totalIn tx - totalOut tx)"
    using True by (simp add: t_def u_def)
  ultimately have fee: "tx\<lparr>txFee := t - u\<rparr> = tx'" "totalIn tx' = totalOut tx' + unat (txFee tx')"
    using True by (simp_all add: tx'_def del: of_nat_diff)
  let ?rs = "contextChecks env v tx' pov"
  obtain caches' where "soundCaches env caches'" "ValidateTransactionInContextAndPopulateFee env pool arrival v tx pov caches =
      (case collectResults (map (\<lambda>idx. ?rs ! idx) arrival) of Some e \<Rightarrow> Inl e | None \<Rightarrow> Inr (), tx', caches')"
    using inContext_run [where pool = pool and arrival = arrival and v = v and pov = pov, OF assms(1,2) sums]
    unfolding fee(1) by blast
  moreover have "collectResults (map (\<lambda>idx. ?rs ! idx) arrival) = None \<longleftrightarrow> list_all (\<lambda>r. r = Inr ()) ?rs"
    using assms(3) by (simp add: collectResults_None list_all_iff is_ok_iff)
  moreover have "list_all (\<lambda>r. r = Inr ()) ?rs \<longleftrightarrow> validInContext env v tx' pov"
    using assms(5,6) True fee(2) by (intro checks_iff) (simp_all add: tx'_def)
  ultimately show ?thesis
    by (cases "collectResults (map (\<lambda>idx. ?rs ! idx) arrival)") (auto simp add: tx'_def [symmetric] simp del: of_nat_diff)
qed

theorem validation_in_context_correct_witness:
  "fst (ValidateTransactionInContextAndPopulateFee exampleEnv (\<lambda>_. zeroEngine) [2, 0, 3, 1] exampleValidator exampleTx 3
          exampleCaches) = Inr () \<and>
   fst (ValidateTransactionInContextAndPopulateFee exampleEnv (\<lambda>_. zeroEngine) [2, 0, 3, 1] exampleValidator exampleTx 2
          exampleCaches) \<noteq> Inr ()"
proof -
  note ex_defs = exampleTx_def sampleTx_def sampleEntry_def NewUTXOEntry_def
  have sums: "totalIn exampleTx = 60" "totalOut exampleTx = 50"
    by (simp_all add: ex_defs inputAmount_def)
  have verdict: "scriptVerdict exampleEnv (exampleTx\<lparr>txFee := 10\<rparr>) 0 \<lparr>spkScript = [81], spkVersion = 0\<rparr> = Inr ()"
    by code_simp
  have native: "SubnetworkIDNative \<noteq> SubnetworkIDCoinbase"
    by code_simp
  have count: "GetPreciseSigOpCount [] [81] = 0"
    by code_simp
  have "validInContext exampleEnv exampleValidator (exampleTx\<lparr>txFee := 10\<rparr>) 3"
    using sums verdict count
    by (simp add: validInContext_def ex_defs hasEntry_def mature_def unat_MaxSey sigOpsDeclared_def lockPassed_def)
  moreover have "\<not> validInContext exampleEnv exampleValidator (exampleTx\<lparr>txFee := 10\<rparr>) 2"
    using native
    by (simp add: validInContext_def ex_defs lockPassed_def IsCoinBase_def SequenceLockTimeDisabled_def UnacceptedDAAScore_def)
  moreover have "checkTransactionAmountRanges exampleTx = Inr ()" "list_all (saneScores exampleValidator) (Inputs exampleTx)"
    by (simp_all add: ex_defs checkTransactionAmountRanges_def saneScores_def MaxSey_def SeyPerEY_def)
  moreover have "set [2, 0, 3, 1] = {0, 1, 2, 3 :: nat}"
    by auto
  note run = validation_in_context_correct [where pool = "\<lambda>_. zeroEngine" and v = exampleValidator and tx = exampleTx,
      OF pooled_zero exampleCaches_sound this]
  ultimately show ?thesis
    using run [of 3] run [of 2] by (auto simp: sums split: prod.splits)
qed

text \<open>C17. Validation in context never panics: whatever the transaction, its scripts, the missing
  entries and the order in which the checks finish, the result is acceptance or an error.\<close>

theorem validation_in_context_no_panic:
  assumes "\<And>i. pooled (pool i)" and "soundCaches env caches" and "blake2bOk env" and "set arrival = {0, 1, 2, 3}"
  shows "fst (ValidateTransactionInContextAndPopulateFee env pool arrival v tx pov caches) \<noteq> Inl RuntimePanic"
proof -
  show ?thesis
  proof (cases "\<exists>t u. checkTransactionInputAmounts tx = Inr t \<and> checkTransactionOutputAmounts tx t = Inr u")
    case False
    then show ?thesis
      using amounts_no_panic(1) [of 0 "[]" "Inputs tx"] amounts_no_panic(2) [of tx]
      by (auto simp: ValidateTransactionInContextAndPopulateFee_def checkTransactionInputAmounts_def split: sum.splits)
  next
    case True
    then obtain t u where tu: "checkTransactionInputAmounts tx = Inr t" "checkTransactionOutputAmounts tx t = Inr u"
      by blast
    let ?tx = "tx\<lparr>txFee := t - u\<rparr>"
    have "list_all hasEntry (Inputs ?tx)"
      using tu(1) inputAmountsLoop_iff by (simp add: checkTransactionInputAmounts_def)
    then have "Inl RuntimePanic \<notin> set (contextChecks env v ?tx pov)"
      by (rule checks_no_panic [OF assms(3)])
    then have "collectResults (map (\<lambda>idx. contextChecks env v ?tx pov ! idx) arrival) \<noteq> Some RuntimePanic"
      using assms(4) by (auto dest!: collectResults_Some)
    then show ?thesis
      using inContext_run [where pool = pool and arrival = arrival and v = v and pov = pov, OF assms(1,2) tu]
      by (auto split: option.splits)
  qed
qed

theorem validation_in_context_no_panic_witness:
  "fst (ValidateTransactionInContextAndPopulateFee exampleEnv (\<lambda>_. zeroEngine) [0, 1, 2, 3] exampleValidator
          (exampleTx\<lparr>Inputs := map (\<lambda>input. input\<lparr>inputUTXOEntry := None\<rparr>) (Inputs exampleTx)\<rparr>) 3 exampleCaches) \<noteq>
   Inl RuntimePanic"
  by (rule validation_in_context_no_panic [OF pooled_zero exampleCaches_sound exampleEnv_blake2bOk]) auto

text \<open>C18. What validation in isolation guarantees: a transaction that passes spends pairwise
  different outpoints, has only positive outputs whose sum over the natural numbers stays within the
  money supply, has inputs unless it is a coinbase, none if it is one, and has the current version;
  conversely a transaction with equal outpoints, a zero output or too large a sum is rejected.\<close>

theorem validation_in_isolation_amounts:
  "(ValidateTransactionInIsolation isValidJSONObject v tx daa = Inr () \<longrightarrow>
      distinct (map PreviousOutpoint (Inputs tx)) \<and> totalOut tx \<le> unat MaxSey \<and>
      list_all (\<lambda>out. 0 < unat (outputValue out)) (Outputs tx) \<and>
      (Inputs tx = [] \<longleftrightarrow> IsCoinBase tx) \<and> txVersion tx = 0) \<and>
   (\<not> distinct (map PreviousOutpoint (Inputs tx)) \<or> totalOut tx > unat MaxSey \<or>
      \<not> list_all (\<lambda>out. 0 < unat (outputValue out)) (Outputs tx) \<longrightarrow>
      \<not> is_ok (ValidateTransactionInIsolation isValidJSONObject v tx daa))"
proof -
  have ranges: "checkTransactionAmountRanges tx = Inr () \<longleftrightarrow>
      list_all (\<lambda>out. 0 < unat (outputValue out)) (Outputs tx) \<and> totalOut tx \<le> unat MaxSey"
    by (auto simp: checkTransactionAmountRanges_def amountRangesLoop_iff list_all_iff unat_gt_0)
  have dup: "checkDuplicateTransactionInputs tx = Inr () \<longleftrightarrow> distinct (map PreviousOutpoint (Inputs tx))"
    by (simp add: checkDuplicateTransactionInputs_def duplicateInputsLoop_iff)
  have "is_ok (ValidateTransactionInIsolation isValidJSONObject v tx daa) \<Longrightarrow>
      checkTransactionInputCount tx = Inr () \<and> checkTransactionAmountRanges tx = Inr () \<and>
      checkDuplicateTransactionInputs tx = Inr () \<and> checkCoinbaseInIsolation v tx = Inr () \<and>
      \<not> txVersion tx > MaxTransactionVersion"
    by (auto simp: ValidateTransactionInIsolation_def is_ok_iff rbind_eq_Inr_iff split: if_split_asm)
  moreover have "checkCoinbaseInIsolation v tx = Inr () \<Longrightarrow> IsCoinBase tx \<Longrightarrow> Inputs tx = []"
    by (auto simp: checkCoinbaseInIsolation_def split: if_split_asm)
  moreover have "checkTransactionInputCount tx = Inr () \<longleftrightarrow> IsCoinBase tx \<or> Inputs tx \<noteq> []"
    by (simp add: checkTransactionInputCount_def)
  moreover have "\<not> txVersion tx > MaxTransactionVersion \<longleftrightarrow> txVersion tx = 0"
    by (simp add: MaxTransactionVersion_def word_gt_0)
  ultimately show ?thesis
    unfolding ranges dup by (auto simp: is_ok_iff)
qed

theorem validation_in_isolation_amounts_witness:
  "\<not> is_ok (ValidateTransactionInIsolation (\<lambda>_ _. True) exampleValidator
      (exampleTx\<lparr>Inputs := Inputs exampleTx @ Inputs exampleTx\<rparr>) 0) \<and> totalOut exampleTx \<le> unat MaxSey"
proof -
  have "ValidateTransactionInIsolation (\<lambda>_ _. True) exampleValidator exampleTx 0 = Inr ()"
    by code_simp
  then show ?thesis
    using validation_in_isolation_amounts [of "\<lambda>_ _. True" exampleValidator exampleTx 0]
      validation_in_isolation_amounts [of "\<lambda>_ _. True" exampleValidator "exampleTx\<lparr>Inputs := Inputs exampleTx @ Inputs exampleTx\<rparr>" 0]
    by (auto simp: exampleTx_def sampleTx_def)
qed

lemma finalized_iff:
  assumes "int64_range t"
  shows "IsFinalizedTransaction tx daa t \<longleftrightarrow> LockTime tx = 0 \<or>
      (LockTime tx < LockTimeThreshold \<and> unat (LockTime tx) < unat daa) \<or> (LockTimeThreshold \<le> LockTime tx \<and> uint (LockTime tx) < t) \<or>
      ((LockTime tx < LockTimeThreshold \<or> 0 \<le> t) \<and> (\<forall>input\<in>set (Inputs tx). uint (Sequence input) = 2 ^ 64 - 1))"
proof -
  have "(s :: u64) = - 1 \<longleftrightarrow> uint s = 2 ^ 64 - 1" for s
    by (simp add: word_uint_eq_iff unsigned_minus_1_eq_mask mask_eq_exp_minus_1)
  then have all: "list_all (\<lambda>input. Sequence input = - 1) (Inputs tx) \<longleftrightarrow> (\<forall>input\<in>set (Inputs tx). uint (Sequence input) = 2 ^ 64 - 1)"
    by (simp add: list_all_iff)
  consider "LockTime tx < LockTimeThreshold" "\<not> LockTimeThreshold \<le> LockTime tx"
    | "\<not> LockTime tx < LockTimeThreshold" "LockTimeThreshold \<le> LockTime tx" "t < 0"
    | "\<not> LockTime tx < LockTimeThreshold" "LockTimeThreshold \<le> LockTime tx" "0 \<le> t"
    by (meson not_le)
  then show ?thesis
  proof cases
    case 1
    then show ?thesis unfolding IsFinalizedTransaction_def Let_def all by (simp add: word_less_nat_alt [of "LockTime tx" daa])
  next
    case 2
    have "\<not> uint (LockTime tx) < t" using 2(3) uint_ge_0 [of "LockTime tx"] by linarith
    then show ?thesis using 2 unfolding IsFinalizedTransaction_def Let_def by simp
  next
    case 3
    have "uint (word_of_int t :: u64) = t"
      using 3(3) assms by (simp add: int64_range_def uint_word_of_int_eq take_bit_int_eq_self)
    then have "LockTime tx < word_of_int t \<longleftrightarrow> uint (LockTime tx) < t" by (simp add: word_less_def)
    then show ?thesis using 3 unfolding IsFinalizedTransaction_def Let_def all by simp
  qed
qed

text \<open>C19. When a transaction counts as finalized, for a block time that is an \<open>int64\<close>. A lock time below
  the threshold is a DAA score and one from the threshold on is a time, compared over the
  integers. The check passes exactly when there is no lock time, when the lock time lies strictly
  before the score or the time of the block, or when the sequence number of every input is the
  largest one; a time lock is never passed in a block with a negative time, whatever the sequence
  numbers. Otherwise the error is \<open>ErrUnfinalizedTx\<close>. A transaction that passes at a score and a
  time passes at every later score and time.\<close>

theorem finality_exact:
  assumes "int64_range t"
  shows "(ValidateTransactionInContextIgnoringUTXO tx t daa = Inr () \<longleftrightarrow>
            LockTime tx = 0 \<or>
            (LockTime tx < LockTimeThreshold \<and> unat (LockTime tx) < unat daa) \<or>
            (LockTimeThreshold \<le> LockTime tx \<and> uint (LockTime tx) < t) \<or>
            ((LockTime tx < LockTimeThreshold \<or> 0 \<le> t) \<and> (\<forall>input\<in>set (Inputs tx). uint (Sequence input) = 2 ^ 64 - 1))) \<and>
         (ValidateTransactionInContextIgnoringUTXO tx t daa = Inr () \<or>
            ValidateTransactionInContextIgnoringUTXO tx t daa = Inl ErrUnfinalizedTx) \<and>
         (\<forall>daa' t'. ValidateTransactionInContextIgnoringUTXO tx t daa = Inr () \<and> daa \<le> daa' \<and> t \<le> t' \<and> int64_range t' \<longrightarrow>
            ValidateTransactionInContextIgnoringUTXO tx t' daa' = Inr ())"
proof -
  let ?final = "\<lambda>daa t. ValidateTransactionInContextIgnoringUTXO tx t daa = Inr ()"
  have final: "?final daa t \<longleftrightarrow> IsFinalizedTransaction tx daa t" for daa t by (simp add: ValidateTransactionInContextIgnoringUTXO_def)
  have "?final daa' t'" if "?final daa t" "daa \<le> daa'" "t \<le> t'" "int64_range t'" for daa' t'
    using that unfolding final finalized_iff [OF assms] finalized_iff [OF that(4)] word_le_nat_alt
    by (elim disjE) (simp_all, linarith+)
  moreover have "?final daa t \<or> ValidateTransactionInContextIgnoringUTXO tx t daa = Inl ErrUnfinalizedTx"
    by (simp add: ValidateTransactionInContextIgnoringUTXO_def)
  ultimately show ?thesis using finalized_iff [OF assms, of tx daa] unfolding final by blast
qed

theorem finality_exact_witness:
  "ValidateTransactionInContextIgnoringUTXO (exampleTx\<lparr>LockTime := 7\<rparr>) 5 8 = Inr () \<and>
   ValidateTransactionInContextIgnoringUTXO (exampleTx\<lparr>LockTime := 7\<rparr>) 5 7 = Inl ErrUnfinalizedTx"
proof -
  have t: "int64_range 5" by (simp add: int64_range_def)
  have "\<not> (\<forall>input\<in>set (Inputs exampleTx). uint (Sequence input) = 2 ^ 64 - 1)" by (simp add: exampleTx_def sampleTx_def)
  then have "ValidateTransactionInContextIgnoringUTXO (exampleTx\<lparr>LockTime := 7\<rparr>) 5 7 \<noteq> Inr ()"
    using conjunct1 [OF finality_exact [OF t, of "exampleTx\<lparr>LockTime := 7\<rparr>" 7]] by (simp add: LockTimeThreshold_def)
  then show ?thesis
    using conjunct1 [OF finality_exact [OF t, of "exampleTx\<lparr>LockTime := 7\<rparr>" 8]]
      conjunct1 [OF conjunct2 [OF finality_exact [OF t, of "exampleTx\<lparr>LockTime := 7\<rparr>" 7]]] by (simp add: LockTimeThreshold_def)
qed

end
