(* ===== verification/Script_Builder.thy ===== *)
theory Script_Builder
  imports Script_Caches
begin

text \<open>
  The script builder (txscript/scriptbuilder.go), and that what it builds does what it says: the
  push it appends is parsed as one opcode, and executing that opcode pushes the data it was given.
\<close>

section \<open>The builder\<close>

text \<open>The error of a builder is always \<open>ErrScriptNotCanonical\<close>, so a flag records it.\<close>

record ScriptBuilder =
  builderScript :: bytes
  builderErr :: bool

definition NewScriptBuilder :: ScriptBuilder where
  "NewScriptBuilder = \<lparr>builderScript = [], builderErr = False\<rparr>"

definition AddOp :: "ScriptBuilder \<Rightarrow> byte \<Rightarrow> ScriptBuilder" where
  "AddOp b opcode =
     (if builderErr b then b
      else if length (builderScript b) + 1 > MaxScriptSize then b\<lparr>builderErr := True\<rparr>
      else b\<lparr>builderScript := builderScript b @ [opcode]\<rparr>)"

definition AddOps :: "ScriptBuilder \<Rightarrow> bytes \<Rightarrow> ScriptBuilder" where
  "AddOps b opcodes =
     (if builderErr b then b
      else if length (builderScript b) + length opcodes > MaxScriptSize then b\<lparr>builderErr := True\<rparr>
      else b\<lparr>builderScript := builderScript b @ opcodes\<rparr>)"

definition canonicalDataSize :: "bytes \<Rightarrow> nat" where
  "canonicalDataSize data =
     (let dataLen = length data
      in if dataLen = 0 then 1
         else if dataLen = 1 \<and> data ! 0 \<le> 16 then 1
         else if dataLen = 1 \<and> data ! 0 = 0x81 then 1
         else if dataLen < unat OpPushData1 then 1 + dataLen
         else if dataLen \<le> 0xff then 2 + dataLen
         else if dataLen \<le> 0xffff then 3 + dataLen
         else 5 + dataLen)"

definition addData :: "ScriptBuilder \<Rightarrow> bytes \<Rightarrow> ScriptBuilder" where
  "addData b data =
     (let dataLen = length data;
          append = (\<lambda>bs. b\<lparr>builderScript := builderScript b @ bs\<rparr>)
      in if dataLen = 0 \<or> dataLen = 1 \<and> data ! 0 = 0 then append [Op0]
         else if dataLen = 1 \<and> data ! 0 \<le> 16 then append [Op1 - 1 + data ! 0]
         else if dataLen = 1 \<and> data ! 0 = 0x81 then append [Op1Negate]
         else if dataLen < unat OpPushData1 then append (word_of_nat dataLen # data)
         else if dataLen \<le> 0xff then append (OpPushData1 # word_of_nat dataLen # data)
         else if dataLen \<le> 0xffff then append (OpPushData2 # le_bytes 2 dataLen @ data)
         else if dataLen > MaxScriptSize then b\<lparr>builderErr := True\<rparr>
         else append (OpPushData4 # le_bytes 4 dataLen @ data))"

definition AddFullData :: "ScriptBuilder \<Rightarrow> bytes \<Rightarrow> ScriptBuilder" where
  "AddFullData b data = (if builderErr b then b else addData b data)"

definition AddData :: "ScriptBuilder \<Rightarrow> bytes \<Rightarrow> ScriptBuilder" where
  "AddData b data =
     (if builderErr b then b
      else if length (builderScript b) + canonicalDataSize data > MaxScriptSize then b\<lparr>builderErr := True\<rparr>
      else if length data > MaxScriptElementSize then b\<lparr>builderErr := True\<rparr>
      else addData b data)"

text \<open>\<open>Bytes\<close> of the smallest 64-bit number panics, and so does \<open>AddInt64\<close>.\<close>

definition AddInt64 :: "ScriptBuilder \<Rightarrow> int \<Rightarrow> script_failure + ScriptBuilder" where
  "AddInt64 b val =
     (if builderErr b then Inr b
      else if length (builderScript b) + 1 > MaxScriptSize then Inr (b\<lparr>builderErr := True\<rparr>)
      else if val = 0 then Inr (b\<lparr>builderScript := builderScript b @ [Op0]\<rparr>)
      else if val = - 1 \<or> 1 \<le> val \<and> val \<le> 16
      then Inr (b\<lparr>builderScript := builderScript b @ [word_of_int (uint (Op1 - 1) + val)]\<rparr>)
      else rbind (Bytes val) (\<lambda>bs. Inr (AddData b bs)))"

text \<open>The loop that strips zero bytes from the end; it panics when all bytes are zero.\<close>

fun unpaddedSize :: "bytes \<Rightarrow> nat \<Rightarrow> script_failure + nat" where
  "unpaddedSize bs 0 = Inl GoPanic"
| "unpaddedSize bs (Suc n) = (if bs ! n = 0 then unpaddedSize bs n else Inr (Suc n))"

definition addLockTimeOrSequence :: "ScriptBuilder \<Rightarrow> u64 \<Rightarrow> script_failure + ScriptBuilder" where
  "addLockTimeOrSequence b lockTimeOrSequence =
     (if builderErr b then Inr b
      else
        let bs = le_bytes 8 (unat lockTimeOrSequence)
        in rbind (unpaddedSize bs 8) (\<lambda>n. Inr (AddData b (take n bs))))"

definition AddLockTimeNumber :: "ScriptBuilder \<Rightarrow> u64 \<Rightarrow> script_failure + ScriptBuilder" where
  "AddLockTimeNumber b lockTime = addLockTimeOrSequence b lockTime"

definition AddSequenceNumber :: "ScriptBuilder \<Rightarrow> u64 \<Rightarrow> script_failure + ScriptBuilder" where
  "AddSequenceNumber b sequence = addLockTimeOrSequence b sequence"

definition ResetBuilder :: "ScriptBuilder \<Rightarrow> ScriptBuilder" where
  "ResetBuilder b = \<lparr>builderScript = [], builderErr = False\<rparr>"

text \<open>The script built so far is returned also when there was an error.\<close>

definition Script :: "ScriptBuilder \<Rightarrow> bytes \<times> script_failure option" where
  "Script b = (builderScript b, if builderErr b then Some OtherError else None)"

section \<open>Push opcodes\<close>

lemma opcodeArray_funcs:
  "map opFunc opcodeArray_push =
     FnPush C_False # replicate 78 (FnPush C_PushData) @ [FnPush C_1Negate, FnReserved] @ replicate 16 (FnPush C_N)"
  by code_simp

lemma opcodeArray_func:
  "i < 97 \<Longrightarrow> opFunc (opcodeArray ! i) =
     (if i = 0 then FnPush C_False else if i < 79 then FnPush C_PushData else if i = 79 then FnPush C_1Negate
      else if i = 80 then FnReserved else FnPush C_N)"
proof -
  assume i: "i < 97"
  have len: "length opcodeArray_push = 97" by (simp add: opcodeArray_push_def)
  have "opFunc (opcodeArray ! i) = map opFunc opcodeArray_push ! i"
    using i len by (simp add: opcodeArray_def nth_append)
  also have "\<dots> = (if i = 0 then FnPush C_False else if i < 79 then FnPush C_PushData else if i = 79 then FnPush C_1Negate
      else if i = 80 then FnReserved else FnPush C_N)"
    unfolding opcodeArray_funcs using i
    by (cases "i < 79"; cases "i \<in> {79, 80}") (auto simp: nth_append nth_Cons')
  finally show ?thesis .
qed

lemma opcodeArray_word:
  assumes "i < 97"
  shows "opValue (opcodeArray ! i) = word_of_nat i"
proof -
  have "unat (opValue (opcodeArray ! i)) = i"
    using assms opcodeArray_value [of i] by simp
  then show ?thesis
    using assms by (intro unsigned_word_eqI [where 'a = nat]) (simp add: unat_of_nat)
qed

lemma push_value_le: "i < 97 \<Longrightarrow> (word_of_nat i :: byte) \<le> Op16" "i < 97 \<Longrightarrow> (word_of_nat i :: byte) \<le> OpPushData4 \<longleftrightarrow> i \<le> 78"
  "i < 97 \<Longrightarrow> (word_of_nat i :: byte) = 0 \<longleftrightarrow> i = 0"
  by (simp_all add: word_le_nat_alt word_unat_eq_iff unat_of_nat)

lemma push_ordinary:
  assumes "i < 97"
  shows "\<not> isDisabled \<lparr>popOpcode = opcodeArray ! i, popData = d\<rparr>" "\<not> alwaysIllegal \<lparr>popOpcode = opcodeArray ! i, popData = d\<rparr>"
  using push_value_le(1) [OF assms] by (auto simp: isDisabled_def alwaysIllegal_def opcodeArray_word [OF assms])

lemma executeOpcode_push_run:
  assumes "i < 97" and "isBranchExecuting vm" and "length d \<le> MaxScriptElementSize"
    and "1 \<le> i \<Longrightarrow> i \<le> 78 \<Longrightarrow> checkMinimalDataPush \<lparr>popOpcode = opcodeArray ! i, popData = d\<rparr> = Inr ()"
  shows "executeOpcode env \<lparr>popOpcode = opcodeArray ! i, popData = d\<rparr> vm =
         runOpfunc env (opFunc (opcodeArray ! i)) \<lparr>popOpcode = opcodeArray ! i, popData = d\<rparr> vm"
proof -
  let ?pop = "\<lparr>popOpcode = opcodeArray ! i, popData = d\<rparr>"
  have "countOp ?pop vm = Inr ((), vm)"
    using push_value_le(1) [OF assms(1)] assms(3)
    by (auto simp: countOp_def opcodeArray_word [OF assms(1)] vret_def)
  then show ?thesis
    using assms(2,4) push_ordinary [OF assms(1)] push_value_le [OF assms(1)]
    by (simp add: executeOpcode_def vbind_def vget_def opcodeArray_word [OF assms(1)] vlift_def vret_def
        Suc_le_eq)
qed

lemma Bytes_one_byte:
  assumes "0 < n" and "n < 128"
  shows "Bytes n = Inr [word_of_int n]"
proof -
  have "unat (word_of_int n :: byte) = nat n"
    using assms by (simp add: unat_eq_nat_uint uint_word_of_int_eq take_bit_int_eq_self del: nat_uint_eq)
  then have "(word_of_int n :: byte) AND 0x80 = 0"
    using assms by (simp add: byte_and_80)
  then show ?thesis
    using assms by (simp add: Bytes_def numBytes_pos numBytes_nonpos)
qed

section \<open>What a push does\<close>

text \<open>An opcode that, executed, pushes the given data and does nothing else.\<close>

definition pushes :: "('pk, 'sg) script_env \<Rightarrow> parsedOpcode \<Rightarrow> bytes \<Rightarrow> bool" where
  "pushes env pop data \<longleftrightarrow>
     (\<forall>vm. isBranchExecuting vm \<longrightarrow> executeOpcode env pop vm = Inr ((), vm\<lparr>dstack := dstack vm @ [data]\<rparr>))"

lemma ParseScript_one:
  "parseOne bs = Some (pop, []) \<Longrightarrow> ParseScript bs = ([pop], None)"
  by (subst ParseScript_step) (auto simp: parseOne_def split: list.splits)

lemma pushes_plain:
  assumes "i < 97" and "i = 0 \<and> data = [] \<or> i = 79 \<and> data = [0x81] \<or> 81 \<le> i \<and> data = [word_of_nat (i - 80)]"
  shows "ParseScript [word_of_nat i] = ([\<lparr>popOpcode = opcodeArray ! i, popData = []\<rparr>], None)"
    and "pushes env \<lparr>popOpcode = opcodeArray ! i, popData = []\<rparr> data"
proof -
  have i: "i = unat (word_of_nat i :: byte)" using assms(1) by (simp add: unat_of_nat)
  show "ParseScript [word_of_nat i] = ([\<lparr>popOpcode = opcodeArray ! i, popData = []\<rparr>], None)"
    using assms(2) parseOne_plain [OF i, of "[]"] by (intro ParseScript_one) auto
  have neg: "Bytes (- 1) = Inr [0x81]" by code_simp
  have pos: "Bytes (uint (word_of_nat i - 80 :: byte)) = Inr [word_of_nat (i - 80)]" if "81 \<le> i"
  proof -
    have "uint (word_of_nat i - 80 :: byte) = int (i - 80)"
      using that assms(1) i by (simp add: uint_sub_if' uint_nat [of "word_of_nat i"] del: of_nat_unat)
    then show ?thesis using that assms(1) Bytes_one_byte [of "int (i - 80)"] by simp
  qed
  show "pushes env \<lparr>popOpcode = opcodeArray ! i, popData = []\<rparr> data"
    unfolding pushes_def
  proof (intro allI impI)
    fix vm :: "('a, 'b) Engine" assume "isBranchExecuting vm"
    then have "executeOpcode env \<lparr>popOpcode = opcodeArray ! i, popData = []\<rparr> vm =
        runOpfunc env (opFunc (opcodeArray ! i)) \<lparr>popOpcode = opcodeArray ! i, popData = []\<rparr> vm"
      using assms by (intro executeOpcode_push_run) auto
    then show "executeOpcode env \<lparr>popOpcode = opcodeArray ! i, popData = []\<rparr> vm = Inr ((), vm\<lparr>dstack := dstack vm @ [data]\<rparr>)"
      using assms neg pos
      by (auto simp: opcodeArray_func push_defs doDstack_def onDstack_def PushByteArray_def PushInt_def opcodeArray_word)
  qed
qed

lemma pushes_data:
  assumes "1 \<le> i" "i \<le> 78" and "length data \<le> MaxScriptElementSize"
    and "checkMinimalDataPush \<lparr>popOpcode = opcodeArray ! i, popData = data\<rparr> = Inr ()"
  shows "pushes env \<lparr>popOpcode = opcodeArray ! i, popData = data\<rparr> data"
  unfolding pushes_def
proof (intro allI impI)
  fix vm :: "('a, 'b) Engine" assume "isBranchExecuting vm"
  then have "executeOpcode env \<lparr>popOpcode = opcodeArray ! i, popData = data\<rparr> vm =
      runOpfunc env (opFunc (opcodeArray ! i)) \<lparr>popOpcode = opcodeArray ! i, popData = data\<rparr> vm"
    using assms by (intro executeOpcode_push_run) auto
  then show "executeOpcode env \<lparr>popOpcode = opcodeArray ! i, popData = data\<rparr> vm = Inr ((), vm\<lparr>dstack := dstack vm @ [data]\<rparr>)"
    using assms by (simp add: opcodeArray_func push_defs doDstack_def onDstack_def PushByteArray_def)
qed

lemma ParseScript_data:
  assumes "1 \<le> length data" "length data \<le> 75"
  shows "ParseScript (word_of_nat (length data) # data) = ([\<lparr>popOpcode = opcodeArray ! length data, popData = data\<rparr>], None)"
proof -
  have i: "length data = unat (word_of_nat (length data) :: byte)" using assms by (simp add: unat_of_nat)
  show ?thesis
    using parseOne_direct [OF i assms] by (intro ParseScript_one) simp
qed

lemma ParseScript_pushdata:
  assumes "i \<in> {76, 77, 78}" and "k = 2 ^ (i - 76)" and "length data < 256 ^ k"
  shows "ParseScript (word_of_nat i # le_bytes k (length data) @ data) =
         ([\<lparr>popOpcode = opcodeArray ! i, popData = data\<rparr>], None)"
proof -
  have i: "i = unat (word_of_nat i :: byte)" using assms(1) by (auto simp: unat_of_nat)
  have "length data = le_val (take k (le_bytes k (length data) @ data))"
    using assms(3) by (simp add: le_val_le_bytes)
  then show ?thesis
    using parseOne_pushdata [OF i assms(1,2), of "length data"] by (intro ParseScript_one) simp
qed

lemma checkMinimal_data:
  assumes "length data \<noteq> 0" and "length data = 1 \<Longrightarrow> data ! 0 > 16 \<and> data ! 0 \<noteq> 0x81"
    and "i < 97" and "i = (if length data \<le> 75 then length data else if length data \<le> 255 then 76 else 77)"
    and "length data \<le> 65535"
  shows "checkMinimalDataPush \<lparr>popOpcode = opcodeArray ! i, popData = data\<rparr> = Inr ()"
proof -
  have "unat (word_of_nat i :: byte) = i" using assms(3) by (simp add: unat_of_nat)
  then show ?thesis
    using assms by (auto simp: checkMinimalDataPush_def Let_def opcodeArray_word not_le)
qed

lemma byte_one: "length data = Suc 0 \<Longrightarrow> data = [data ! 0]"
  by (cases data) auto

lemma addData_push:
  assumes "data \<noteq> [0]" and "length data \<le> MaxScriptElementSize"
  shows "\<exists>bs pop. addData b data = b\<lparr>builderScript := builderScript b @ bs\<rparr> \<and> ParseScript bs = ([pop], None) \<and>
           isPushOnly [pop] \<and> pushes env pop data \<and> length bs = canonicalDataSize data"
proof -
  have limit: "length data \<le> 520" using assms(2) by (simp add: MaxScriptElementSize_def)
  consider (empty) "data = []" | (small) "length data = 1" "1 \<le> data ! 0" "data ! 0 \<le> 16"
    | (neg) "data = [0x81]"
    | (data) "length data \<noteq> 0" "length data = 1 \<Longrightarrow> data ! 0 > 16 \<and> data ! 0 \<noteq> 0x81"
  proof (cases "length data = 1")
    case True
    then obtain x where x: "data = [x]" by (metis One_nat_def byte_one)
    then have "1 \<le> x" using assms(1) by (simp add: word_le_nat_alt unat_gt_0 Suc_le_eq)
    then show ?thesis using x that by (cases "x \<le> 16"; cases "x = 0x81") auto
  qed (use that in auto)
  then show ?thesis
  proof cases
    case empty
    then show ?thesis
      using pushes_plain(1) [of 0 data] pushes_plain(2) [of 0 data env]
      by (intro exI [of _ "[Op0]"] exI [of _ "\<lparr>popOpcode = opcodeArray ! 0, popData = []\<rparr>"])
        (simp add: addData_def canonicalDataSize_def isPushOnly_def opcodeArray_word)
  next
    case small
    let ?i = "80 + unat (data ! 0)"
    have i: "?i < 97" "81 \<le> ?i" using small by (simp_all add: word_le_nat_alt)
    have d: "data = [word_of_nat (?i - 80)]" using byte_one [of data] small(1) by simp
    have "Op1 - 1 + data ! 0 = word_of_nat ?i" by simp
    then show ?thesis
      using pushes_plain(1) [of ?i data] pushes_plain(2) [of ?i data env] i d small push_value_le(1) [OF i(1)]
      by (intro exI [of _ "[word_of_nat ?i]"] exI [of _ "\<lparr>popOpcode = opcodeArray ! ?i, popData = []\<rparr>"])
        (auto simp: addData_def canonicalDataSize_def isPushOnly_def opcodeArray_word not_less)
  next
    case neg
    then show ?thesis
      using pushes_plain(1) [of 79 data] pushes_plain(2) [of 79 data env]
      by (intro exI [of _ "[Op1Negate]"] exI [of _ "\<lparr>popOpcode = opcodeArray ! 79, popData = []\<rparr>"])
        (simp add: addData_def canonicalDataSize_def isPushOnly_def opcodeArray_word)
  next
    case data
    define i where "i = (if length data \<le> 75 then length data else if length data \<le> 255 then 76 else 77 :: nat)"
    define bs where "bs = (if length data \<le> 75 then word_of_nat (length data) # data
        else word_of_nat i # le_bytes (2 ^ (i - 76)) (length data) @ data)"
    have i: "1 \<le> i" "i \<le> 78" using data(1) limit by (auto simp: i_def Suc_le_eq)
    have "checkMinimalDataPush \<lparr>popOpcode = opcodeArray ! i, popData = data\<rparr> = Inr ()"
      using data limit i by (intro checkMinimal_data) (auto simp: i_def)
    then have "pushes env \<lparr>popOpcode = opcodeArray ! i, popData = data\<rparr> data"
      by (rule pushes_data [OF i assms(2)])
    moreover have "ParseScript bs = ([\<lparr>popOpcode = opcodeArray ! i, popData = data\<rparr>], None)"
      using data(1) limit ParseScript_data [of data] ParseScript_pushdata [of i "2 ^ (i - 76)" data]
      by (auto simp: bs_def i_def Suc_le_eq)
    moreover have "addData b data = b\<lparr>builderScript := builderScript b @ bs\<rparr>" "length bs = canonicalDataSize data"
      using data limit by (auto simp: addData_def canonicalDataSize_def Let_def bs_def i_def not_le)
    ultimately show ?thesis
      using i by (intro exI [of _ bs] exI [of _ "\<lparr>popOpcode = opcodeArray ! i, popData = data\<rparr>"])
        (auto simp: isPushOnly_def opcodeArray_word not_less push_value_le)
  qed
qed

lemma AddData_appends:
  assumes "\<not> builderErr b" and "ParseScript (builderScript b) = (pops, None)"
    and "data \<noteq> [0]" and "length data \<le> MaxScriptElementSize"
    and "length (builderScript b) + canonicalDataSize data \<le> MaxScriptSize"
  shows "\<exists>pop. \<not> builderErr (AddData b data) \<and>
           ParseScript (builderScript (AddData b data)) = (pops @ [pop], None) \<and> isPushOnly [pop] \<and>
           pushes env pop data \<and>
           length (builderScript (AddData b data)) = length (builderScript b) + canonicalDataSize data"
proof -
  obtain bs pop where bs: "addData b data = b\<lparr>builderScript := builderScript b @ bs\<rparr>" "ParseScript bs = ([pop], None)"
    "isPushOnly [pop]" "pushes env pop data" "length bs = canonicalDataSize data"
    using addData_push [OF assms(3,4), of b env] by blast
  moreover have "AddData b data = addData b data"
    using assms by (simp add: AddData_def)
  ultimately show ?thesis
    using assms(1) ParseScript_append [OF assms(2), of bs] by (intro exI [of _ pop]) simp
qed

lemma length_Bytes:
  assumes "int64_range n" and "Bytes n = Inr bs"
  shows "length bs \<le> 9"
proof -
  have "length (numBytes m) \<le> 8" if "int64_range m" for m
    using that by (intro length_numBytes) (simp add: int64_range_def)
  from this [OF assms(1)] this [OF wrap64_range] show ?thesis
    using assms(2) by (fastforce simp: Bytes_def Let_def split: if_split_asm)
qed

lemma canonicalDataSize_le: "length data \<le> 75 \<Longrightarrow> canonicalDataSize data \<le> 1 + length data"
  by (simp add: canonicalDataSize_def Let_def)

lemma Bytes_not_zero: "int64_range n \<Longrightarrow> Bytes n = Inr bs \<Longrightarrow> bs \<noteq> [0]"
proof -
  have "\<not> is_ok (makeScriptNum [0] 8)" by code_simp
  then show "int64_range n \<Longrightarrow> Bytes n = Inr bs \<Longrightarrow> bs \<noteq> [0]"
    using makeScriptNum_Bytes [of 8 n bs] by auto
qed

lemma unpaddedSize_strips:
  "unpaddedSize bs n = Inr m \<Longrightarrow> n \<le> length bs \<Longrightarrow>
     0 < m \<and> m \<le> n \<and> bs ! (m - 1) \<noteq> 0 \<and> (\<forall>i. m \<le> i \<longrightarrow> i < n \<longrightarrow> bs ! i = 0)"
proof (induction n)
  case (Suc n)
  then show ?case
    by (cases "bs ! n = 0") (auto simp: less_Suc_eq)
qed simp

lemma unpaddedSize_panics: "unpaddedSize bs n = Inl e \<longleftrightarrow> e = GoPanic \<and> (\<forall>i < n. bs ! i = 0)"
  by (induction n) (auto simp: less_Suc_eq)

lemma le_bytes_zero_iff: "(\<forall>i < n. le_bytes n x ! i = 0) \<longleftrightarrow> x mod 256 ^ n = 0"
proof -
  have "(\<forall>i < n. le_bytes n x ! i = 0) \<longleftrightarrow> le_bytes n x = replicate n 0"
    by (auto simp: list_eq_iff_nth_eq)
  also have "\<dots> \<longleftrightarrow> le_val (le_bytes n x) = 0"
    using le_bytes_le_val [of "le_bytes n x"] le_bytes_le_val [of "replicate n 0"] by auto
  finally show ?thesis by (simp add: le_val_le_bytes)
qed

section \<open>Properties\<close>

text \<open>C21. Data added to a script is pushed by it: on a builder without error, adding data of at most
  520 bytes other than the single byte 0, when the result fits, appends exactly one push opcode to
  the parsed script; that opcode, executed in an active branch, passes the minimal-push check and
  pushes exactly the data; and the script grows by the canonical size.\<close>

theorem AddData_pushes:
  assumes "\<not> builderErr b" and "ParseScript (builderScript b) = (pops, None)"
    and "data \<noteq> [0]" and "length data \<le> MaxScriptElementSize"
    and "length (builderScript b) + canonicalDataSize data \<le> MaxScriptSize"
  shows "\<exists>pop. \<not> builderErr (AddData b data) \<and>
           ParseScript (builderScript (AddData b data)) = (pops @ [pop], None) \<and> isPushOnly [pop] \<and>
           pushes env pop data \<and>
           length (builderScript (AddData b data)) = length (builderScript b) + canonicalDataSize data"
  by (rule AddData_appends [OF assms])

theorem AddData_pushes_witness:
  "\<exists>pop. ParseScript (builderScript (AddData NewScriptBuilder [1, 2, 3])) = ([pop], None) \<and> pushes exampleEnv pop [1, 2, 3]"
  using AddData_pushes [of NewScriptBuilder "[]" "[1, 2, 3]" exampleEnv]
  by (auto simp: NewScriptBuilder_def MaxScriptElementSize_def MaxScriptSize_def canonicalDataSize_def)

text \<open>C22. A number added to a script is pushed as the engine encodes it: adding any 64-bit number
  except the smallest to a builder without error, when the result fits, does not panic and appends
  one push opcode that pushes the bytes the number is encoded as.\<close>

theorem AddInt64_pushes:
  assumes "\<not> builderErr b" and "ParseScript (builderScript b) = (pops, None)"
    and "int64_range n" and "n \<noteq> - (2 ^ 63)" and "length (builderScript b) + 10 \<le> MaxScriptSize"
  shows "\<exists>b' pop bs. AddInt64 b n = Inr b' \<and> \<not> builderErr b' \<and> Bytes n = Inr bs \<and>
           ParseScript (builderScript b') = (pops @ [pop], None) \<and> isPushOnly [pop] \<and> pushes env pop bs"
proof -
  obtain bs where bs: "Bytes n = Inr bs" using Bytes_total [OF assms(3,4)] by blast
  consider (zero) "n = 0" | (neg) "n = - 1" | (small) "1 \<le> n" "n \<le> 16" | (other) "n \<noteq> 0" "n \<noteq> - 1" "\<not> (1 \<le> n \<and> n \<le> 16)"
    by blast
  then show ?thesis
  proof cases
    case zero
    then have "bs = []" using bs by (simp add: Bytes_def)
    then show ?thesis
      using zero assms bs pushes_plain(1) [of 0 "[]"] pushes_plain(2) [of 0 "[]" env] ParseScript_append [OF assms(2), of "[0]"]
      by (simp add: AddInt64_def isPushOnly_def opcodeArray_word)
  next
    case neg
    have "Bytes (- 1) = Inr [0x81]" by code_simp
    then have "bs = [0x81]" using bs neg by simp
    then show ?thesis
      using neg assms bs pushes_plain(1) [of 79 "[0x81]"] pushes_plain(2) [of 79 "[0x81]" env]
        ParseScript_append [OF assms(2), of "[79]"]
      by (simp add: AddInt64_def isPushOnly_def opcodeArray_word)
  next
    case small
    define i where "i = 80 + nat n"
    have i: "i < 97" "81 \<le> i" "word_of_int (80 + n) = (word_of_nat i :: byte)"
      using small by (simp_all add: i_def)
    have d: "bs = [word_of_nat (i - 80)]"
      using bs Bytes_one_byte [of n] small by (simp add: i_def)
    show ?thesis
      using small i assms bs d pushes_plain(1) [of i bs] pushes_plain(2) [of i bs env]
        ParseScript_append [OF assms(2), of "[word_of_nat i]"] push_value_le(1) [OF i(1)]
      by (simp add: AddInt64_def isPushOnly_def opcodeArray_word not_less)
  next
    case other
    have len: "length bs \<le> 9" using length_Bytes [OF assms(3) bs] .
    then have "length (builderScript b) + canonicalDataSize bs \<le> MaxScriptSize"
      using assms(5) canonicalDataSize_le [of bs] by linarith
    from AddData_appends [OF assms(1,2) Bytes_not_zero [OF assms(3) bs] _ this, of env]
    show ?thesis
      using other assms(1,5) bs len by (auto simp: AddInt64_def MaxScriptElementSize_def)
  qed
qed

theorem AddInt64_pushes_witness:
  "\<exists>b pop bs. AddInt64 NewScriptBuilder 1000 = Inr b \<and> Bytes 1000 = Inr bs \<and>
     ParseScript (builderScript b) = ([pop], None) \<and> pushes exampleEnv pop bs"
  using AddInt64_pushes [of NewScriptBuilder "[]" 1000 exampleEnv]
  by (auto simp: NewScriptBuilder_def MaxScriptSize_def int64_range_def)

text \<open>C23. Lock times and sequence numbers survive the way through a script: adding a non-zero number
  to a builder without error, when the result fits, appends one push opcode, and the lock opcodes
  read the pushed bytes as the same number; adding zero panics.\<close>

theorem lock_time_roundtrip:
  assumes "\<not> builderErr b" and "ParseScript (builderScript b) = (pops, None)"
    and "length (builderScript b) + 9 \<le> MaxScriptSize"
  shows "if t = 0 then AddLockTimeNumber b t = Inl GoPanic \<and> AddSequenceNumber b t = Inl GoPanic
         else \<exists>b' pop bs. AddLockTimeNumber b t = Inr b' \<and> AddSequenceNumber b t = Inr b' \<and> \<not> builderErr b' \<and>
                ParseScript (builderScript b') = (pops @ [pop], None) \<and> pushes env pop bs \<and>
                length bs \<le> 8 \<and> paddedUint64 bs = t"
proof -
  define bs where "bs = le_bytes 8 (unat t)"
  have t: "le_val bs = unat t"
    using unsigned_less [of t, where ?'a = nat] by (simp add: bs_def le_val_le_bytes)
  show ?thesis
  proof (cases "unpaddedSize bs 8")
    case (Inl e)
    then have "t = 0" "e = GoPanic"
      using le_bytes_zero_iff [of 8 "unat t"] t by (auto simp: unpaddedSize_panics bs_def le_val_le_bytes unat_eq_0)
    moreover have "addLockTimeOrSequence b t = Inl e"
      using assms(1) Inl by (simp add: addLockTimeOrSequence_def Let_def bs_def [symmetric])
    ultimately show ?thesis by (simp add: AddLockTimeNumber_def AddSequenceNumber_def)
  next
    case (Inr m)
    have m: "0 < m" "m \<le> 8" "bs ! (m - 1) \<noteq> 0" "\<And>i. m \<le> i \<Longrightarrow> i < 8 \<Longrightarrow> bs ! i = 0"
      using unpaddedSize_strips [OF Inr] by (auto simp: bs_def)
    have split: "bs = take m bs @ replicate (8 - m) 0"
      using m(2,4) by (intro nth_equalityI) (auto simp: bs_def nth_append)
    have len: "length (take m bs) = m" using m(2) by (simp add: bs_def)
    have "le_val (take m bs @ replicate (8 - m) 0) = unat t"
      using t split by simp
    then have val: "paddedUint64 (take m bs) = t"
      using m(2) length_le_bytes [of 8 "unat t", folded bs_def] by (cases "m < 8") (simp_all add: paddedUint64_def)
    have "\<not> (\<forall>i < 8. bs ! i = 0)" using Inr unpaddedSize_panics [of bs 8] by (metis Inl_Inr_False)
    then have nz: "t \<noteq> 0" using le_bytes_zero_iff [of 8 "unat t"] by (auto simp: bs_def)
    have "take m bs ! (m - 1) \<noteq> 0" using m(1,3) by simp
    then have "take m bs \<noteq> [0]" using len by (metis One_nat_def diff_Suc_1 length_Cons list.size(3) nth_Cons_0)
    moreover have "length (take m bs) \<le> MaxScriptElementSize" using len m(2) by (simp add: MaxScriptElementSize_def)
    moreover have "length (builderScript b) + canonicalDataSize (take m bs) \<le> MaxScriptSize"
      using assms(3) canonicalDataSize_le [of "take m bs"] len m(2) by simp
    ultimately obtain pop where "\<not> builderErr (AddData b (take m bs))"
      "ParseScript (builderScript (AddData b (take m bs))) = (pops @ [pop], None)" "pushes env pop (take m bs)"
      using AddData_appends [OF assms(1,2), of "take m bs" env] by blast
    moreover have "addLockTimeOrSequence b t = Inr (AddData b (take m bs))"
      using assms(1) Inr by (simp add: addLockTimeOrSequence_def Let_def bs_def [symmetric])
    ultimately show ?thesis
      using nz val len m(2) by (auto simp: AddLockTimeNumber_def AddSequenceNumber_def)
  qed
qed

theorem lock_time_roundtrip_witness:
  "\<exists>b' pop bs. AddLockTimeNumber NewScriptBuilder 70000 = Inr b' \<and> AddLockTimeNumber NewScriptBuilder 0 = Inl GoPanic \<and>
     ParseScript (builderScript b') = ([pop], None) \<and> pushes exampleEnv pop bs \<and> paddedUint64 bs = 70000"
  using lock_time_roundtrip [of NewScriptBuilder "[]" 70000 exampleEnv] lock_time_roundtrip [of NewScriptBuilder "[]" 0 exampleEnv]
  by (auto simp: NewScriptBuilder_def MaxScriptSize_def)

end
