(* ===== verification/Go_Float.thy ===== *)
theory Go_Float
  imports Complex_Main Eiyaro_Prelude
begin

text \<open>
  The part of Go's \<open>float64\<close> that the sources compute with: binary64 numbers with rounding to
  nearest, ties to even, gradual underflow and overflow to infinity. A finite number is the
  rational it denotes; the two zeros are not told apart and negative infinity does not occur.
  The result of converting a number outside the range of \<open>uint64\<close> is left to the
  implementation by the language, so it is the parameter \<open>outOfRange\<close> of the conversion.
  The lemmas bound the relative error of a rounding.
\<close>

datatype float64 = Finite rat | PosInf | NaN

section \<open>Rounding\<close>

fun bitLength :: "nat \<Rightarrow> nat" where
  "bitLength n = (if n = 0 then 0 else Suc (bitLength (n div 2)))"

declare bitLength.simps [simp del]

definition pow2 :: "int \<Rightarrow> rat" where
  "pow2 e = (if 0 \<le> e then 2 ^ nat e else 1 / 2 ^ nat (- e))"

definition roundHalfEven :: "rat \<Rightarrow> int" where
  "roundHalfEven q =
     (let f = floor q; r = q - of_int f
      in if r < 1 / 2 then f else if r > 1 / 2 then f + 1 else if even f then f else f + 1)"

definition binaryExponent :: "rat \<Rightarrow> int" where
  "binaryExponent q =
     (let (n, d) = quotient_of q; e = int (bitLength (nat n)) - int (bitLength (nat d))
      in if pow2 e \<le> q then e else e - 1)"

definition roundMagnitude :: "rat \<Rightarrow> rat" where
  "roundMagnitude q =
     (if q = 0 then 0
      else let e = max (binaryExponent q - 52) (- 1074)
           in of_int (roundHalfEven (q / pow2 e)) * pow2 e)"

definition roundFloat :: "rat \<Rightarrow> float64" where
  "roundFloat q =
     (let m = roundMagnitude \<bar>q\<bar>
      in if m \<ge> pow2 1024 then (if q < 0 then NaN else PosInf)
         else Finite (if q < 0 then - m else m))"

section \<open>Operations\<close>

definition float64OfUint64 :: "u64 \<Rightarrow> float64" where
  "float64OfUint64 w = roundFloat (of_nat (unat w))"

fun fmul :: "float64 \<Rightarrow> float64 \<Rightarrow> float64" where
  "fmul (Finite a) (Finite b) = roundFloat (a * b)"
| "fmul PosInf (Finite b) = (if 0 < b then PosInf else NaN)"
| "fmul (Finite a) PosInf = (if 0 < a then PosInf else NaN)"
| "fmul PosInf PosInf = PosInf"
| "fmul _ _ = NaN"

fun fadd :: "float64 \<Rightarrow> float64 \<Rightarrow> float64" where
  "fadd (Finite a) (Finite b) = roundFloat (a + b)"
| "fadd PosInf (Finite b) = PosInf"
| "fadd (Finite a) PosInf = PosInf"
| "fadd PosInf PosInf = PosInf"
| "fadd _ _ = NaN"

fun fdiv :: "float64 \<Rightarrow> float64 \<Rightarrow> float64" where
  "fdiv (Finite a) (Finite b) = (if b = 0 then (if 0 < a then PosInf else NaN) else roundFloat (a / b))"
| "fdiv (Finite a) PosInf = Finite 0"
| "fdiv PosInf (Finite b) = (if 0 \<le> b then PosInf else NaN)"
| "fdiv _ _ = NaN"

fun fless :: "float64 \<Rightarrow> float64 \<Rightarrow> bool" where
  "fless (Finite a) (Finite b) = (a < b)"
| "fless (Finite a) PosInf = True"
| "fless _ _ = False"

text \<open>\<open>math.Ceil\<close>, \<open>math.Round\<close> (half away from zero) and \<open>math.Pow(2, x)\<close> for whole \<open>x\<close>.\<close>

fun mathCeil :: "float64 \<Rightarrow> float64" where
  "mathCeil (Finite q) = Finite (of_int (ceiling q))"
| "mathCeil x = x"

fun mathRound :: "float64 \<Rightarrow> float64" where
  "mathRound (Finite q) = Finite (if q < 0 then of_int (ceiling (q - 1 / 2)) else of_int (floor (q + 1 / 2)))"
| "mathRound x = x"

fun mathPow2 :: "float64 \<Rightarrow> float64" where
  "mathPow2 (Finite q) = (if q \<ge> 1024 then PosInf else if q < - 1074 then Finite 0 else Finite (pow2 (floor q)))"
| "mathPow2 x = x"

fun uint64OfFloat64 :: "(float64 \<Rightarrow> u64) \<Rightarrow> float64 \<Rightarrow> u64" where
  "uint64OfFloat64 outOfRange (Finite q) =
     (if 0 \<le> q \<and> q < 2 ^ 64 then word_of_int (floor q) else outOfRange (Finite q))"
| "uint64OfFloat64 outOfRange x = outOfRange x"

section \<open>The error of a rounding\<close>

lemma bitLength_bounds: "0 < n \<Longrightarrow> 2 ^ (bitLength n - 1) \<le> n \<and> n < 2 ^ bitLength n \<and> 0 < bitLength n"
proof (induction n rule: bitLength.induct)
  case (1 n)
  show ?case
  proof (cases "n div 2 = 0")
    case True
    then have "n = 1" using 1(2) by simp
    then show ?thesis by (simp add: bitLength.simps)
  next
    case False
    with 1 have ih: "2 ^ (bitLength (n div 2) - 1) \<le> n div 2" "n div 2 < 2 ^ bitLength (n div 2)"
      "0 < bitLength (n div 2)" by auto
    have b: "bitLength n = Suc (bitLength (n div 2))" using 1(2) by (simp add: bitLength.simps [of n])
    have "2 ^ (bitLength n - 1) = (2::nat) * 2 ^ (bitLength (n div 2) - 1)"
      using ih(3) unfolding b by (cases "bitLength (n div 2)") simp_all
    also have "\<dots> \<le> n" using ih(1) by linarith
    finally have "2 ^ (bitLength n - 1) \<le> n" .
    moreover have "n < 2 ^ bitLength n" using ih(2) unfolding b by simp
    ultimately show ?thesis by (simp add: b)
  qed
qed

lemma pow2_pos [simp]: "0 < pow2 e"
  by (simp add: pow2_def)

lemma pow2_powi: "pow2 e = 2 powi e"
  by (simp add: pow2_def power_int_def inverse_eq_divide power_one_over)

lemma pow2_add: "pow2 (a + b) = pow2 a * pow2 b"
  by (simp add: pow2_powi power_int_add)

lemma pow2_mono: "a \<le> b \<Longrightarrow> pow2 a \<le> pow2 b"
  by (simp add: pow2_powi power_int_increasing)

lemma pow2_of_nat: "pow2 (int n) = 2 ^ n"
  by (simp add: pow2_def)

lemma roundHalfEven_bounds: "\<bar>of_int (roundHalfEven q) - q\<bar> \<le> 1 / 2"
proof -
  have "of_int (floor q) \<le> q" "q < of_int (floor q) + 1" by linarith+
  moreover consider (down) "q - of_int (floor q) < 1 / 2" | (up) "q - of_int (floor q) > 1 / 2"
    | (tie) "q - of_int (floor q) = 1 / 2"
    by linarith
  ultimately show ?thesis
    by cases (simp_all add: roundHalfEven_def Let_def abs_le_iff)
qed

lemma binaryExponent_le:
  assumes "0 < q"
  shows "pow2 (binaryExponent q) \<le> q"
proof -
  obtain n d where nd: "quotient_of q = (n, d)" by (cases "quotient_of q")
  have d: "0 < d" and q: "q = of_int n / of_int d"
    using nd quotient_of_denom_pos quotient_of_div by auto
  have n: "0 < n" using assms d by (simp add: q zero_less_divide_iff)
  define a b where "a = bitLength (nat n)" and "b = bitLength (nat d)"
  have a: "2 ^ (a - 1) \<le> nat n" "0 < a" using bitLength_bounds [of "nat n"] n by (auto simp: a_def)
  have b: "nat d < 2 ^ b" using bitLength_bounds [of "nat d"] d by (auto simp: b_def)
  have "(2::rat) ^ (a - 1) \<le> of_int n"
  proof -
    have "2 ^ (a - 1) \<le> n" using a(1) n by (simp add: le_nat_iff)
    then have "(of_int (2 ^ (a - 1)) :: rat) \<le> of_int n" by (simp only: of_int_le_iff)
    then show ?thesis by simp
  qed
  moreover have "(of_int d :: rat) \<le> 2 ^ b"
  proof -
    have "d < 2 ^ b" using b d by (simp add: nat_less_iff)
    then have "(of_int d :: rat) < of_int (2 ^ b)" by (simp only: of_int_less_iff)
    then show ?thesis by simp
  qed
  ultimately have "2 ^ (a - 1) / 2 ^ b \<le> q"
    using d n by (simp add: q frac_le)
  moreover have "pow2 (int a - int b - 1) = 2 ^ (a - 1) / 2 ^ b"
    using a(2) by (simp add: pow2_powi power_int_diff [symmetric] power_int_of_nat [symmetric] of_nat_diff
        del: power_int_of_nat)
      (simp add: algebra_simps)
  ultimately have "pow2 (int a - int b - 1) \<le> q" by simp
  then show ?thesis
    unfolding binaryExponent_def nd Let_def by (simp add: a_def b_def)
qed

lemma roundMagnitude_error:
  assumes "1 / 8 \<le> q"
  shows "\<bar>roundMagnitude q - q\<bar> \<le> q / 2 ^ 53"
proof -
  define e where "e = max (binaryExponent q - 52) (- 1074)"
  have "pow2 e \<le> q / 2 ^ 52"
  proof (cases "binaryExponent q - 52 \<le> - 1074")
    case True
    have "pow2 (- 1074) \<le> pow2 (- 55)" by (rule pow2_mono) simp
    also have "\<dots> \<le> q / 2 ^ 52" using assms by (simp add: pow2_def)
    finally show ?thesis using True by (simp add: e_def max_def)
  next
    case False
    have "pow2 (binaryExponent q - 52) * pow2 52 \<le> q"
      using binaryExponent_le [of q] assms by (simp add: pow2_add [symmetric])
    then show ?thesis using False by (simp add: e_def pow2_def max_def field_simps)
  qed
  moreover have "\<bar>of_int (roundHalfEven (q / pow2 e)) * pow2 e - q\<bar> \<le> pow2 e / 2"
  proof -
    have "\<bar>of_int (roundHalfEven (q / pow2 e)) - q / pow2 e\<bar> * pow2 e \<le> 1 / 2 * pow2 e"
      by (rule mult_right_mono [OF roundHalfEven_bounds]) (simp add: less_imp_le)
    moreover have "\<bar>of_int (roundHalfEven (q / pow2 e)) - q / pow2 e\<bar> * pow2 e =
        \<bar>(of_int (roundHalfEven (q / pow2 e)) - q / pow2 e) * pow2 e\<bar>"
      using pow2_pos [of e] by (simp only: abs_mult abs_of_pos)
    ultimately show ?thesis using pow2_pos [of e] by (simp add: left_diff_distrib)
  qed
  moreover have "roundMagnitude q = of_int (roundHalfEven (q / pow2 e)) * pow2 e"
    using assms by (simp add: roundMagnitude_def e_def Let_def)
  ultimately show ?thesis by simp
qed

lemma roundFloat_bounds:
  assumes "1 / 8 \<le> q" and "q \<le> 2 ^ 64"
  shows "\<exists>m. roundFloat q = Finite m \<and> q / 2 \<le> m \<and> m \<le> 11 / 10 * q"
proof -
  define m where "m = roundMagnitude q"
  have "\<bar>m - q\<bar> \<le> q / 2 ^ 53" unfolding m_def using assms(1) by (rule roundMagnitude_error)
  then have "\<bar>m - q\<bar> \<le> q / 9007199254740992" by simp
  then have m: "q / 2 \<le> m" "m \<le> 11 / 10 * q" using assms(1) by linarith+
  then have "m < pow2 65" using assms(2) by (simp add: pow2_def)
  also have "\<dots> \<le> pow2 1024" by (rule pow2_mono) simp
  finally have "roundFloat q = Finite m" using assms(1) by (simp add: roundFloat_def Let_def m_def)
  then show ?thesis using m by blast
qed

end
