(* ===== verification/Reach_Interval.thy ===== *)
theory Reach_Interval
  imports Go_Float External_Api
begin

text \<open>
  The reachability intervals of \<open>reachabilitymanager/interval.go\<close>: 64-bit intervals that are
  inclusive at both ends, with the wrap-around of \<open>uint64\<close>, and the three ways to split one.
  The floating point fractions are computed as the code does. The lemmas show that every
  split tiles the interval with parts of at least the requested sizes, whatever the rounding
  does.
\<close>

record ReachabilityInterval =
  Start :: u64
  End :: u64

datatype reach_error =
    ErrNotFound
  | NilInterval
  | NilHash
  | IndexOutOfRange
  | FractionOutOfRange
  | EmptyIntervalSplit
  | SizesSumMismatch
  | SizesSumTooLarge
  | AncestorEqualsDescendant
  | NotAnAncestor
  | NotAPivot
  | MissingTreeParent
  | RootOutOfCapacity
  | ChosenChildBlueScore

section \<open>Operations\<close>

definition newReachabilityInterval :: "u64 \<Rightarrow> u64 \<Rightarrow> ReachabilityInterval" where
  "newReachabilityInterval start end' = \<lparr>Start = start, End = end'\<rparr>"

definition intervalSize :: "ReachabilityInterval \<Rightarrow> u64" where
  "intervalSize ri = End ri - Start ri + 1"

definition intervalIncrease :: "ReachabilityInterval \<Rightarrow> u64 \<Rightarrow> ReachabilityInterval" where
  "intervalIncrease ri offset = \<lparr>Start = Start ri + offset, End = End ri + offset\<rparr>"

definition intervalDecrease :: "ReachabilityInterval \<Rightarrow> u64 \<Rightarrow> ReachabilityInterval" where
  "intervalDecrease ri offset = \<lparr>Start = Start ri - offset, End = End ri - offset\<rparr>"

definition intervalIncreaseStart :: "ReachabilityInterval \<Rightarrow> u64 \<Rightarrow> ReachabilityInterval" where
  "intervalIncreaseStart ri offset = \<lparr>Start = Start ri + offset, End = End ri\<rparr>"

definition intervalDecreaseStart :: "ReachabilityInterval \<Rightarrow> u64 \<Rightarrow> ReachabilityInterval" where
  "intervalDecreaseStart ri offset = \<lparr>Start = Start ri - offset, End = End ri\<rparr>"

definition intervalIncreaseEnd :: "ReachabilityInterval \<Rightarrow> u64 \<Rightarrow> ReachabilityInterval" where
  "intervalIncreaseEnd ri offset = \<lparr>Start = Start ri, End = End ri + offset\<rparr>"

definition intervalDecreaseEnd :: "ReachabilityInterval \<Rightarrow> u64 \<Rightarrow> ReachabilityInterval" where
  "intervalDecreaseEnd ri offset = \<lparr>Start = Start ri, End = End ri - offset\<rparr>"

definition intervalSplitFraction ::
    "(float64 \<Rightarrow> u64) \<Rightarrow> ReachabilityInterval \<Rightarrow> float64 \<Rightarrow> reach_error + ReachabilityInterval \<times> ReachabilityInterval" where
  "intervalSplitFraction outOfRange ri fraction =
     (if fless fraction (Finite 0) \<or> fless (Finite 1) fraction then Inl FractionOutOfRange
      else if intervalSize ri = 0 then Inl EmptyIntervalSplit
      else let allocationSize =
                 uint64OfFloat64 outOfRange (mathCeil (fmul (float64OfUint64 (intervalSize ri)) fraction))
           in Inr (newReachabilityInterval (Start ri) (Start ri + allocationSize - 1),
                   newReachabilityInterval (Start ri + allocationSize) (End ri)))"

definition intervalSplitInHalf ::
    "(float64 \<Rightarrow> u64) \<Rightarrow> ReachabilityInterval \<Rightarrow> reach_error + ReachabilityInterval \<times> ReachabilityInterval" where
  "intervalSplitInHalf outOfRange ri = intervalSplitFraction outOfRange ri (Finite (1 / 2))"

fun sizedIntervals :: "u64 \<Rightarrow> u64 list \<Rightarrow> ReachabilityInterval list" where
  "sizedIntervals start [] = []"
| "sizedIntervals start (sz # sizes) =
     newReachabilityInterval start (start + sz - 1) # sizedIntervals (start + sz) sizes"

definition intervalSplitExact ::
    "ReachabilityInterval \<Rightarrow> u64 list \<Rightarrow> reach_error + ReachabilityInterval list" where
  "intervalSplitExact ri sizes =
     (let sizesSum = foldl (+) 0 sizes
      in if sizesSum \<noteq> intervalSize ri then Inl SizesSumMismatch
         else Inr (sizedIntervals (Start ri) sizes))"

definition exponentialFractions :: "u64 list \<Rightarrow> float64 list" where
  "exponentialFractions sizes =
     (let maxSize = foldl (\<lambda>m sz. if sz > m then sz else m) 0 sizes;
          fractions = List.map (\<lambda>sz. fdiv (Finite 1) (mathPow2 (float64OfUint64 (maxSize - sz)))) sizes;
          fractionsSum = foldl fadd (Finite 0) fractions
      in List.map (\<lambda>fraction. fdiv fraction fractionsSum) fractions)"

fun biasSizes :: "(float64 \<Rightarrow> u64) \<Rightarrow> u64 \<Rightarrow> u64 \<Rightarrow> (float64 \<times> u64) list \<Rightarrow> u64 list" where
  "biasSizes outOfRange totalBias remainingBias [] = []"
| "biasSizes outOfRange totalBias remainingBias ((fraction, sz) # rest) =
     (let bias = (if rest = [] then remainingBias
                  else min (uint64OfFloat64 outOfRange (mathRound (fmul (float64OfUint64 totalBias) fraction)))
                         remainingBias)
      in (sz + bias) # biasSizes outOfRange totalBias (remainingBias - bias) rest)"

definition intervalSplitWithExponentialBias ::
    "(float64 \<Rightarrow> u64) \<Rightarrow> ReachabilityInterval \<Rightarrow> u64 list \<Rightarrow> reach_error + ReachabilityInterval list" where
  "intervalSplitWithExponentialBias outOfRange ri sizes =
     (let sizesSum = foldl (+) 0 sizes
      in if sizesSum > intervalSize ri then Inl SizesSumTooLarge
         else if sizesSum = intervalSize ri then intervalSplitExact ri sizes
         else let totalBias = intervalSize ri - sizesSum;
                  biasedSizes = biasSizes outOfRange totalBias totalBias (zip (exponentialFractions sizes) sizes)
              in intervalSplitExact ri biasedSizes)"

definition intervalContains :: "ReachabilityInterval \<Rightarrow> ReachabilityInterval \<Rightarrow> bool" where
  "intervalContains ri other \<longleftrightarrow> Start ri \<le> Start other \<and> End other \<le> End ri"

section \<open>Intervals as numbers\<close>

text \<open>
  The numbers an interval covers are \<open>ilo r, ..., ihi r - 1\<close>. In a regular interval the lower
  end is positive and the upper end can be increased by one, so that an empty interval can be
  told from the full one; \<open>newReachabilityTreeData\<close> starts with such an interval.
\<close>

definition ilo :: "ReachabilityInterval \<Rightarrow> nat" where
  "ilo r = unat (Start r)"

definition ihi :: "ReachabilityInterval \<Rightarrow> nat" where
  "ihi r = unat (End r) + 1"

definition regular :: "ReachabilityInterval \<Rightarrow> bool" where
  "regular r \<longleftrightarrow> 0 < ilo r \<and> ilo r \<le> ihi r \<and> ihi r < 2 ^ 64"

definition ilen :: "ReachabilityInterval \<Rightarrow> nat" where
  "ilen r = ihi r - ilo r"

named_theorems interval_simps \<open>definitions of the interval operations\<close>

lemmas interval_defs [interval_simps] =
  newReachabilityInterval_def intervalIncrease_def intervalDecrease_def intervalIncreaseStart_def
  intervalDecreaseStart_def intervalIncreaseEnd_def intervalDecreaseEnd_def

lemma u64_less: "unat (w :: u64) < 2 ^ 64"
  using unsigned_less [of w] by simp

lemma uint_u64_less: "uint (w :: u64) < 2 ^ 64"
  using uint_bounded [of w] by simp

lemma unat_u64_add: "unat (a :: u64) + unat b < 2 ^ 64 \<Longrightarrow> unat (a + b) = unat a + unat b"
  by (simp add: unat_word_ariths)

lemma unat_u64_diff: "unat (b :: u64) \<le> unat a \<Longrightarrow> unat (a - b) = unat a - unat b"
  by (simp add: unat_sub word_le_nat_alt)

lemma unat_word_of_int_u64: "0 \<le> i \<Longrightarrow> i < 2 ^ 64 \<Longrightarrow> unat (word_of_int i :: u64) = nat i"
  by (simp add: unat_eq_nat_uint uint_word_of_int_eq take_bit_int_eq_self del: nat_uint_eq)

lemma unat_intervalSize:
  assumes "regular r"
  shows "unat (intervalSize r) = ilen r"
proof -
  have r: "unat (End r) + 1 < 2 ^ 64" "unat (Start r) \<le> unat (End r) + 1" "0 < unat (Start r)"
    using assms by (auto simp: regular_def ilo_def ihi_def)
  have "intervalSize r = End r + 1 - Start r" by (simp add: intervalSize_def)
  moreover have "unat (End r + 1) = unat (End r) + 1" using r(1) by (simp add: unat_u64_add)
  ultimately show ?thesis using r(2) by (simp add: unat_u64_diff ilen_def ilo_def ihi_def)
qed

lemma intervalSize_zero_iff: "regular r \<Longrightarrow> intervalSize r = 0 \<longleftrightarrow> ilo r = ihi r"
  using unat_intervalSize [of r] by (auto simp: ilen_def regular_def unat_eq_0 [symmetric])

lemma intervalContains_iff: "intervalContains r q \<longleftrightarrow> ilo r \<le> ilo q \<and> ihi q \<le> ihi r"
  by (simp add: intervalContains_def ilo_def ihi_def word_le_nat_alt)

lemma newReachabilityInterval_ends [simp]:
  "Start (newReachabilityInterval a b) = a" "End (newReachabilityInterval a b) = b"
  by (simp_all add: newReachabilityInterval_def)

section \<open>Tilings\<close>

fun tiles :: "nat \<Rightarrow> ReachabilityInterval list \<Rightarrow> nat \<Rightarrow> bool" where
  "tiles a [] b \<longleftrightarrow> a = b"
| "tiles a (r # rs) b \<longleftrightarrow> ilo r = a \<and> a \<le> ihi r \<and> tiles (ihi r) rs b"

lemma tiles_le: "tiles a rs b \<Longrightarrow> a \<le> b"
  by (induction rs arbitrary: a) (auto intro: le_trans)

lemma unat_foldl_plus:
  "unat a + (\<Sum>s\<leftarrow>sizes. unat s) < 2 ^ 64 \<Longrightarrow> unat (foldl (+) (a :: u64) sizes) = unat a + (\<Sum>s\<leftarrow>sizes. unat s)"
  by (induction sizes arbitrary: a) (auto simp: unat_u64_add add.assoc)

lemma foldl_plus_Cons: "foldl (+) (a :: u64) xs = a + foldl (+) 0 xs"
  by (induction xs arbitrary: a) (simp, metis (no_types) foldl_Cons add.assoc add_0)

lemma sizedInterval:
  assumes "0 < unat a" and "unat a + unat s < 2 ^ 64"
  shows "ilo (newReachabilityInterval a (a + s - 1)) = unat a"
    and "ihi (newReachabilityInterval a (a + s - 1)) = unat a + unat s"
proof -
  have "unat (a + s) = unat a + unat s" using assms(2) by (rule unat_u64_add)
  then have "unat (a + s - 1) = unat a + unat s - 1" using assms(1) by (subst unat_u64_diff) simp_all
  then show "ilo (newReachabilityInterval a (a + s - 1)) = unat a"
    and "ihi (newReachabilityInterval a (a + s - 1)) = unat a + unat s"
    using assms(1) by (simp_all add: ilo_def ihi_def)
qed

lemma length_sizedIntervals [simp]: "length (sizedIntervals a sizes) = length sizes"
  by (induction sizes arbitrary: a) auto

lemma sizedIntervals_tile:
  assumes "0 < unat a" and "unat a + (\<Sum>s\<leftarrow>sizes. unat s) < 2 ^ 64"
  shows "tiles (unat a) (sizedIntervals a sizes) (unat a + (\<Sum>s\<leftarrow>sizes. unat s))
    \<and> list_all2 (\<lambda>s r. ilen r = unat s) sizes (sizedIntervals a sizes)"
  using assms
proof (induction sizes arbitrary: a)
  case (Cons s sizes)
  then have "unat a + unat s < 2 ^ 64" and u: "unat (a + s) = unat a + unat s" by (auto intro: unat_u64_add)
  moreover have "tiles (unat (a + s)) (sizedIntervals (a + s) sizes) (unat (a + s) + (\<Sum>s\<leftarrow>sizes. unat s))
    \<and> list_all2 (\<lambda>s r. ilen r = unat s) sizes (sizedIntervals (a + s) sizes)"
    using Cons.prems u by (intro Cons.IH) auto
  ultimately show ?case using sizedInterval [of a s] Cons.prems(1) by (simp add: u add.assoc ilen_def)
qed simp

lemma intervalSplitExact_tiles:
  assumes "regular r" and "(\<Sum>s\<leftarrow>sizes. unat s) = ilen r"
  shows "\<exists>rs. intervalSplitExact r sizes = Inr rs \<and> tiles (ilo r) rs (ihi r)
    \<and> list_all2 (\<lambda>s q. ilen q = unat s) sizes rs"
proof -
  have b: "ilo r + (\<Sum>s\<leftarrow>sizes. unat s) = ihi r" "ihi r < 2 ^ 64" "0 < ilo r"
    using assms by (auto simp: regular_def ilen_def)
  then have "unat (foldl (+) 0 sizes) = unat (intervalSize r)"
    using unat_foldl_plus [of 0 sizes] assms by (simp add: unat_intervalSize)
  then have "foldl (+) 0 sizes = intervalSize r" by (simp add: unat_arith_simps(3))
  then show ?thesis
    using sizedIntervals_tile [of "Start r" sizes] b by (simp add: intervalSplitExact_def ilo_def)
qed

lemma biasSizes_sum:
  assumes "fs \<noteq> []" and "(\<Sum>s\<leftarrow>List.map snd fs. unat s) + unat remaining < 2 ^ 64"
  shows "(\<Sum>s\<leftarrow>biasSizes f tot remaining fs. unat s) = (\<Sum>s\<leftarrow>List.map snd fs. unat s) + unat remaining
    \<and> list_all2 (\<lambda>s b. unat s \<le> unat b) (List.map snd fs) (biasSizes f tot remaining fs)"
  using assms
proof (induction f tot remaining fs rule: biasSizes.induct)
  case (2 f tot remaining x sz rest)
  define bias where "bias = (if rest = [] then remaining
    else min (uint64OfFloat64 f (mathRound (fmul (float64OfUint64 tot) x))) remaining)"
  have le: "unat bias \<le> unat remaining" by (simp add: bias_def word_le_nat_alt [symmetric])
  then have r: "unat (remaining - bias) = unat remaining - unat bias" by (rule unat_u64_diff)
  have s: "unat (sz + bias) = unat sz + unat bias" using le 2(3) by (intro unat_u64_add) simp
  have eq: "biasSizes f tot remaining ((x, sz) # rest) =
      (sz + bias) # biasSizes f tot (remaining - bias) rest"
    by (simp add: bias_def Let_def)
  show ?case
  proof (cases "rest = []")
    case True
    then have "bias = remaining" by (simp add: bias_def)
    then show ?thesis using s True unfolding eq by simp
  next
    case False
    have "(\<Sum>s\<leftarrow>biasSizes f tot (remaining - bias) rest. unat s) =
        (\<Sum>s\<leftarrow>List.map snd rest. unat s) + unat (remaining - bias)
      \<and> list_all2 (\<lambda>s b. unat s \<le> unat b) (List.map snd rest) (biasSizes f tot (remaining - bias) rest)"
      using 2(1) [OF bias_def False] 2(3) r by simp
    then show ?thesis unfolding eq using r s le by simp
  qed
qed simp

lemma length_exponentialFractions [simp]: "length (exponentialFractions sizes) = length sizes"
  by (simp add: exponentialFractions_def Let_def)

lemma split_tiles:
  assumes "regular r" and "sizes \<noteq> []" and "(\<Sum>s\<leftarrow>sizes. unat s) \<le> ilen r"
  shows "\<exists>rs. intervalSplitWithExponentialBias f r sizes = Inr rs \<and> tiles (ilo r) rs (ihi r)
    \<and> list_all2 (\<lambda>s q. unat s \<le> ilen q) sizes rs"
proof -
  let ?sum = "\<Sum>s\<leftarrow>sizes. unat s"
  have lt: "ilen r < 2 ^ 64" using assms(1) by (auto simp: regular_def ilen_def)
  have sum: "unat (foldl (+) 0 sizes) = ?sum" using unat_foldl_plus [of 0 sizes] assms(3) lt by simp
  have sz: "unat (intervalSize r) = ilen r" using assms(1) by (rule unat_intervalSize)
  have nle: "\<not> foldl (+) 0 sizes > intervalSize r" using assms(3) sum sz by (simp add: word_less_nat_alt)
  show ?thesis
  proof (cases "foldl (+) 0 sizes = intervalSize r")
    case True
    then have "?sum = ilen r" using sum sz by simp
    then show ?thesis
      using intervalSplitExact_tiles [OF assms(1), of sizes] True nle
      by (auto simp: intervalSplitWithExponentialBias_def Let_def elim!: list_all2_mono)
  next
    case False
    define tot where "tot = intervalSize r - foldl (+) 0 sizes"
    define fs where "fs = zip (exponentialFractions sizes) sizes"
    have snd: "List.map snd fs = sizes" by (simp add: fs_def)
    have "length fs = length sizes" by (simp add: fs_def)
    then have ne: "fs \<noteq> []" using assms(2) by auto
    have t: "unat tot = ilen r - ?sum" using assms(3) sum sz by (simp add: tot_def unat_u64_diff)
    then have "(\<Sum>s\<leftarrow>biasSizes f tot tot fs. unat s) = ilen r
        \<and> list_all2 (\<lambda>s b. unat s \<le> unat b) sizes (biasSizes f tot tot fs)"
      using biasSizes_sum [OF ne, of tot f tot] assms(3) lt unfolding snd by simp
    moreover have "intervalSplitWithExponentialBias f r sizes = intervalSplitExact r (biasSizes f tot tot fs)"
      using False nle by (simp add: intervalSplitWithExponentialBias_def Let_def tot_def fs_def)
    ultimately show ?thesis
      using intervalSplitExact_tiles [OF assms(1), of "biasSizes f tot tot fs"]
        list_all2_trans [of "\<lambda>s b. unat s \<le> unat b" "\<lambda>s q. ilen q = unat s" "\<lambda>s q. unat s \<le> ilen q"
          sizes "biasSizes f tot tot fs"]
      by fastforce
  qed
qed

lemma split_too_large:
  assumes "regular r" and "ilen r < (\<Sum>s\<leftarrow>sizes. unat s)" and "(\<Sum>s\<leftarrow>sizes. unat s) < 2 ^ 64"
  shows "intervalSplitWithExponentialBias f r sizes = Inl SizesSumTooLarge"
  using assms unat_foldl_plus [of 0 sizes] unat_intervalSize [of r]
  by (simp add: intervalSplitWithExponentialBias_def word_less_nat_alt)

section \<open>Halves\<close>

lemma half_allocation:
  assumes "(w :: u64) \<noteq> 0" and a: "a = uint64OfFloat64 f (mathCeil (fmul (float64OfUint64 w) (Finite (1 / 2))))"
  shows "0 < unat a \<and> unat a \<le> unat w"
proof -
  define n :: rat where "n = of_nat (unat w)"
  have "0 < unat w" using assms(1) by (simp add: unat_gt_0)
  moreover have "n < of_nat (2 ^ 64)" unfolding n_def of_nat_less_iff by (rule u64_less)
  ultimately have n: "1 \<le> n" "n < 2 ^ 64" unfolding n_def by (simp_all del: of_nat_unat)
  then obtain m where m: "float64OfUint64 w = Finite m" "n / 2 \<le> m" "m \<le> 11 / 10 * n"
    using roundFloat_bounds [of n] by (auto simp: float64OfUint64_def n_def simp del: of_nat_unat)
  have "1 / 8 \<le> m / 2" "m / 2 \<le> 2 ^ 64" using m n by linarith+
  then obtain h where h: "roundFloat (m / 2) = Finite h" "m / 4 \<le> h" "h \<le> 11 / 20 * m"
    using roundFloat_bounds [of "m / 2"] by auto
  have "h \<le> n" "0 < h" using h m n by linarith+
  then have c: "0 < \<lceil>h\<rceil>" "\<lceil>h\<rceil> \<le> int (unat w)"
    unfolding n_def by (simp_all add: ceiling_le_iff del: of_nat_unat)
  then have c': "\<lceil>h\<rceil> < 2 ^ 64" using uint_u64_less [of w] unfolding of_nat_unat by linarith
  then have "(of_int \<lceil>h\<rceil> :: rat) < of_int (2 ^ 64)" by (simp only: of_int_less_iff)
  then have "a = word_of_int \<lceil>h\<rceil>" using c(1) m(1) h(1) unfolding a by simp
  then have "unat a = nat \<lceil>h\<rceil>" using c(1) c' by (simp add: unat_word_of_int_u64)
  then show ?thesis using c by linarith
qed

lemma intervalSplitInHalf_left:
  assumes "regular r" and "ilo r < ihi r"
  shows "\<exists>l q. intervalSplitInHalf f r = Inr (l, q) \<and> ilo l = ilo r \<and> ilo l < ihi l \<and> ihi l \<le> ihi r"
proof -
  have s: "intervalSize r \<noteq> 0" using assms by (simp add: intervalSize_zero_iff)
  define a where "a = uint64OfFloat64 f (mathCeil (fmul (float64OfUint64 (intervalSize r)) (Finite (1 / 2))))"
  have a: "0 < unat a" "unat a \<le> ilen r"
    using half_allocation [OF s a_def] unat_intervalSize [OF assms(1)] by auto
  have "intervalSplitInHalf f r = Inr (newReachabilityInterval (Start r) (Start r + a - 1),
      newReachabilityInterval (Start r + a) (End r))"
    using s by (simp add: intervalSplitInHalf_def intervalSplitFraction_def a_def Let_def)
  moreover have "unat (Start r) + unat a < 2 ^ 64" "0 < unat (Start r)"
    using a assms(1) by (auto simp: regular_def ilen_def ilo_def)
  ultimately show ?thesis
    using sizedInterval [of "Start r" a] a assms by (auto simp: ilo_def ilen_def)
qed

section \<open>Correctness of splitting\<close>

text \<open>C26. Splitting a regular interval with exponential bias by at least one size, the sizes adding up
  to less than 2^64, succeeds exactly when the sizes fit, whatever the floating point conversion does out of range; the parts then
  tile the interval from its start to its end and each part is at least as large as its size.
  Splitting a regular interval that is not empty in half gives a left part that starts with
  the interval, is not empty and stays inside it.\<close>

theorem interval_splits:
  assumes "regular r" and "sizes \<noteq> []" and "(\<Sum>s\<leftarrow>sizes. unat s) < 2 ^ 64"
  shows "(if (\<Sum>s\<leftarrow>sizes. unat s) \<le> ilen r
      then \<exists>rs. intervalSplitWithExponentialBias f r sizes = Inr rs \<and> tiles (ilo r) rs (ihi r)
             \<and> list_all2 (\<lambda>s q. unat s \<le> ilen q) sizes rs
      else intervalSplitWithExponentialBias f r sizes = Inl SizesSumTooLarge)
    \<and> (intervalSize r \<noteq> 0 \<longrightarrow>
      (\<exists>l q. intervalSplitInHalf f r = Inr (l, q) \<and> ilo l = ilo r \<and> ilo l < ihi l \<and> ihi l \<le> ihi r))"
  using split_tiles [OF assms(1,2)] split_too_large [OF assms(1) _ assms(3)] intervalSplitInHalf_left [OF assms(1)]
    assms(1) intervalSize_zero_iff [OF assms(1)]
  by (auto simp: not_le regular_def)

theorem interval_splits_witness:
  "(\<exists>rs. intervalSplitWithExponentialBias (\<lambda>_. 0) (newReachabilityInterval 1 10) [2, 3] = Inr rs \<and> tiles 1 rs 11
      \<and> list_all2 (\<lambda>s q. unat s \<le> ilen q) [2, 3 :: u64] rs)
   \<and> intervalSplitWithExponentialBias (\<lambda>_. 0) (newReachabilityInterval 1 10) [20] = Inl SizesSumTooLarge
   \<and> (\<exists>l q. intervalSplitInHalf (\<lambda>_. 0) (newReachabilityInterval 1 10) = Inr (l, q)
        \<and> ilo l = 1 \<and> ilo l < ihi l \<and> ihi l \<le> 11)"
proof -
  let ?r = "newReachabilityInterval 1 10"
  have r: "regular ?r" "ilo ?r = 1" "ihi ?r = 11" "ilen ?r = 10"
    by (simp_all add: regular_def ilo_def ihi_def ilen_def)
  have s: "intervalSize ?r \<noteq> 0" by (simp add: intervalSize_def)
  show ?thesis
    using interval_splits [OF r(1), of "[2, 3]" "\<lambda>_. 0"] interval_splits [OF r(1), of "[20]" "\<lambda>_. 0"] s
    unfolding r by simp
qed

end
