(* ===== verification/Ghostdag_Data.thy ===== *)
theory Ghostdag_Data
  imports External_Api
begin

text \<open>
  The GHOSTDAG data of a block (\<open>externalapi/ghostdag.go\<close>), the marker hashes of
  \<open>model/virtual.go\<close> and the view of \<open>ghostdagDataStore\<close> the managers have: a map
  from a block hash and the flag \<open>isTrustedData\<close> to the data.
\<close>

type_synonym KType = byte

record BlockGHOSTDAGData =
  blueScore :: u64
  blueWork :: nat
  selectedParent :: "DomainHash option"
  mergeSetBlues :: "DomainHash list"
  mergeSetReds :: "DomainHash list"
  bluesAnticoneSizes :: "DomainHash \<rightharpoonup> KType"

type_synonym ghostdagDataStore = "DomainHash \<times> bool \<rightharpoonup> BlockGHOSTDAGData"

definition VirtualBlockHash :: DomainHash where
  "VirtualBlockHash = replicate 32 0xff"

definition VirtualGenesisBlockHash :: DomainHash where
  "VirtualGenesisBlockHash = replicate 32 0xfe"

end
