(* ===== verification/Go_Loop.thy ===== *)
theory Go_Loop
  imports Eiyaro_Prelude
begin

text \<open>
  Loops that may run forever. Such a loop is a partial function into \<open>('e + 'a) option\<close>:
  \<^term>\<open>None\<close> says that the loop does not end, \<^term>\<open>Some (Inl e)\<close> that it returns an error and
  \<^term>\<open>Some (Inr x)\<close> that it returns a value. \<open>pbind\<close> sequences such computations and
  \<open>ret\<close> embeds code that always returns.
\<close>

definition pbind :: "('e + 'a) option \<Rightarrow> ('a \<Rightarrow> ('e + 'b) option) \<Rightarrow> ('e + 'b) option" where
  "pbind m f = (case m of None \<Rightarrow> None | Some (Inl e) \<Rightarrow> Some (Inl e) | Some (Inr x) \<Rightarrow> f x)"

definition ret :: "'e + 'a \<Rightarrow> ('e + 'a) option" where
  "ret m = Some m"

named_theorems loop_simps \<open>rewrite rules of loops that may run forever\<close>

lemma pbind_simps [simp, loop_simps]:
  "pbind None f = None"
  "pbind (Some (Inl e)) f = Some (Inl e)"
  "pbind (Some (Inr x)) f = f x"
  by (simp_all add: pbind_def)

lemma pbind_ret [simp, loop_simps]:
  "pbind (ret (Inl e)) f = Some (Inl e)"
  "pbind (ret (Inr x)) f = f x"
  by (simp_all add: ret_def)

lemma pbind_ret_rbind: "pbind (ret (rbind m f)) g = pbind (ret m) (\<lambda>x. pbind (ret (f x)) g)"
  by (cases m) simp_all

lemma pbind_eq_Some_Inr_iff [loop_simps]:
  "pbind m f = Some (Inr y) \<longleftrightarrow> (\<exists>x. m = Some (Inr x) \<and> f x = Some (Inr y))"
  by (auto simp: pbind_def split: option.splits sum.splits)

lemma pbind_assoc: "pbind (pbind m f) g = pbind m (\<lambda>x. pbind (f x) g)"
  by (auto simp: pbind_def split: option.splits sum.splits)

lemma pbind_cong [fundef_cong]:
  "m = m' \<Longrightarrow> (\<And>x. m' = Some (Inr x) \<Longrightarrow> f x = f' x) \<Longrightarrow> pbind m f = pbind m' f'"
  by (auto simp: pbind_def split: option.splits sum.splits)

lemma pbind_option_bind:
  "pbind m f = Option.bind m (\<lambda>r. case r of Inl e \<Rightarrow> Some (Inl e) | Inr x \<Rightarrow> f x)"
  by (auto simp: pbind_def split: option.splits sum.splits)

lemma pbind_mono [partial_function_mono]:
  assumes "mono_option B" and "\<And>y. mono_option (\<lambda>f. C y f)"
  shows "mono_option (\<lambda>f. pbind (B f) (\<lambda>y. C y f))"
  unfolding pbind_option_bind
proof (rule bind_mono [OF assms(1)])
  fix r
  show "mono_option (\<lambda>f. case r of Inl e \<Rightarrow> Some (Inl e) | Inr x \<Rightarrow> C x f)"
    by (cases r) (simp_all add: assms(2) option.const_mono)
qed

end
