(* ===== verification/Reach_Tree.thy ===== *)
theory Reach_Tree
  imports Reach_Interval Ghostdag_Data Go_Loop
begin

text \<open>
  The reachability tree of \<open>reachabilitymanager\<close>: the data kept for a block, the accessors of
  \<open>fetch.go\<close> and \<open>stage.go\<close>, the queries of \<open>tree.go\<close>, the binary search of
  \<open>ordered_tree_node_set.go\<close> and the future covering sets. The store is the view that the
  staging area, the cache and the database give together: a map from hashes to data and the
  reindex root. An operation that fails returns no store, since the caller then drops its
  staging area.
\<close>

record ReachabilityData =
  Children :: "DomainHash list"
  Parent :: "DomainHash option"
  Interval :: "ReachabilityInterval option"
  FutureCoveringSet :: "DomainHash list"

record reachStore =
  reachabilityData :: "DomainHash \<rightharpoonup> ReachabilityData"
  reachabilityReindexRoot :: "DomainHash option"

record reachabilityManager =
  reindexSlack :: u64
  reindexWindow :: u64
  floatOutOfRange :: "float64 \<Rightarrow> u64"
  ghostdagStore :: ghostdagDataStore

section \<open>Data\<close>

definition EmptyReachabilityData :: ReachabilityData where
  "EmptyReachabilityData = \<lparr>Children = [], Parent = None, Interval = None, FutureCoveringSet = []\<rparr>"

definition AddChild :: "DomainHash \<Rightarrow> ReachabilityData \<Rightarrow> ReachabilityData" where
  "AddChild child rd = rd\<lparr>Children := Children rd @ [child]\<rparr>"

definition SetParent :: "DomainHash \<Rightarrow> ReachabilityData \<Rightarrow> ReachabilityData" where
  "SetParent p rd = rd\<lparr>Parent := Some p\<rparr>"

definition SetInterval :: "ReachabilityInterval \<Rightarrow> ReachabilityData \<Rightarrow> ReachabilityData" where
  "SetInterval ri rd = rd\<lparr>Interval := Some ri\<rparr>"

definition SetFutureCoveringSet :: "DomainHash list \<Rightarrow> ReachabilityData \<Rightarrow> ReachabilityData" where
  "SetFutureCoveringSet fcs rd = rd\<lparr>FutureCoveringSet := fcs\<rparr>"

text \<open>\<open>CloneMutable\<close> dereferences the interval.\<close>

definition CloneMutable :: "ReachabilityData \<Rightarrow> reach_error + ReachabilityData" where
  "CloneMutable rd = (if Interval rd = None then Inl NilInterval else Inr rd)"

definition nonNil :: "reach_error \<Rightarrow> 'a option \<Rightarrow> reach_error + 'a" where
  "nonNil e p = (case p of None \<Rightarrow> Inl e | Some x \<Rightarrow> Inr x)"

section \<open>Fetching and staging\<close>

definition fetchData :: "reachStore \<Rightarrow> DomainHash \<Rightarrow> reach_error + ReachabilityData" where
  "fetchData s h = (case reachabilityData s h of None \<Rightarrow> Inl ErrNotFound | Some d \<Rightarrow> Inr d)"

definition reachabilityDataForInsertion :: "reachStore \<Rightarrow> DomainHash \<Rightarrow> reach_error + ReachabilityData" where
  "reachabilityDataForInsertion s h =
     (case reachabilityData s h of Some d \<Rightarrow> CloneMutable d | None \<Rightarrow> Inr EmptyReachabilityData)"

definition futureCoveringSet :: "reachStore \<Rightarrow> DomainHash \<Rightarrow> reach_error + DomainHash list" where
  "futureCoveringSet s h = rbind (fetchData s h) (\<lambda>d. Inr (FutureCoveringSet d))"

definition interval :: "reachStore \<Rightarrow> DomainHash \<Rightarrow> reach_error + ReachabilityInterval option" where
  "interval s h = rbind (fetchData s h) (\<lambda>d. Inr (Interval d))"

definition children :: "reachStore \<Rightarrow> DomainHash \<Rightarrow> reach_error + DomainHash list" where
  "children s h = rbind (fetchData s h) (\<lambda>d. Inr (Children d))"

definition parent :: "reachStore \<Rightarrow> DomainHash \<Rightarrow> reach_error + DomainHash option" where
  "parent s h = rbind (fetchData s h) (\<lambda>d. Inr (Parent d))"

definition reindexRoot :: "reachStore \<Rightarrow> reach_error + DomainHash" where
  "reindexRoot s = nonNil ErrNotFound (reachabilityReindexRoot s)"

definition stageData :: "reachStore \<Rightarrow> DomainHash \<Rightarrow> ReachabilityData \<Rightarrow> reachStore" where
  "stageData s h d = s\<lparr>reachabilityData := (reachabilityData s)(h \<mapsto> d)\<rparr>"

definition stageReindexRoot :: "reachStore \<Rightarrow> DomainHash \<Rightarrow> reachStore" where
  "stageReindexRoot s h = s\<lparr>reachabilityReindexRoot := Some h\<rparr>"

definition stageFutureCoveringSet :: "reachStore \<Rightarrow> DomainHash \<Rightarrow> DomainHash list \<Rightarrow> reach_error + reachStore" where
  "stageFutureCoveringSet s h fcs =
     rbind (reachabilityDataForInsertion s h) (\<lambda>d. Inr (stageData s h (SetFutureCoveringSet fcs d)))"

definition stageAddChild :: "reachStore \<Rightarrow> DomainHash \<Rightarrow> DomainHash \<Rightarrow> reach_error + reachStore" where
  "stageAddChild s node child =
     rbind (reachabilityDataForInsertion s node) (\<lambda>d. Inr (stageData s node (AddChild child d)))"

definition stageParent :: "reachStore \<Rightarrow> DomainHash \<Rightarrow> DomainHash \<Rightarrow> reach_error + reachStore" where
  "stageParent s node p =
     rbind (reachabilityDataForInsertion s node) (\<lambda>d. Inr (stageData s node (SetParent p d)))"

definition stageInterval :: "reachStore \<Rightarrow> DomainHash \<Rightarrow> ReachabilityInterval \<Rightarrow> reach_error + reachStore" where
  "stageInterval s node ri =
     rbind (reachabilityDataForInsertion s node) (\<lambda>d. Inr (stageData s node (SetInterval ri d)))"

section \<open>Interval helpers\<close>

definition newReachabilityTreeData :: ReachabilityData where
  "newReachabilityTreeData = SetInterval (newReachabilityInterval 1 (0xFFFFFFFFFFFFFFFF - 1)) EmptyReachabilityData"

definition fetchInterval :: "reachStore \<Rightarrow> DomainHash \<Rightarrow> reach_error + ReachabilityInterval" where
  "fetchInterval s h = rbind (interval s h) (nonNil NilInterval)"

definition intervalRangeForChildAllocation :: "reachStore \<Rightarrow> DomainHash \<Rightarrow> reach_error + ReachabilityInterval" where
  "intervalRangeForChildAllocation s node =
     rbind (fetchInterval s node) (\<lambda>ri. Inr (newReachabilityInterval (Start ri) (End ri - 1)))"

definition remainingIntervalBefore :: "reachStore \<Rightarrow> DomainHash \<Rightarrow> reach_error + ReachabilityInterval" where
  "remainingIntervalBefore s node =
     rbind (intervalRangeForChildAllocation s node) (\<lambda>childrenRange.
     rbind (children s node) (\<lambda>cs.
       if cs = [] then Inr childrenRange
       else rbind (fetchInterval s (hd cs)) (\<lambda>firstChildInterval.
              Inr (newReachabilityInterval (Start childrenRange) (Start firstChildInterval - 1)))))"

definition remainingIntervalAfter :: "reachStore \<Rightarrow> DomainHash \<Rightarrow> reach_error + ReachabilityInterval" where
  "remainingIntervalAfter s node =
     rbind (intervalRangeForChildAllocation s node) (\<lambda>childrenRange.
     rbind (children s node) (\<lambda>cs.
       if cs = [] then Inr childrenRange
       else rbind (fetchInterval s (last cs)) (\<lambda>lastChildInterval.
              Inr (newReachabilityInterval (End lastChildInterval + 1) (End childrenRange)))))"

definition remainingSlackBefore :: "reachStore \<Rightarrow> DomainHash \<Rightarrow> reach_error + u64" where
  "remainingSlackBefore s node = rbind (remainingIntervalBefore s node) (\<lambda>ri. Inr (intervalSize ri))"

definition remainingSlackAfter :: "reachStore \<Rightarrow> DomainHash \<Rightarrow> reach_error + u64" where
  "remainingSlackAfter s node = rbind (remainingIntervalAfter s node) (\<lambda>ri. Inr (intervalSize ri))"

section \<open>Queries\<close>

definition IsReachabilityTreeAncestorOf :: "reachStore \<Rightarrow> DomainHash \<Rightarrow> DomainHash \<Rightarrow> reach_error + bool" where
  "IsReachabilityTreeAncestorOf s node other =
     rbind (interval s node) (\<lambda>nodeInterval.
     rbind (interval s other) (\<lambda>otherInterval.
     rbind (nonNil NilInterval nodeInterval) (\<lambda>ni.
     rbind (nonNil NilInterval otherInterval) (\<lambda>oi. Inr (intervalContains ni oi)))))"

function ancestorSearch ::
    "reachStore \<Rightarrow> DomainHash list \<Rightarrow> u64 \<Rightarrow> nat \<Rightarrow> nat \<Rightarrow> reach_error + nat" where
  "ancestorSearch s tns end' low high =
     (if low < high then
        let middle = (low + high) div 2
        in rbind (fetchInterval s (tns ! middle)) (\<lambda>middleInterval.
             if end' < Start middleInterval then ancestorSearch s tns end' low middle
             else ancestorSearch s tns end' (middle + 1) high)
      else Inr low)"
  by pat_completeness auto

termination ancestorSearch
  by (relation "measure (\<lambda>(s, tns, e, low, high). high - low)") auto

declare ancestorSearch.simps [simp del]

definition findAncestorIndexOfNode :: "reachStore \<Rightarrow> DomainHash list \<Rightarrow> DomainHash \<Rightarrow> reach_error + nat option" where
  "findAncestorIndexOfNode s tns node =
     rbind (fetchInterval s node) (\<lambda>blockInterval.
     rbind (ancestorSearch s tns (End blockInterval) 0 (length tns)) (\<lambda>low.
       Inr (if low = 0 then None else Some (low - 1))))"

text \<open>An error of the search is reported as \<open>ok = false\<close> by \<open>findAncestorOfNode\<close>; a panic is not.\<close>

definition findAncestorOfNode :: "reachStore \<Rightarrow> DomainHash list \<Rightarrow> DomainHash \<Rightarrow> reach_error + DomainHash option" where
  "findAncestorOfNode s tns node =
     (case findAncestorIndexOfNode s tns node of
        Inl NilInterval \<Rightarrow> Inl NilInterval
      | Inl e \<Rightarrow> Inr None
      | Inr None \<Rightarrow> Inr None
      | Inr (Some i) \<Rightarrow> Inr (Some (tns ! i)))"

definition FindNextAncestor :: "reachStore \<Rightarrow> DomainHash \<Rightarrow> DomainHash \<Rightarrow> reach_error + DomainHash" where
  "FindNextAncestor s descendant ancestor =
     (if ancestor = descendant then Inl AncestorEqualsDescendant
      else rbind (children s ancestor) (\<lambda>childrenOfAncestor.
           rbind (findAncestorOfNode s childrenOfAncestor descendant) (nonNil NotAnAncestor)))"

definition isStrictAncestorOf :: "reachStore \<Rightarrow> DomainHash \<Rightarrow> DomainHash \<Rightarrow> reach_error + bool" where
  "isStrictAncestorOf s node other =
     (if node = other then Inr False else IsReachabilityTreeAncestorOf s node other)"

partial_function (option) findCommonAncestor ::
    "reachStore \<Rightarrow> DomainHash \<Rightarrow> DomainHash \<Rightarrow> (reach_error + DomainHash) option" where
  [code]: "findCommonAncestor s current rootHash =
     pbind (ret (IsReachabilityTreeAncestorOf s current rootHash)) (\<lambda>isAncestorOf.
       if isAncestorOf then ret (Inr current)
       else pbind (ret (parent s current)) (\<lambda>p.
            pbind (ret (nonNil NilHash p)) (\<lambda>current'. findCommonAncestor s current' rootHash)))"

fun splitAtPivot :: "DomainHash \<Rightarrow> DomainHash list \<Rightarrow> DomainHash list \<Rightarrow> reach_error + DomainHash list \<times> DomainHash list" where
  "splitAtPivot pivot acc [] = Inl NotAPivot"
| "splitAtPivot pivot acc (child # cs) =
     (if child = pivot then Inr (acc, cs) else splitAtPivot pivot (acc @ [child]) cs)"

definition splitChildren :: "reachStore \<Rightarrow> DomainHash \<Rightarrow> DomainHash \<Rightarrow> reach_error + DomainHash list \<times> DomainHash list" where
  "splitChildren s node pivot = rbind (children s node) (splitAtPivot pivot [])"

section \<open>Future covering sets\<close>

definition insertToFutureCoveringSet :: "reachStore \<Rightarrow> DomainHash \<Rightarrow> DomainHash \<Rightarrow> reach_error + reachStore" where
  "insertToFutureCoveringSet s node futureNode =
     rbind (reachabilityDataForInsertion s node) (\<lambda>rd.
     let fcs = FutureCoveringSet rd
     in rbind (findAncestorIndexOfNode s fcs futureNode) (\<lambda>found.
          case found of
            None \<Rightarrow> Inr (stageData s node (SetFutureCoveringSet (futureNode # fcs) rd))
          | Some ancestorIndex \<Rightarrow>
              let candidate = fcs ! ancestorIndex
              in rbind (IsReachabilityTreeAncestorOf s candidate futureNode) (\<lambda>candidateIsAncestor.
                 if candidateIsAncestor then Inr s
                 else rbind (IsReachabilityTreeAncestorOf s futureNode candidate) (\<lambda>futureNodeIsAncestor.
                      if futureNodeIsAncestor then stageFutureCoveringSet s node (fcs[ancestorIndex := futureNode])
                      else Inr (stageData s node (SetFutureCoveringSet
                             (take (ancestorIndex + 1) fcs @ futureNode # drop (ancestorIndex + 1) fcs) rd))))))"

definition futureCoveringSetHasAncestorOf :: "reachStore \<Rightarrow> DomainHash \<Rightarrow> DomainHash \<Rightarrow> reach_error + bool" where
  "futureCoveringSetHasAncestorOf s this other =
     rbind (futureCoveringSet s this) (\<lambda>fcs.
     rbind (findAncestorIndexOfNode s fcs other) (\<lambda>found.
       case found of None \<Rightarrow> Inr False
       | Some ancestorIndex \<Rightarrow> IsReachabilityTreeAncestorOf s (fcs ! ancestorIndex) other))"

definition IsDAGAncestorOf :: "reachStore \<Rightarrow> DomainHash \<Rightarrow> DomainHash \<Rightarrow> reach_error + bool" where
  "IsDAGAncestorOf s blockHashA blockHashB =
     rbind (IsReachabilityTreeAncestorOf s blockHashA blockHashB) (\<lambda>isReachabilityTreeAncestor.
       if isReachabilityTreeAncestor then Inr True
       else futureCoveringSetHasAncestorOf s blockHashA blockHashB)"

end
