(* ===== verification/Reach_Reindex.thy ===== *)
theory Reach_Reindex
  imports Reach_Tree
begin

text \<open>
  Reindexing of the reachability tree (\<open>reindex_context.go\<close>), the operations of \<open>tree.go\<close> that
  trigger it, and the entry points \<open>Init\<close> and \<open>AddBlock\<close>. The field \<open>subTreeSizesCache\<close> of
  \<open>reindexContext\<close> is passed along with the store. The breadth first searches and the walks
  along the tree are loops that run forever on a store whose parent links form a cycle.
\<close>

type_synonym subTreeSizes = "DomainHash \<rightharpoonup> u64"

definition newReindexContext :: subTreeSizes where
  "newReindexContext = Map.empty"

definition cachedSize :: "subTreeSizes \<Rightarrow> DomainHash \<Rightarrow> u64" where
  "cachedSize cache h = (case cache h of None \<Rightarrow> 0 | Some w \<Rightarrow> w)"

section \<open>Counting and propagating\<close>

partial_function (option) pushUp ::
    "reachStore \<Rightarrow> DomainHash \<Rightarrow> DomainHash \<Rightarrow> (DomainHash \<Rightarrow> u64) \<Rightarrow> subTreeSizes
      \<Rightarrow> (reach_error + (DomainHash \<Rightarrow> u64) \<times> subTreeSizes) option" where
  [code]: "pushUp s node current counts cache =
     (if current = node then ret (Inr (counts, cache))
      else pbind (ret (parent s current)) (\<lambda>p.
        case p of None \<Rightarrow> ret (Inr (counts, cache))
        | Some current' \<Rightarrow>
            pbind (ret (children s current')) (\<lambda>cs.
              if counts current' + 1 \<noteq> word_of_nat (length cs)
              then ret (Inr (counts(current' := counts current' + 1), cache))
              else pushUp s node current' (counts(current' := counts current' + 1))
                     (cache(current' \<mapsto> foldl (\<lambda>sum child. sum + cachedSize cache child) 0 cs + 1)))))"

partial_function (option) countLoop ::
    "reachStore \<Rightarrow> DomainHash \<Rightarrow> DomainHash list \<Rightarrow> (DomainHash \<Rightarrow> u64) \<Rightarrow> subTreeSizes
      \<Rightarrow> (reach_error + subTreeSizes) option" where
  [code]: "countLoop s node queue counts cache =
     (case queue of [] \<Rightarrow> ret (Inr cache)
      | current # queue' \<Rightarrow>
          pbind (ret (children s current)) (\<lambda>cs.
            if cs \<noteq> [] \<and> cache current = None then countLoop s node (queue' @ cs) counts cache
            else pbind (pushUp s node current counts (if cs = [] then cache(current \<mapsto> 1) else cache))
                   (\<lambda>r. countLoop s node queue' (fst r) (snd r))))"

definition countSubtrees :: "reachStore \<Rightarrow> DomainHash \<Rightarrow> subTreeSizes \<Rightarrow> (reach_error + subTreeSizes) option" where
  "countSubtrees s node cache =
     (if cache node \<noteq> None then ret (Inr cache) else countLoop s node [node] (\<lambda>_. 0) cache)"

fun stageIntervals ::
    "reachStore \<Rightarrow> DomainHash list \<Rightarrow> ReachabilityInterval list \<Rightarrow> reach_error + reachStore" where
  "stageIntervals s [] intervals = Inr s"
| "stageIntervals s (child # cs) [] = Inl IndexOutOfRange"
| "stageIntervals s (child # cs) (childInterval # intervals) =
     rbind (stageInterval s child childInterval) (\<lambda>s'. stageIntervals s' cs intervals)"

partial_function (option) propagateLoop ::
    "reachabilityManager \<Rightarrow> subTreeSizes \<Rightarrow> DomainHash list \<Rightarrow> reachStore \<Rightarrow> (reach_error + reachStore) option" where
  [code]: "propagateLoop rt cache queue s =
     (case queue of [] \<Rightarrow> ret (Inr s)
      | current # queue' \<Rightarrow>
          pbind (ret (children s current)) (\<lambda>cs.
            if cs = [] then propagateLoop rt cache queue' s
            else pbind (ret (intervalRangeForChildAllocation s current)) (\<lambda>ri.
                 pbind (ret (intervalSplitWithExponentialBias (floatOutOfRange rt) ri
                               (List.map (cachedSize cache) cs))) (\<lambda>intervals.
                 pbind (ret (stageIntervals s cs intervals)) (\<lambda>s'.
                   propagateLoop rt cache (queue' @ cs) s')))))"

definition propagateInterval ::
    "reachabilityManager \<Rightarrow> DomainHash \<Rightarrow> subTreeSizes \<Rightarrow> reachStore \<Rightarrow> (reach_error + subTreeSizes \<times> reachStore) option" where
  "propagateInterval rt node cache s =
     pbind (countSubtrees s node cache) (\<lambda>cache'.
     pbind (propagateLoop rt cache' [node] s) (\<lambda>s'. ret (Inr (cache', s'))))"

section \<open>Making room earlier than the reindex root\<close>

partial_function (option) offsetBefore ::
    "reachabilityManager \<Rightarrow> DomainHash \<Rightarrow> u64 \<Rightarrow> DomainHash list \<Rightarrow> subTreeSizes \<Rightarrow> reachStore
      \<Rightarrow> (reach_error + subTreeSizes \<times> reachStore) option" where
  [code]: "offsetBefore rt allocationNode offset siblings cache s =
     (case siblings of [] \<Rightarrow> ret (Inr (cache, s))
      | sibling # rest \<Rightarrow>
          pbind (ret (fetchInterval s sibling)) (\<lambda>previousInterval.
            if sibling = allocationNode then
              pbind (ret (stageInterval s allocationNode (intervalIncreaseEnd previousInterval offset))) (\<lambda>s'.
                propagateInterval rt allocationNode cache s')
            else
              pbind (ret (stageInterval s sibling (intervalIncrease previousInterval offset))) (\<lambda>s'.
              pbind (propagateInterval rt sibling cache s') (\<lambda>r.
                offsetBefore rt allocationNode offset rest (fst r) (snd r)))))"

definition offsetSiblingsBefore ::
    "reachabilityManager \<Rightarrow> DomainHash \<Rightarrow> DomainHash \<Rightarrow> u64 \<Rightarrow> subTreeSizes \<Rightarrow> reachStore
      \<Rightarrow> (reach_error + subTreeSizes \<times> reachStore) option" where
  "offsetSiblingsBefore rt allocationNode current offset cache s =
     pbind (ret (parent s current)) (\<lambda>p.
     pbind (ret (nonNil NilHash p)) (\<lambda>p'.
     pbind (ret (splitChildren s p' current)) (\<lambda>siblings.
       offsetBefore rt allocationNode offset (rev (fst siblings)) cache s)))"

partial_function (option) offsetAfter ::
    "reachabilityManager \<Rightarrow> DomainHash \<Rightarrow> u64 \<Rightarrow> DomainHash list \<Rightarrow> subTreeSizes \<Rightarrow> reachStore
      \<Rightarrow> (reach_error + subTreeSizes \<times> reachStore) option" where
  [code]: "offsetAfter rt allocationNode offset siblings cache s =
     (case siblings of [] \<Rightarrow> ret (Inr (cache, s))
      | sibling # rest \<Rightarrow>
          pbind (ret (fetchInterval s sibling)) (\<lambda>previousInterval.
            if sibling = allocationNode then
              pbind (ret (stageInterval s allocationNode (intervalDecreaseStart previousInterval offset))) (\<lambda>s'.
                propagateInterval rt allocationNode cache s')
            else
              pbind (ret (stageInterval s sibling (intervalDecrease previousInterval offset))) (\<lambda>s'.
              pbind (propagateInterval rt sibling cache s') (\<lambda>r.
                offsetAfter rt allocationNode offset rest (fst r) (snd r)))))"

definition offsetSiblingsAfter ::
    "reachabilityManager \<Rightarrow> DomainHash \<Rightarrow> DomainHash \<Rightarrow> u64 \<Rightarrow> subTreeSizes \<Rightarrow> reachStore
      \<Rightarrow> (reach_error + subTreeSizes \<times> reachStore) option" where
  "offsetSiblingsAfter rt allocationNode current offset cache s =
     pbind (ret (parent s current)) (\<lambda>p.
     pbind (ret (nonNil NilHash p)) (\<lambda>p'.
     pbind (ret (splitChildren s p' current)) (\<lambda>siblings.
       offsetAfter rt allocationNode offset (snd siblings) cache s)))"

text \<open>
  The walk up returns the block it stops at and the slack to reserve for every block of the
  chain on the way down.
\<close>

partial_function (option) reclaimUpBefore ::
    "reachabilityManager \<Rightarrow> DomainHash \<Rightarrow> DomainHash \<Rightarrow> u64 \<Rightarrow> DomainHash \<Rightarrow> u64 \<Rightarrow> u64 \<Rightarrow> subTreeSizes \<Rightarrow> reachStore
      \<Rightarrow> (reach_error + DomainHash \<times> u64 \<times> subTreeSizes \<times> reachStore) option" where
  [code]: "reclaimUpBefore rt allocationNode rootHash requiredAllocation current slackSum pathLen cache s =
     (if current = rootHash then
        pbind (ret (fetchInterval s current)) (\<lambda>previousInterval.
        let offset = requiredAllocation + reindexSlack rt * pathLen - slackSum
        in pbind (ret (stageInterval s current (intervalIncreaseStart previousInterval offset))) (\<lambda>s1.
           pbind (propagateInterval rt current cache s1) (\<lambda>r2.
           pbind (offsetSiblingsBefore rt allocationNode current offset (fst r2) (snd r2)) (\<lambda>r3.
             ret (Inr (current, reindexSlack rt, fst r3, snd r3))))))
      else
        pbind (ret (remainingSlackBefore s current)) (\<lambda>slackBeforeCurrent.
        let slackSum' = slackSum + slackBeforeCurrent
        in if slackSum' \<ge> requiredAllocation then
             pbind (ret (fetchInterval s current)) (\<lambda>previousInterval.
             let offset = slackBeforeCurrent - (slackSum' - requiredAllocation)
             in pbind (ret (stageInterval s current (intervalIncreaseStart previousInterval offset))) (\<lambda>s1.
                pbind (offsetSiblingsBefore rt allocationNode current offset cache s1) (\<lambda>r2.
                  ret (Inr (current, 0, fst r2, snd r2)))))
           else
             pbind (ret (FindNextAncestor s rootHash current)) (\<lambda>current'.
               reclaimUpBefore rt allocationNode rootHash requiredAllocation current' slackSum' (pathLen + 1) cache s)))"

partial_function (option) reclaimDownBefore ::
    "reachabilityManager \<Rightarrow> DomainHash \<Rightarrow> DomainHash \<Rightarrow> u64 \<Rightarrow> DomainHash \<Rightarrow> subTreeSizes \<Rightarrow> reachStore
      \<Rightarrow> (reach_error + subTreeSizes \<times> reachStore) option" where
  [code]: "reclaimDownBefore rt allocationNode commonAncestor pathSlackAlloc current cache s =
     pbind (ret (parent s current)) (\<lambda>p.
       if p = Some commonAncestor then ret (Inr (cache, s))
       else pbind (ret (nonNil NilHash p)) (\<lambda>current'.
            pbind (ret (fetchInterval s current')) (\<lambda>originalInterval.
            pbind (ret (remainingSlackBefore s current')) (\<lambda>slackBeforeCurrent.
            let offset = slackBeforeCurrent - pathSlackAlloc
            in pbind (ret (stageInterval s current' (intervalIncreaseStart originalInterval offset))) (\<lambda>s1.
               pbind (offsetSiblingsBefore rt allocationNode current' offset cache s1) (\<lambda>r2.
                 reclaimDownBefore rt allocationNode commonAncestor pathSlackAlloc current' (fst r2) (snd r2)))))))"

definition reclaimIntervalBefore ::
    "reachabilityManager \<Rightarrow> DomainHash \<Rightarrow> DomainHash \<Rightarrow> DomainHash \<Rightarrow> DomainHash \<Rightarrow> u64 \<Rightarrow> subTreeSizes \<Rightarrow> reachStore
      \<Rightarrow> (reach_error + subTreeSizes \<times> reachStore) option" where
  "reclaimIntervalBefore rt allocationNode commonAncestor chosenChild rootHash requiredAllocation cache s =
     pbind (reclaimUpBefore rt allocationNode rootHash requiredAllocation chosenChild 0 0 cache s) (\<lambda>(current, pathSlackAlloc, cache', s').
       reclaimDownBefore rt allocationNode commonAncestor pathSlackAlloc current cache' s')"

partial_function (option) reclaimUpAfter ::
    "reachabilityManager \<Rightarrow> DomainHash \<Rightarrow> DomainHash \<Rightarrow> u64 \<Rightarrow> DomainHash \<Rightarrow> u64 \<Rightarrow> u64 \<Rightarrow> subTreeSizes \<Rightarrow> reachStore
      \<Rightarrow> (reach_error + DomainHash \<times> u64 \<times> subTreeSizes \<times> reachStore) option" where
  [code]: "reclaimUpAfter rt allocationNode rootHash requiredAllocation current slackSum pathLen cache s =
     (if current = rootHash then
        pbind (ret (fetchInterval s current)) (\<lambda>previousInterval.
        let offset = requiredAllocation + reindexSlack rt * pathLen - slackSum
        in pbind (ret (stageInterval s current (intervalDecreaseEnd previousInterval offset))) (\<lambda>s1.
           pbind (propagateInterval rt current cache s1) (\<lambda>r2.
           pbind (offsetSiblingsAfter rt allocationNode current offset (fst r2) (snd r2)) (\<lambda>r3.
             ret (Inr (current, reindexSlack rt, fst r3, snd r3))))))
      else
        pbind (ret (remainingSlackAfter s current)) (\<lambda>slackAfterCurrent.
        let slackSum' = slackSum + slackAfterCurrent
        in if slackSum' \<ge> requiredAllocation then
             pbind (ret (fetchInterval s current)) (\<lambda>previousInterval.
             let offset = slackAfterCurrent - (slackSum' - requiredAllocation)
             in pbind (ret (stageInterval s current (intervalDecreaseEnd previousInterval offset))) (\<lambda>s1.
                pbind (offsetSiblingsAfter rt allocationNode current offset cache s1) (\<lambda>r2.
                  ret (Inr (current, 0, fst r2, snd r2)))))
           else
             pbind (ret (FindNextAncestor s rootHash current)) (\<lambda>current'.
               reclaimUpAfter rt allocationNode rootHash requiredAllocation current' slackSum' (pathLen + 1) cache s)))"

partial_function (option) reclaimDownAfter ::
    "reachabilityManager \<Rightarrow> DomainHash \<Rightarrow> DomainHash \<Rightarrow> u64 \<Rightarrow> DomainHash \<Rightarrow> subTreeSizes \<Rightarrow> reachStore
      \<Rightarrow> (reach_error + subTreeSizes \<times> reachStore) option" where
  [code]: "reclaimDownAfter rt allocationNode commonAncestor pathSlackAlloc current cache s =
     pbind (ret (parent s current)) (\<lambda>p.
       if p = Some commonAncestor then ret (Inr (cache, s))
       else pbind (ret (nonNil NilHash p)) (\<lambda>current'.
            pbind (ret (fetchInterval s current')) (\<lambda>originalInterval.
            pbind (ret (remainingSlackAfter s current')) (\<lambda>slackAfterCurrent.
            let offset = slackAfterCurrent - pathSlackAlloc
            in pbind (ret (stageInterval s current' (intervalDecreaseEnd originalInterval offset))) (\<lambda>s1.
               pbind (offsetSiblingsAfter rt allocationNode current' offset cache s1) (\<lambda>r2.
                 reclaimDownAfter rt allocationNode commonAncestor pathSlackAlloc current' (fst r2) (snd r2)))))))"

definition reclaimIntervalAfter ::
    "reachabilityManager \<Rightarrow> DomainHash \<Rightarrow> DomainHash \<Rightarrow> DomainHash \<Rightarrow> DomainHash \<Rightarrow> u64 \<Rightarrow> subTreeSizes \<Rightarrow> reachStore
      \<Rightarrow> (reach_error + subTreeSizes \<times> reachStore) option" where
  "reclaimIntervalAfter rt allocationNode commonAncestor chosenChild rootHash requiredAllocation cache s =
     pbind (reclaimUpAfter rt allocationNode rootHash requiredAllocation chosenChild 0 0 cache s) (\<lambda>(current, pathSlackAlloc, cache', s').
       reclaimDownAfter rt allocationNode commonAncestor pathSlackAlloc current cache' s')"

definition reindexIntervalsEarlierThanRoot ::
    "reachabilityManager \<Rightarrow> DomainHash \<Rightarrow> DomainHash \<Rightarrow> DomainHash \<Rightarrow> u64 \<Rightarrow> subTreeSizes \<Rightarrow> reachStore
      \<Rightarrow> (reach_error + subTreeSizes \<times> reachStore) option" where
  "reindexIntervalsEarlierThanRoot rt allocationNode rootHash commonAncestor requiredAllocation cache s =
     pbind (ret (FindNextAncestor s rootHash commonAncestor)) (\<lambda>chosenChild.
     pbind (ret (interval s allocationNode)) (\<lambda>nodeInterval.
     pbind (ret (interval s chosenChild)) (\<lambda>chosenInterval.
     pbind (ret (nonNil NilInterval nodeInterval)) (\<lambda>ni.
     pbind (ret (nonNil NilInterval chosenInterval)) (\<lambda>ci.
       if Start ni < Start ci
       then reclaimIntervalBefore rt allocationNode commonAncestor chosenChild rootHash requiredAllocation cache s
       else reclaimIntervalAfter rt allocationNode commonAncestor chosenChild rootHash requiredAllocation cache s)))))"

partial_function (option) reindexIntervals ::
    "reachabilityManager \<Rightarrow> DomainHash \<Rightarrow> DomainHash \<Rightarrow> subTreeSizes \<Rightarrow> reachStore
      \<Rightarrow> (reach_error + subTreeSizes \<times> reachStore) option" where
  [code]: "reindexIntervals rt current rootHash cache s =
     pbind (ret (fetchInterval s current)) (\<lambda>currentInterval.
     pbind (countSubtrees s current cache) (\<lambda>cache'.
     let currentSubtreeSize = cachedSize cache' current
     in if intervalSize currentInterval \<ge> currentSubtreeSize then propagateInterval rt current cache' s
        else pbind (ret (parent s current)) (\<lambda>p.
             pbind (ret (nonNil MissingTreeParent p)) (\<lambda>p'.
               if current = rootHash then ret (Inl RootOutOfCapacity)
               else pbind (ret (isStrictAncestorOf s p' rootHash)) (\<lambda>isParentStrictAncestorOfRoot.
                 if isParentStrictAncestorOfRoot
                 then reindexIntervalsEarlierThanRoot rt current rootHash p' currentSubtreeSize cache' s
                 else reindexIntervals rt p' rootHash cache' s)))))"

section \<open>Concentrating intervals towards a new reindex root\<close>

fun countChildren ::
    "reachStore \<Rightarrow> DomainHash list \<Rightarrow> subTreeSizes \<Rightarrow> (reach_error + u64 list \<times> subTreeSizes) option" where
  "countChildren s [] cache = ret (Inr ([], cache))"
| "countChildren s (node # nodes) cache =
     pbind (countSubtrees s node cache) (\<lambda>cache'.
     pbind (countChildren s nodes cache') (\<lambda>r. ret (Inr (cachedSize cache' node # fst r, snd r))))"

text \<open>An error while counting is answered with no sizes and the sum 0. The sizes that were cached
  before the error are dropped here; nobody reads them, since the callers then split an empty
  interval into no parts and index the first of them for a child that exists, which panics.\<close>

definition countChildrenSubtrees ::
    "reachStore \<Rightarrow> DomainHash list \<Rightarrow> subTreeSizes \<Rightarrow> (reach_error + (u64 list \<times> u64) \<times> subTreeSizes) option" where
  "countChildrenSubtrees s nodes cache =
     (case countChildren s nodes cache of
        None \<Rightarrow> None
      | Some (Inl e) \<Rightarrow> Some (Inr (([], 0), cache))
      | Some (Inr (sizes, cache')) \<Rightarrow> Some (Inr ((sizes, foldl (+) 0 sizes), cache')))"

fun propagateChildren ::
    "reachabilityManager \<Rightarrow> DomainHash list \<Rightarrow> ReachabilityInterval list \<Rightarrow> subTreeSizes \<Rightarrow> reachStore
      \<Rightarrow> (reach_error + subTreeSizes \<times> reachStore) option" where
  "propagateChildren rt [] intervals cache s = ret (Inr (cache, s))"
| "propagateChildren rt (child # cs) [] cache s = ret (Inl IndexOutOfRange)"
| "propagateChildren rt (child # cs) (childInterval # intervals) cache s =
     pbind (ret (stageInterval s child childInterval)) (\<lambda>s'.
     pbind (propagateInterval rt child cache s') (\<lambda>r. propagateChildren rt cs intervals (fst r) (snd r)))"

definition propagateChildrenIntervals ::
    "reachabilityManager \<Rightarrow> ReachabilityInterval \<Rightarrow> DomainHash list \<Rightarrow> u64 list \<Rightarrow> subTreeSizes \<Rightarrow> reachStore
      \<Rightarrow> (reach_error + subTreeSizes \<times> reachStore) option" where
  "propagateChildrenIntervals rt ri cs sizes cache s =
     pbind (ret (intervalSplitExact ri sizes)) (\<lambda>childIntervals. propagateChildren rt cs childIntervals cache s)"

definition tightenIntervalsBefore ::
    "reachabilityManager \<Rightarrow> DomainHash \<Rightarrow> DomainHash list \<Rightarrow> subTreeSizes \<Rightarrow> reachStore
      \<Rightarrow> (reach_error + u64 \<times> subTreeSizes \<times> reachStore) option" where
  "tightenIntervalsBefore rt rootHash siblingsBeforeChosen cache s =
     pbind (countChildrenSubtrees s siblingsBeforeChosen cache) (\<lambda>((siblingSubtreeSizes, sizesSum), cache').
     pbind (ret (fetchInterval s rootHash)) (\<lambda>rootInterval.
     pbind (propagateChildrenIntervals rt
              (newReachabilityInterval (Start rootInterval + reindexSlack rt)
                 (Start rootInterval + reindexSlack rt + sizesSum - 1))
              siblingsBeforeChosen siblingSubtreeSizes cache' s) (\<lambda>r. ret (Inr (sizesSum, r)))))"

definition tightenIntervalsAfter ::
    "reachabilityManager \<Rightarrow> DomainHash \<Rightarrow> DomainHash list \<Rightarrow> subTreeSizes \<Rightarrow> reachStore
      \<Rightarrow> (reach_error + u64 \<times> subTreeSizes \<times> reachStore) option" where
  "tightenIntervalsAfter rt rootHash siblingsAfterChosen cache s =
     pbind (countChildrenSubtrees s siblingsAfterChosen cache) (\<lambda>((siblingSubtreeSizes, sizesSum), cache').
     pbind (ret (fetchInterval s rootHash)) (\<lambda>rootInterval.
     pbind (propagateChildrenIntervals rt
              (newReachabilityInterval (End rootInterval - reindexSlack rt - sizesSum)
                 (End rootInterval - reindexSlack rt - 1))
              siblingsAfterChosen siblingSubtreeSizes cache' s) (\<lambda>r. ret (Inr (sizesSum, r)))))"

definition expandIntervalToChosen ::
    "reachabilityManager \<Rightarrow> DomainHash \<Rightarrow> DomainHash \<Rightarrow> u64 \<Rightarrow> u64 \<Rightarrow> bool \<Rightarrow> subTreeSizes \<Rightarrow> reachStore
      \<Rightarrow> (reach_error + subTreeSizes \<times> reachStore) option" where
  "expandIntervalToChosen rt rootHash chosenChild sizesSumBefore sizesSumAfter isFinalReindexRoot cache s =
     pbind (ret (fetchInterval s rootHash)) (\<lambda>rootInterval.
     let newChosenInterval =
           newReachabilityInterval (Start rootInterval + sizesSumBefore + reindexSlack rt)
             (End rootInterval - sizesSumAfter - reindexSlack rt - 1)
     in pbind (ret (interval s chosenChild)) (\<lambda>currentChosenInterval.
        pbind (if isFinalReindexRoot then
                 pbind (ret (nonNil NilInterval currentChosenInterval)) (\<lambda>ci.
                   if \<not> intervalContains newChosenInterval ci then
                     pbind (ret (stageInterval s chosenChild
                              (newReachabilityInterval (Start newChosenInterval + reindexSlack rt)
                                 (End newChosenInterval - reindexSlack rt)))) (\<lambda>s1.
                       propagateInterval rt chosenChild cache s1)
                   else ret (Inr (cache, s)))
               else ret (Inr (cache, s))) (\<lambda>r2.
        pbind (ret (stageInterval (snd r2) chosenChild newChosenInterval)) (\<lambda>s3. ret (Inr (fst r2, s3))))))"

definition concentrateInterval ::
    "reachabilityManager \<Rightarrow> DomainHash \<Rightarrow> DomainHash \<Rightarrow> bool \<Rightarrow> subTreeSizes \<Rightarrow> reachStore
      \<Rightarrow> (reach_error + subTreeSizes \<times> reachStore) option" where
  "concentrateInterval rt rootHash chosenChild isFinalReindexRoot cache s =
     pbind (ret (splitChildren s rootHash chosenChild)) (\<lambda>(siblingsBefore, siblingsAfter).
     pbind (tightenIntervalsBefore rt rootHash siblingsBefore cache s) (\<lambda>(sumBefore, cache1, s1).
     pbind (tightenIntervalsAfter rt rootHash siblingsAfter cache1 s1) (\<lambda>(sumAfter, cache2, s2).
       expandIntervalToChosen rt rootHash chosenChild sumBefore sumAfter isFinalReindexRoot cache2 s2)))"

section \<open>Adding a child and moving the reindex root\<close>

definition addChild ::
    "reachabilityManager \<Rightarrow> DomainHash \<Rightarrow> DomainHash \<Rightarrow> DomainHash \<Rightarrow> reachStore \<Rightarrow> (reach_error + reachStore) option" where
  "addChild rt node child rootHash s =
     pbind (ret (remainingIntervalAfter s node)) (\<lambda>remaining.
     pbind (ret (stageAddChild s node child)) (\<lambda>s1.
     pbind (ret (stageParent s1 child node)) (\<lambda>s2.
       if intervalSize remaining = 0 then
         pbind (ret (stageInterval s2 child remaining)) (\<lambda>s3.
         pbind (reindexIntervals rt child rootHash newReindexContext s3) (\<lambda>r. ret (Inr (snd r))))
       else
         pbind (ret (intervalSplitInHalf (floatOutOfRange rt) remaining)) (\<lambda>halves.
           ret (stageInterval s2 child (fst halves))))))"

definition ghostdagGet :: "reachabilityManager \<Rightarrow> DomainHash \<Rightarrow> reach_error + BlockGHOSTDAGData" where
  "ghostdagGet rt h = nonNil ErrNotFound (ghostdagStore rt (h, False))"

partial_function (option) nextReindexRoot ::
    "reachabilityManager \<Rightarrow> reachStore \<Rightarrow> DomainHash \<Rightarrow> u64 \<Rightarrow> DomainHash \<Rightarrow> (reach_error + DomainHash) option" where
  [code]: "nextReindexRoot rt s selectedTip tipBlueScore newReindexRoot =
     pbind (ret (FindNextAncestor s selectedTip newReindexRoot)) (\<lambda>chosenChild.
     pbind (ret (ghostdagGet rt chosenChild)) (\<lambda>chosenChildData.
       if tipBlueScore < blueScore chosenChildData then ret (Inl ChosenChildBlueScore)
       else if tipBlueScore - blueScore chosenChildData < reindexWindow rt then ret (Inr newReindexRoot)
       else nextReindexRoot rt s selectedTip tipBlueScore chosenChild))"

definition findNextReindexRoot ::
    "reachabilityManager \<Rightarrow> reachStore \<Rightarrow> DomainHash \<Rightarrow> DomainHash \<Rightarrow> (reach_error + DomainHash \<times> DomainHash) option" where
  "findNextReindexRoot rt s currentReindexRoot selectedTip =
     pbind (ret (ghostdagGet rt selectedTip)) (\<lambda>tipData.
     pbind (ret (IsReachabilityTreeAncestorOf s currentReindexRoot selectedTip)) (\<lambda>isCurrentAncestorOfTip.
       if isCurrentAncestorOfTip then
         pbind (nextReindexRoot rt s selectedTip (blueScore tipData) currentReindexRoot)
           (\<lambda>newRoot. ret (Inr (currentReindexRoot, newRoot)))
       else
         pbind (ret (ghostdagGet rt currentReindexRoot)) (\<lambda>rootData.
           if blueScore tipData < blueScore rootData \<or> blueScore tipData - blueScore rootData < reindexSlack rt
           then ret (Inr (currentReindexRoot, currentReindexRoot))
           else pbind (findCommonAncestor s selectedTip currentReindexRoot) (\<lambda>commonAncestor.
                pbind (nextReindexRoot rt s selectedTip (blueScore tipData) commonAncestor)
                  (\<lambda>newRoot. ret (Inr (commonAncestor, newRoot)))))))"

partial_function (option) concentrateLoop ::
    "reachabilityManager \<Rightarrow> DomainHash \<Rightarrow> DomainHash \<Rightarrow> DomainHash \<Rightarrow> subTreeSizes \<Rightarrow> reachStore
      \<Rightarrow> (reach_error + reachStore) option" where
  [code]: "concentrateLoop rt selectedTip newReindexRoot reindexRootAncestor cache s =
     pbind (ret (FindNextAncestor s selectedTip reindexRootAncestor)) (\<lambda>chosenChild.
     pbind (concentrateInterval rt reindexRootAncestor chosenChild (chosenChild = newReindexRoot) cache s) (\<lambda>r.
       if chosenChild = newReindexRoot then ret (Inr (snd r))
       else concentrateLoop rt selectedTip newReindexRoot chosenChild (fst r) (snd r)))"

definition UpdateReindexRoot ::
    "reachabilityManager \<Rightarrow> DomainHash \<Rightarrow> reachStore \<Rightarrow> (reach_error + reachStore) option" where
  "UpdateReindexRoot rt selectedTip s =
     pbind (ret (reindexRoot s)) (\<lambda>currentReindexRoot.
     pbind (findNextReindexRoot rt s currentReindexRoot selectedTip) (\<lambda>(reindexRootAncestor, newReindexRoot).
       if currentReindexRoot = newReindexRoot then ret (Inr s)
       else pbind (if newReindexRoot \<noteq> reindexRootAncestor
                   then concentrateLoop rt selectedTip newReindexRoot reindexRootAncestor newReindexContext s
                   else ret (Inr s)) (\<lambda>s'.
              ret (Inr (stageReindexRoot s' newReindexRoot)))))"

section \<open>Entry points\<close>

fun insertAll :: "DomainHash \<Rightarrow> DomainHash list \<Rightarrow> reachStore \<Rightarrow> reach_error + reachStore" where
  "insertAll blockHash [] s = Inr s"
| "insertAll blockHash (current # mergeSet) s =
     rbind (insertToFutureCoveringSet s current blockHash) (insertAll blockHash mergeSet)"

definition AddBlock :: "reachabilityManager \<Rightarrow> DomainHash \<Rightarrow> reachStore \<Rightarrow> (reach_error + reachStore) option" where
  "AddBlock rt blockHash s =
     (let s0 = stageData s blockHash newReachabilityTreeData
      in pbind (ret (ghostdagGet rt blockHash)) (\<lambda>ghostdagData.
         pbind (ret (reindexRoot s0)) (\<lambda>rootHash.
         pbind (ret (nonNil NilHash (selectedParent ghostdagData))) (\<lambda>parentHash.
         pbind (addChild rt parentHash blockHash rootHash s0) (\<lambda>s1.
           ret (insertAll blockHash (mergeSetBlues ghostdagData @ mergeSetReds ghostdagData) s1))))))"

definition InitReachability :: "reachStore \<Rightarrow> reachStore" where
  "InitReachability s =
     (if reachabilityData s VirtualGenesisBlockHash \<noteq> None then s
      else stageReindexRoot (stageData s VirtualGenesisBlockHash newReachabilityTreeData) VirtualGenesisBlockHash)"

end
