(* ===== verification/Reach_Shape.thy ===== *)
theory Reach_Shape
  imports Reach_Reindex
begin

text \<open>
  The tree a reachability store represents, as a data type of finite ordered trees, and what
  it means that the intervals in the store fit the tree: the interval of every node is
  regular and not empty, and those of its children follow each other inside it and leave its
  last number free. The lemmas show that a fitting interval is at least as large as the
  subtree and that containment of intervals is then exactly the ancestor relation of the
  tree.
\<close>

datatype rtree = RNode (rootOf: DomainHash) (subtrees: "rtree list")

fun nodes :: "rtree \<Rightarrow> DomainHash list" where
  "nodes (RNode h ts) = h # concat (List.map nodes ts)"

fun subs :: "rtree \<Rightarrow> rtree list" where
  "subs (RNode h ts) = RNode h ts # concat (List.map subs ts)"

abbreviation tsize :: "rtree \<Rightarrow> nat" where
  "tsize t \<equiv> length (nodes t)"

lemma nodes_eq: "nodes t = rootOf t # concat (List.map nodes (subtrees t))"
  by (cases t) simp

lemma subs_self [simp]: "t \<in> set (subs t)"
  by (cases t) simp

lemma rootOf_in_nodes [simp, intro]: "rootOf t \<in> set (nodes t)"
  by (cases t) simp

lemma subs_trans: "u \<in> set (subs t) \<Longrightarrow> v \<in> set (subs u) \<Longrightarrow> v \<in> set (subs t)"
  by (induction t rule: subs.induct) auto

lemma subs_child: "v \<in> set (subtrees t) \<Longrightarrow> v \<in> set (subs t)"
  by (cases t) force

lemma nodes_subs: "set (nodes t) = rootOf ` set (subs t)"
  by (induction t rule: subs.induct) auto

lemma subs_nodes: "u \<in> set (subs t) \<Longrightarrow> set (nodes u) \<subseteq> set (nodes t)"
  using subs_trans by (fastforce simp: nodes_subs)

lemma length_subs: "length (subs t) = tsize t"
  by (induction t rule: subs.induct) (simp add: length_concat comp_def cong: map_cong)

lemma rootOf_subs: "List.map rootOf (subs t) = nodes t"
  by (induction t rule: subs.induct) (simp add: map_concat comp_def cong: map_cong)

lemma subs_unique:
  assumes "distinct (nodes t)" and "u \<in> set (subs t)" and "v \<in> set (subs t)" and "rootOf u = rootOf v"
  shows "u = v"
  using assms by (metis rootOf_subs distinct_map inj_onD)

lemma distinct_subs: "distinct (nodes t) \<Longrightarrow> u \<in> set (subs t) \<Longrightarrow> distinct (nodes u)"
  by (induction t rule: subs.induct) (auto simp: distinct_concat_iff distinct_map)

lemma distinct_roots: "distinct (concat (List.map nodes ts)) \<Longrightarrow> distinct (List.map rootOf ts)"
proof (induction ts)
  case (Cons t ts)
  have "rootOf t \<notin> rootOf ` set ts"
  proof
    assume "rootOf t \<in> rootOf ` set ts"
    then obtain u where u: "u \<in> set ts" "rootOf t = rootOf u" by auto
    have "rootOf t \<in> set (nodes t)" by (rule rootOf_in_nodes)
    moreover have "rootOf t \<in> (\<Union>u\<in>set ts. set (nodes u))" unfolding u(2) by (rule UN_I [OF u(1)]) simp
    moreover have "set (nodes t) \<inter> (\<Union>u\<in>set ts. set (nodes u)) = {}" using Cons.prems by simp
    ultimately show False by blast
  qed
  then show ?case using Cons by simp
qed simp

section \<open>Stores and trees\<close>

definition ivl :: "reachStore \<Rightarrow> DomainHash \<Rightarrow> ReachabilityInterval" where
  "ivl s h = (case reachabilityData s h of Some d \<Rightarrow>
     (case Interval d of Some r \<Rightarrow> r | None \<Rightarrow> newReachabilityInterval 0 0) | None \<Rightarrow> newReachabilityInterval 0 0)"

definition present :: "reachStore \<Rightarrow> DomainHash \<Rightarrow> bool" where
  "present s h \<longleftrightarrow> (\<exists>d. reachabilityData s h = Some d \<and> Interval d \<noteq> None)"

fun rep :: "reachStore \<Rightarrow> rtree \<Rightarrow> bool" where
  "rep s (RNode h ts) \<longleftrightarrow> present s h \<and> children s h = Inr (List.map rootOf ts)
     \<and> (\<forall>t\<in>set ts. parent s (rootOf t) = Inr (Some h) \<and> rep s t)"

definition sameShape :: "reachStore \<Rightarrow> reachStore \<Rightarrow> bool" where
  "sameShape s s' \<longleftrightarrow> reachabilityReindexRoot s' = reachabilityReindexRoot s
     \<and> (\<forall>h. present s' h = present s h \<and> children s' h = children s h \<and> parent s' h = parent s h
          \<and> futureCoveringSet s' h = futureCoveringSet s h)"

lemma sameShape_refl [simp]: "sameShape s s"
  by (simp add: sameShape_def)

lemma sameShape_trans: "sameShape s s' \<Longrightarrow> sameShape s' s'' \<Longrightarrow> sameShape s s''"
  by (simp add: sameShape_def)

lemma rep_sameShape: "sameShape s s' \<Longrightarrow> rep s' t = rep s t"
  by (induction s t rule: rep.induct) (simp add: sameShape_def)

lemma rep_subs: "rep s t \<Longrightarrow> u \<in> set (subs t) \<Longrightarrow> rep s u"
  by (induction t rule: subs.induct) auto

lemma rep_root: "rep s t \<Longrightarrow> present s (rootOf t) \<and> children s (rootOf t) = Inr (List.map rootOf (subtrees t))"
  by (cases t) simp

lemma rep_parent: "rep s t \<Longrightarrow> u \<in> set (subtrees t) \<Longrightarrow> parent s (rootOf u) = Inr (Some (rootOf t))"
  by (cases t) simp

lemma rep_present: "rep s t \<Longrightarrow> x \<in> set (nodes t) \<Longrightarrow> present s x"
  using rep_subs rep_root by (fastforce simp: nodes_subs)

lemma fetchInterval_present: "present s h \<Longrightarrow> fetchInterval s h = Inr (ivl s h)"
  by (auto simp: present_def fetchInterval_def interval_def fetchData_def ivl_def nonNil_def)

lemma interval_present: "present s h \<Longrightarrow> interval s h = Inr (Some (ivl s h))"
  by (auto simp: present_def interval_def fetchData_def ivl_def)

lemma stageInterval_present:
  assumes "present s h"
  shows "\<exists>s'. stageInterval s h r = Inr s' \<and> sameShape s s' \<and> ivl s' = (ivl s)(h := r)"
proof -
  obtain d where d: "reachabilityData s h = Some d" "Interval d \<noteq> None" using assms by (auto simp: present_def)
  define s' where "s' = stageData s h (SetInterval r d)"
  have "stageInterval s h r = Inr s'"
    using d by (simp add: stageInterval_def reachabilityDataForInsertion_def CloneMutable_def s'_def)
  moreover have "sameShape s s'"
    using d by (auto simp: sameShape_def present_def children_def parent_def futureCoveringSet_def fetchData_def
        s'_def stageData_def SetInterval_def)
  moreover have "ivl s' = (ivl s)(h := r)"
    by (auto simp: ivl_def s'_def stageData_def SetInterval_def)
  ultimately show ?thesis by blast
qed

lemma IsReachabilityTreeAncestorOf_present:
  "present s x \<Longrightarrow> present s y \<Longrightarrow> IsReachabilityTreeAncestorOf s x y = Inr (intervalContains (ivl s x) (ivl s y))"
  by (simp add: IsReachabilityTreeAncestorOf_def interval_present nonNil_def)

section \<open>Fitting intervals\<close>

fun spaced :: "nat \<Rightarrow> ReachabilityInterval list \<Rightarrow> nat \<Rightarrow> bool" where
  "spaced a [] b \<longleftrightarrow> a \<le> b"
| "spaced a (r # rs) b \<longleftrightarrow> a \<le> ilo r \<and> ilo r \<le> ihi r \<and> spaced (ihi r) rs b"

fun good :: "(DomainHash \<Rightarrow> ReachabilityInterval) \<Rightarrow> rtree \<Rightarrow> bool" where
  "good f (RNode h ts) \<longleftrightarrow> regular (f h) \<and> ilo (f h) < ihi (f h)
     \<and> spaced (ilo (f h)) (List.map (\<lambda>t. f (rootOf t)) ts) (ihi (f h) - 1) \<and> (\<forall>t\<in>set ts. good f t)"

lemma spaced_le: "spaced a rs b \<Longrightarrow> a \<le> b"
  by (induction rs arbitrary: a) (auto intro: le_trans)

lemma spaced_mono: "spaced a rs b \<Longrightarrow> a' \<le> a \<Longrightarrow> b \<le> b' \<Longrightarrow> spaced a' rs b'"
  by (induction rs arbitrary: a a') auto

lemma spaced_append: "spaced a (xs @ ys) b \<longleftrightarrow> (\<exists>m. spaced a xs m \<and> spaced m ys b)"
  by (induction xs arbitrary: a) (auto intro: spaced_mono dest: spaced_le)

lemma tiles_spaced: "tiles a rs b \<Longrightarrow> spaced a rs b"
  by (induction rs arbitrary: a) auto

lemma spaced_sum: "spaced a rs b \<Longrightarrow> a + (\<Sum>r\<leftarrow>rs. ilen r) \<le> b"
  by (induction rs arbitrary: a) (fastforce simp: ilen_def)+

lemma spaced_in: "spaced a rs b \<Longrightarrow> r \<in> set rs \<Longrightarrow> a \<le> ilo r \<and> ihi r \<le> b"
  by (induction rs arbitrary: a) (fastforce dest: spaced_le)+

lemma good_cong: "(\<And>x. x \<in> set (nodes t) \<Longrightarrow> f x = g x) \<Longrightarrow> good f t = good g t"
proof (induction t rule: nodes.induct)
  case (1 h ts)
  have "good f t = good g t" if "t \<in> set ts" for t
    by (rule 1(1) [OF that], rule 1(2)) (use that in auto)
  moreover have maps: "List.map (\<lambda>t. f (rootOf t)) ts = List.map (\<lambda>t. g (rootOf t)) ts"
  proof (rule map_cong [OF refl])
    show "f (rootOf t) = g (rootOf t)" if "t \<in> set ts" for t
      by (rule 1(2)) (use that in \<open>simp, blast\<close>)
  qed
  moreover have "f h = g h" by (rule 1(2)) simp
  ultimately show ?case unfolding good.simps maps by simp
qed

lemma good_subs: "good f t \<Longrightarrow> u \<in> set (subs t) \<Longrightarrow> good f u"
  by (induction t rule: subs.induct) auto

lemma good_root: "good f t \<Longrightarrow> regular (f (rootOf t)) \<and> ilo (f (rootOf t)) < ihi (f (rootOf t))"
  by (cases t) simp

lemma good_spaced:
  "good f t \<Longrightarrow> spaced (ilo (f (rootOf t))) (List.map (\<lambda>t. f (rootOf t)) (subtrees t)) (ihi (f (rootOf t)) - 1)"
  by (cases t) simp

lemma good_size: "good f t \<Longrightarrow> tsize t \<le> ilen (f (rootOf t))"
proof (induction t rule: nodes.induct)
  case (1 h ts)
  have "(\<Sum>t\<leftarrow>ts. tsize t) \<le> (\<Sum>t\<leftarrow>ts. ilen (f (rootOf t)))"
    using 1 by (intro sum_list_mono) auto
  moreover have "ilo (f h) + (\<Sum>t\<leftarrow>ts. ilen (f (rootOf t))) \<le> ihi (f h) - 1" "ilo (f h) < ihi (f h)"
    using 1(2) spaced_sum [of "ilo (f h)" "List.map (\<lambda>t. f (rootOf t)) ts"] by (auto simp: comp_def)
  ultimately show ?case by (simp add: length_concat comp_def ilen_def)
qed

lemma good_within:
  assumes "good f t" and "x \<in> set (nodes t)"
  shows "ilo (f (rootOf t)) \<le> ilo (f x) \<and> ihi (f x) \<le> ihi (f (rootOf t)) \<and> ilo (f x) < ihi (f x)"
  using assms
proof (induction t rule: nodes.induct)
  case (1 h ts)
  show ?case
  proof (cases "x = h")
    case False
    then obtain t where t: "t \<in> set ts" "x \<in> set (nodes t)" using 1(3) by auto
    then have "ilo (f (rootOf t)) \<le> ilo (f x) \<and> ihi (f x) \<le> ihi (f (rootOf t)) \<and> ilo (f x) < ihi (f x)"
      using 1 by simp
    moreover have "ilo (f h) \<le> ilo (f (rootOf t)) \<and> ihi (f (rootOf t)) \<le> ihi (f h) - 1"
      using 1(2) t(1) spaced_in by (metis (mono_tags, lifting) good.simps image_eqI list.set_map)
    ultimately show ?thesis unfolding rtree.sel by linarith
  qed (use 1(2) in auto)
qed

lemma good_strictly_within:
  assumes "good f t" and "x \<in> set (nodes t)" and "x \<noteq> rootOf t"
  shows "ihi (f x) < ihi (f (rootOf t))"
proof -
  obtain h ts where t: "t = RNode h ts" by (cases t)
  then obtain u where u: "u \<in> set ts" "x \<in> set (nodes u)" using assms by auto
  then have "ihi (f x) \<le> ihi (f (rootOf u))" using assms(1) good_within [of f u x] t by simp
  moreover have "ihi (f (rootOf u)) \<le> ihi (f h) - 1" "ilo (f h) < ihi (f h)"
    using assms(1) u(1) spaced_in [of "ilo (f h)" "List.map (\<lambda>t. f (rootOf t)) ts" _ "f (rootOf u)"] t by auto
  ultimately show ?thesis using t by simp
qed

section \<open>Containment is ancestry\<close>

lemma spaced_disjoint:
  assumes "spaced a (List.map g ts) b" and "x \<in> set ts" and "y \<in> set ts" and "x \<noteq> y"
  shows "ihi (g x) \<le> ilo (g y) \<or> ihi (g y) \<le> ilo (g x)"
  using assms
proof (induction ts arbitrary: a)
  case (Cons t ts)
  then have sp: "spaced (ihi (g t)) (List.map g ts) b" by simp
  have "ihi (g t) \<le> ilo (g z)" if "z \<in> set ts" for z using spaced_in [OF sp, of "g z"] that by auto
  then show ?case using Cons sp by auto
qed simp

lemma contains_ancestor:
  assumes "good f t" and "u \<in> set (subs t)" and "v \<in> set (subs t)"
    and "intervalContains (f (rootOf u)) (f (rootOf v))"
  shows "rootOf v \<in> set (nodes u)"
  using assms
proof (induction t rule: subs.induct)
  case (1 h ts)
  let ?t = "RNode h ts"
  have in_t: "rootOf u \<in> set (nodes ?t)" "rootOf v \<in> set (nodes ?t)"
    using 1(3,4) unfolding nodes_subs by (auto intro!: imageI)
  show ?case
  proof (cases "u = ?t")
    case True
    then show ?thesis using in_t(2) by simp
  next
    case False
    then obtain a where a: "a \<in> set ts" "u \<in> set (subs a)" using 1(3) by auto
    have ua: "rootOf u \<in> set (nodes a)" using a(2) by (auto simp: nodes_subs)
    have ga: "good f a" using 1(2) a(1) by simp
    have "spaced (ilo (f h)) (List.map (\<lambda>t. f (rootOf t)) ts) (ihi (f h) - 1)" "ilo (f h) < ihi (f h)"
      using 1(2) by auto
    note sp = this
    have "ihi (f (rootOf u)) \<le> ihi (f h) - 1"
      using good_within [OF ga ua] spaced_in [OF sp(1), of "f (rootOf a)"] a(1) by auto
    then have "v \<noteq> ?t" using 1(5) sp(2) by (auto simp: intervalContains_iff)
    then obtain b where b: "b \<in> set ts" "v \<in> set (subs b)" using 1(4) by auto
    have vb: "rootOf v \<in> set (nodes b)" using b(2) by (auto simp: nodes_subs)
    have gb: "good f b" using 1(2) b(1) by simp
    have "a = b"
    proof (rule ccontr)
      assume "a \<noteq> b"
      then have "ihi (f (rootOf a)) \<le> ilo (f (rootOf b)) \<or> ihi (f (rootOf b)) \<le> ilo (f (rootOf a))"
        using spaced_disjoint [OF sp(1) a(1) b(1)] by simp
      then show False
        using good_within [OF ga ua] good_within [OF gb vb] 1(5) by (auto simp: intervalContains_iff)
    qed
    then show ?thesis using 1(1) [OF a(1) ga] a b 1(5) by simp
  qed
qed

text \<open>The queries on the tree answer as the tree says.\<close>

lemma tree_ancestor_correct:
  assumes "rep s t" and "good (ivl s) t" and "u \<in> set (subs t)" and "x \<in> set (nodes t)"
  shows "IsReachabilityTreeAncestorOf s (rootOf u) x = Inr (x \<in> set (nodes u))"
proof -
  obtain v where v: "v \<in> set (subs t)" "x = rootOf v" using assms(4) unfolding nodes_subs by blast
  have "rootOf u \<in> set (nodes t)" unfolding nodes_subs using assms(3) by (rule imageI)
  then have "present s (rootOf u)" "present s x" using rep_present [OF assms(1)] assms(4) by blast+
  then have "IsReachabilityTreeAncestorOf s (rootOf u) x = Inr (intervalContains (ivl s (rootOf u)) (ivl s x))"
    by (rule IsReachabilityTreeAncestorOf_present)
  moreover have "intervalContains (ivl s (rootOf u)) (ivl s x)" if "x \<in> set (nodes u)"
    using good_within [OF good_subs [OF assms(2,3)] that] by (simp add: intervalContains_iff)
  moreover have "x \<in> set (nodes u)" if "intervalContains (ivl s (rootOf u)) (ivl s x)"
    using contains_ancestor [OF assms(2,3) v(1)] that unfolding v(2) .
  ultimately show ?thesis by auto
qed

end
