(* ===== verification/Reach_Count.thy ===== *)
theory Reach_Count
  imports Reach_Shape
begin

text \<open>
  Counting subtrees: the queue based \<open>countSubtrees\<close> ends on every store that represents a
  tree and fills the cache with the size of every subtree below the node, as the recursive
  definition in its comment does, for any cache left by earlier calls.
\<close>

definition treeStore :: "reachStore \<Rightarrow> rtree \<Rightarrow> bool" where
  "treeStore s T \<longleftrightarrow> rep s T \<and> distinct (nodes T) \<and> tsize T < 2 ^ 64"

definition sizesOk :: "rtree \<Rightarrow> subTreeSizes \<Rightarrow> bool" where
  "sizesOk T cache \<longleftrightarrow> (\<forall>u\<in>set (subs T). \<forall>w. cache (rootOf u) = Some w \<longrightarrow>
     unat w = tsize u \<and> (\<forall>x\<in>set (nodes u). cache x \<noteq> None))"

lemma treeStoreD:
  assumes "treeStore s T" and "u \<in> set (subs T)"
  shows "rep s u" and "distinct (nodes u)" and "tsize u < 2 ^ 64"
    and "children s (rootOf u) = Inr (List.map rootOf (subtrees u))"
    and "v \<in> set (subtrees u) \<Longrightarrow> parent s (rootOf v) = Inr (Some (rootOf u))"
proof -
  show r: "rep s u" using assms rep_subs by (auto simp: treeStore_def)
  show d: "distinct (nodes u)" using assms distinct_subs by (auto simp: treeStore_def)
  have "set (nodes u) \<subseteq> set (nodes T)" using assms(2) by (rule subs_nodes)
  then have "card (set (nodes u)) \<le> card (set (nodes T))" by (intro card_mono) auto
  then show "tsize u < 2 ^ 64" using assms d by (simp add: treeStore_def distinct_card)
  show "children s (rootOf u) = Inr (List.map rootOf (subtrees u))" using rep_root [OF r] by simp
  show "v \<in> set (subtrees u) \<Longrightarrow> parent s (rootOf v) = Inr (Some (rootOf u))" using r by (rule rep_parent)
qed

lemma treeStore_unique:
  "treeStore s T \<Longrightarrow> u \<in> set (subs T) \<Longrightarrow> v \<in> set (subs T) \<Longrightarrow> rootOf u = rootOf v \<Longrightarrow> u = v"
  using subs_unique by (auto simp: treeStore_def)

lemma unique_parent:
  assumes "treeStore s T" and "v \<in> set (subs T)" and "v' \<in> set (subs T)" and "u \<in> set (subtrees v)" and "u \<in> set (subtrees v')"
  shows "v = v'"
  using treeStore_unique [OF assms(1-3)] treeStoreD(5) [OF assms(1,2,4)] treeStoreD(5) [OF assms(1,3,5)] by simp

lemma distinct_subtrees: "distinct (nodes v) \<Longrightarrow> distinct (subtrees v)"
  using distinct_roots [of "subtrees v"] by (cases v) (simp add: distinct_map)

lemma tsize_eq: "tsize v = Suc (\<Sum>u\<leftarrow>subtrees v. tsize u)"
  by (cases v) (simp add: length_concat comp_def)

lemma tsize_pos: "Suc 0 \<le> tsize v"
  by (cases v) simp

lemma length_le_sum_sizes: "length (subtrees v) \<le> (\<Sum>u\<leftarrow>subtrees v. tsize u)"
proof -
  have "(\<Sum>u\<leftarrow>subtrees v. 1) \<le> (\<Sum>u\<leftarrow>subtrees v. tsize u)"
    by (rule sum_list_mono) (simp add: tsize_pos)
  then show ?thesis by (simp add: sum_list_triv)
qed

section \<open>The state of a count\<close>

text \<open>
  While \<open>t\<close> is counted with the trees \<open>us\<close> still queued, a subtree is pending when it was taken
  from the queue and its size is not known yet. Its counter holds the number of children whose
  size is known.
\<close>

definition waiting :: "rtree list \<Rightarrow> DomainHash set" where
  "waiting us = set (concat (List.map nodes us))"

definition pending :: "rtree \<Rightarrow> rtree list \<Rightarrow> subTreeSizes \<Rightarrow> rtree set" where
  "pending t us cache = {v \<in> set (subs t). rootOf v \<notin> waiting us \<and> cache (rootOf v) = None}"

definition reported :: "rtree list \<Rightarrow> subTreeSizes \<Rightarrow> rtree \<Rightarrow> rtree set" where
  "reported us cache v = {c \<in> set (subtrees v). cache (rootOf c) \<noteq> None \<and> rootOf c \<notin> waiting us}"

definition queued :: "rtree \<Rightarrow> rtree \<Rightarrow> rtree list \<Rightarrow> (DomainHash \<Rightarrow> u64) \<Rightarrow> subTreeSizes \<Rightarrow> bool" where
  "queued T t us counts cache \<longleftrightarrow> set us \<subseteq> set (subs t) \<and> distinct (concat (List.map nodes us)) \<and> sizesOk T cache
     \<and> (\<forall>x\<in>waiting us. counts x = 0)
     \<and> (\<forall>u\<in>set us \<union> pending t us cache. u \<noteq> t \<longrightarrow> (\<exists>v\<in>pending t us cache. u \<in> set (subtrees v)))"

definition counting :: "rtree \<Rightarrow> rtree \<Rightarrow> rtree list \<Rightarrow> (DomainHash \<Rightarrow> u64) \<Rightarrow> subTreeSizes \<Rightarrow> bool" where
  "counting T t us counts cache \<longleftrightarrow> queued T t us counts cache
     \<and> (\<forall>v\<in>pending t us cache. unat (counts (rootOf v)) = card (reported us cache v)
          \<and> card (reported us cache v) < length (subtrees v))"

definition pushing :: "rtree \<Rightarrow> rtree \<Rightarrow> rtree list \<Rightarrow> (DomainHash \<Rightarrow> u64) \<Rightarrow> subTreeSizes \<Rightarrow> rtree \<Rightarrow> bool" where
  "pushing T t us counts cache u \<longleftrightarrow> queued T t us counts cache
     \<and> u \<in> set (subs t) \<and> cache (rootOf u) \<noteq> None \<and> rootOf u \<notin> waiting us
     \<and> (u \<noteq> t \<longrightarrow> (\<exists>v\<in>pending t us cache. u \<in> set (subtrees v)))
     \<and> (\<forall>v\<in>pending t us cache. unat (counts (rootOf v)) + of_bool (u \<in> set (subtrees v)) = card (reported us cache v)
          \<and> (u \<notin> set (subtrees v) \<longrightarrow> card (reported us cache v) < length (subtrees v)))"

lemma waiting_simps [simp]:
  "waiting [] = {}"
  "waiting (u # us) = set (nodes u) \<union> waiting us"
  "waiting (us @ vs) = waiting us \<union> waiting vs"
  by (auto simp: waiting_def)

lemma reported_all:
  assumes "distinct (subtrees v)" and "card (reported us cache v) = length (subtrees v)"
  shows "reported us cache v = set (subtrees v)"
  using assms by (intro card_subset_eq) (auto simp: reported_def distinct_card)

lemma finite_pending [simp]: "finite (pending t us cache)"
  by (simp add: pending_def)

lemma cachedSize_known:
  assumes "sizesOk T cache" and "u \<in> set (subs T)" and "cache (rootOf u) \<noteq> None"
  shows "unat (cachedSize cache (rootOf u)) = tsize u"
  using assms by (auto simp: sizesOk_def cachedSize_def)

lemma summed_size:
  assumes "treeStore s T" and "v \<in> set (subs T)" and "sizesOk T cache"
    and "\<And>c. c \<in> set (subtrees v) \<Longrightarrow> cache (rootOf c) \<noteq> None"
  shows "unat (foldl (\<lambda>sum child. sum + cachedSize cache child) 0 (List.map rootOf (subtrees v)) + 1) = tsize v"
proof -
  let ?sizes = "List.map (\<lambda>c. cachedSize cache (rootOf c)) (subtrees v)"
  have fold: "foldl (\<lambda>sum child. sum + cachedSize cache child) 0 (List.map rootOf (subtrees v)) = foldl (+) 0 ?sizes"
    by (simp add: foldl_map)
  have "(\<Sum>s\<leftarrow>?sizes. unat s) = (\<Sum>u\<leftarrow>subtrees v. tsize u)"
    using assms subs_child subs_trans
    by (auto simp: comp_def intro!: arg_cong [where f = sum_list] map_cong cachedSize_known [OF assms(3)])
  then have "unat (foldl (+) 0 ?sizes) + 1 = tsize v" "tsize v < 2 ^ 64"
    using unat_foldl_plus [of 0 ?sizes] treeStoreD(3) [OF assms(1,2)] tsize_eq [of v] by simp_all
  then show ?thesis unfolding fold by (simp add: unat_u64_add)
qed

lemma sizesOk_update:
  assumes "treeStore s T" and "v \<in> set (subs T)" and "sizesOk T cache" and "unat w = tsize v"
    and "\<And>c. c \<in> set (subtrees v) \<Longrightarrow> cache (rootOf c) \<noteq> None"
  shows "sizesOk T (cache(rootOf v \<mapsto> w))"
  unfolding sizesOk_def
proof (intro ballI allI impI)
  fix u w' assume u: "u \<in> set (subs T)" "(cache(rootOf v \<mapsto> w)) (rootOf u) = Some w'"
  show "unat w' = tsize u \<and> (\<forall>x\<in>set (nodes u). (cache(rootOf v \<mapsto> w)) x \<noteq> None)"
  proof (cases "rootOf u = rootOf v")
    case True
    then have "u = v" using treeStore_unique [OF assms(1) u(1) assms(2)] by simp
    moreover have "cache x \<noteq> None" if "c \<in> set (subtrees v)" "x \<in> set (nodes c)" for c x
    proof -
      have "c \<in> set (subs T)" using subs_trans [OF assms(2) subs_child [OF that(1)]] .
      then show ?thesis using assms(3) assms(5) [OF that(1)] that(2) unfolding sizesOk_def by blast
    qed
    ultimately show ?thesis using assms(4) u(2) True nodes_eq [of v] by auto
  next
    case False
    then show ?thesis using assms(3) u unfolding sizesOk_def by auto
  qed
qed

section \<open>Pushing sizes up\<close>

lemma pending_update:
  "pending t us (cache(rootOf v \<mapsto> w)) = {x \<in> pending t us cache. rootOf x \<noteq> rootOf v}"
  by (auto simp: pending_def)

lemma reported_update:
  assumes "treeStore s T" and "t \<in> set (subs T)" and "v \<in> pending t us cache" and "x \<in> set (subs t)"
  shows "reported us (cache(rootOf v \<mapsto> w)) x = reported us cache x \<union> {c \<in> set (subtrees x). c = v}"
proof -
  have "c = v" if "c \<in> set (subtrees x)" "rootOf c = rootOf v" for c
  proof -
    have "c \<in> set (subs T)" "v \<in> set (subs T)"
      using that assms subs_trans subs_child unfolding pending_def by blast+
    then show ?thesis using treeStore_unique [OF assms(1)] that(2) by blast
  qed
  then show ?thesis using assms(3) by (auto simp: reported_def pending_def)
qed

lemma card_reported_update:
  assumes "treeStore s T" and "t \<in> set (subs T)" and "v \<in> pending t us cache" and "x \<in> set (subs t)"
  shows "card (reported us (cache(rootOf v \<mapsto> w)) x) = card (reported us cache x) + of_bool (v \<in> set (subtrees x))"
proof -
  have "v \<notin> reported us cache x" using assms(3) by (auto simp: pending_def reported_def)
  moreover have "finite (reported us cache x)" by (simp add: reported_def)
  moreover have "{c \<in> set (subtrees x). c = v} = (if v \<in> set (subtrees x) then {v} else {})" by auto
  ultimately show ?thesis unfolding reported_update [OF assms] by simp
qed

lemma pushing_parent:
  assumes T: "treeStore s T" "t \<in> set (subs T)" and inv: "pushing T t us counts cache u"
    and v: "v \<in> pending t us cache" "u \<in> set (subtrees v)"
    and full: "card (reported us cache v) = length (subtrees v)"
  shows "pushing T t us (counts(rootOf v := c)) (cache(rootOf v \<mapsto>
      foldl (\<lambda>sum child. sum + cachedSize cache child) 0 (List.map rootOf (subtrees v)) + 1)) v"
proof -
  let ?w = "foldl (\<lambda>sum child. sum + cachedSize cache child) 0 (List.map rootOf (subtrees v)) + 1"
  have vt: "v \<in> set (subs t)" "rootOf v \<notin> waiting us" using v(1) by (auto simp: pending_def)
  then have vT: "v \<in> set (subs T)" using subs_trans T(2) by blast
  have all: "reported us cache v = set (subtrees v)"
    using reported_all [OF distinct_subtrees full] treeStoreD(2) [OF T(1) vT] by blast
  then have known: "cache (rootOf c) \<noteq> None" if "c \<in> set (subtrees v)" for c
    using that unfolding reported_def by blast
  have q: "queued T t us counts cache" using inv by (simp add: pushing_def)
  have other: "rootOf x \<noteq> rootOf v" if "x \<in> pending t us cache" "x \<noteq> v" for x
    using that treeStore_unique [OF T(1)] vT subs_trans [OF T(2)] by (auto simp: pending_def)
  have up: "\<exists>x\<in>pending t us (cache(rootOf v \<mapsto> ?w)). y \<in> set (subtrees x)"
    if "\<exists>x\<in>pending t us cache. y \<in> set (subtrees x)" "y \<notin> set (subtrees v)" for y
    using that other unfolding pending_update by blast
  have ok: "sizesOk T cache" using q by (simp add: queued_def)
  have "unat ?w = tsize v" using summed_size [OF T(1) vT ok] known by blast
  then have ok': "sizesOk T (cache(rootOf v \<mapsto> ?w))" using sizesOk_update [OF T(1) vT ok] known by blast
  have unq: "y \<notin> set (subtrees v)" if "y \<in> set us \<union> pending t us cache" for y
  proof
    assume "y \<in> set (subtrees v)"
    then have "cache (rootOf y) \<noteq> None \<and> rootOf y \<notin> waiting us" using all unfolding reported_def by blast
    then show False using that by (auto simp: waiting_def pending_def)
  qed
  have pend: "\<exists>x\<in>pending t us (cache(rootOf v \<mapsto> ?w)). y \<in> set (subtrees x)"
    if "y \<in> set us \<union> pending t us cache" "y \<noteq> t" for y
    using up unq that q unfolding queued_def by blast
  have sub: "pending t us (cache(rootOf v \<mapsto> ?w)) \<subseteq> pending t us cache" by (auto simp: pending_update)
  have q': "queued T t us (counts(rootOf v := c)) (cache(rootOf v \<mapsto> ?w))"
    using q vt(2) pend sub ok' unfolding queued_def by (auto simp: subset_iff)
  have "unat ((counts(rootOf v := c)) (rootOf x)) + of_bool (v \<in> set (subtrees x)) =
        card (reported us (cache(rootOf v \<mapsto> ?w)) x)
      \<and> (v \<notin> set (subtrees x) \<longrightarrow> card (reported us (cache(rootOf v \<mapsto> ?w)) x) < length (subtrees x))"
    if "x \<in> pending t us (cache(rootOf v \<mapsto> ?w))" for x
  proof -
    have x: "x \<in> pending t us cache" "rootOf x \<noteq> rootOf v" using that unfolding pending_update by auto
    then have "x \<in> set (subs t)" by (simp add: pending_def)
    note x = x this
    have "u \<notin> set (subtrees x)"
      using x(2) unique_parent [OF T(1) vT subs_trans [OF T(2) x(3)] v(2)] by blast
    then show ?thesis
      using inv x unfolding card_reported_update [OF T v(1) x(3)] pushing_def by auto
  qed
  then show ?thesis using q' vt pend v(1) unfolding pushing_def by auto
qed

lemma tsize_subs: "u \<in> set (subs t) \<Longrightarrow> tsize u \<le> tsize t"
proof (induction t rule: subs.induct)
  case (1 h ts)
  show ?case
  proof (cases "u = RNode h ts")
    case False
    then obtain a where a: "a \<in> set ts" "u \<in> set (subs a)" using 1(2) by auto
    then have "tsize u \<le> tsize a" using 1(1) by simp
    also have "\<dots> \<le> (\<Sum>t\<leftarrow>ts. tsize t)" using a(1) by (simp add: member_le_sum_list)
    finally show ?thesis using tsize_eq [of "RNode h ts"] by simp
  qed simp
qed

lemma child_smaller: "c \<in> set (subtrees v) \<Longrightarrow> tsize c < tsize v"
  using member_le_sum_list [of "tsize c" "List.map tsize (subtrees v)"] tsize_eq [of v] by simp

lemma root_no_child: "v \<in> set (subs t) \<Longrightarrow> t \<notin> set (subtrees v)"
  using tsize_subs [of v t] child_smaller [of t v] by auto

lemma pushUp_correct:
  assumes T: "treeStore s T" "t \<in> set (subs T)" and "pushing T t us counts cache u"
  shows "\<exists>counts' cache'. pushUp s (rootOf t) (rootOf u) counts cache = Some (Inr (counts', cache'))
    \<and> counting T t us counts' cache' \<and> cache \<subseteq>\<^sub>m cache'"
  using assms(3)
proof (induction "card (pending t us cache)" arbitrary: counts cache u rule: less_induct)
  case less
  have u: "u \<in> set (subs t)" using less.prems by (simp add: pushing_def)
  show ?case
  proof (cases "u = t")
    case True
    then have "t \<notin> set (subtrees v)" if "v \<in> pending t us cache" for v
      using that root_no_child by (auto simp: pending_def)
    then have "counting T t us counts cache"
      using less.prems True unfolding pushing_def counting_def by auto
    then show ?thesis using True by (subst pushUp.simps) (simp add: ret_def)
  next
    case False
    then have ne: "rootOf u \<noteq> rootOf t"
      using treeStore_unique [OF T(1)] subs_trans [OF T(2)] u by (metis subs_self)
    obtain v where v: "v \<in> pending t us cache" "u \<in> set (subtrees v)"
      using less.prems False unfolding pushing_def by blast
    have vT: "v \<in> set (subs T)" using v(1) subs_trans [OF T(2)] by (auto simp: pending_def)
    note D = treeStoreD [OF T(1) vT]
    have cnt: "unat (counts (rootOf v)) + 1 = card (reported us cache v)"
      using less.prems v unfolding pushing_def by auto
    have len: "card (reported us cache v) \<le> length (subtrees v)" "length (subtrees v) < 2 ^ 64"
    proof -
      have "card (reported us cache v) \<le> card (set (subtrees v))" by (rule card_mono) (auto simp: reported_def)
      then show "card (reported us cache v) \<le> length (subtrees v)" using card_length le_trans by blast
      show "length (subtrees v) < 2 ^ 64" using D(3) tsize_eq [of v] length_le_sum_sizes [of v] by simp
    qed
    then have unat: "unat (counts (rootOf v) + 1) = card (reported us cache v)"
      using cnt unat_u64_add [of "counts (rootOf v)" 1] by simp
    have full: "counts (rootOf v) + 1 = word_of_nat (length (subtrees v)) \<longleftrightarrow>
        card (reported us cache v) = length (subtrees v)"
      unfolding unat [symmetric] using len(2) by (auto simp: word_unat_eq_iff unat_of_nat)
    have step: "pushUp s (rootOf t) (rootOf u) counts cache =
       (if card (reported us cache v) \<noteq> length (subtrees v)
        then Some (Inr (counts(rootOf v := counts (rootOf v) + 1), cache))
        else pushUp s (rootOf t) (rootOf v) (counts(rootOf v := counts (rootOf v) + 1)) (cache(rootOf v \<mapsto>
            foldl (\<lambda>sum child. sum + cachedSize cache child) 0 (List.map rootOf (subtrees v)) + 1)))"
      using ne by (subst pushUp.simps) (simp add: D(4) D(5) [OF v(2)] full ret_def)
    show ?thesis
    proof (cases "card (reported us cache v) = length (subtrees v)")
      case True
      note p = pushing_parent [OF T less.prems v True, of "counts (rootOf v) + 1"]
      have "card (pending t us (cache(rootOf v \<mapsto>
          foldl (\<lambda>sum child. sum + cachedSize cache child) 0 (List.map rootOf (subtrees v)) + 1))) < card (pending t us cache)"
        unfolding pending_update using v(1) by (intro psubset_card_mono) auto
      moreover have "cache \<subseteq>\<^sub>m cache(rootOf v \<mapsto> w)" for w
        using v(1) by (auto simp: map_le_def pending_def)
      ultimately show ?thesis using less.hyps [OF _ p] True unfolding step by (fastforce intro: map_le_trans)
    next
      case False
      have "counting T t us (counts(rootOf v := counts (rootOf v) + 1)) cache"
        unfolding counting_def
      proof (intro conjI ballI)
        show "queued T t us (counts(rootOf v := counts (rootOf v) + 1)) cache"
          using less.prems v(1) by (auto simp: pushing_def queued_def pending_def)
        fix x assume x: "x \<in> pending t us cache"
        have "x = v \<or> rootOf x \<noteq> rootOf v \<and> u \<notin> set (subtrees x)"
          using x treeStore_unique [OF T(1) _ vT] unique_parent [OF T(1) _ vT _ v(2)] subs_trans [OF T(2)]
          by (auto simp: pending_def)
        then show "unat ((counts(rootOf v := counts (rootOf v) + 1)) (rootOf x)) = card (reported us cache x)"
          and "card (reported us cache x) < length (subtrees x)"
          using x unat False len less.prems unfolding pushing_def by auto
      qed
      then show ?thesis using False unfolding step by auto
    qed
  qed
qed

section \<open>The queue\<close>

lemma subs_parent: "c \<in> set (subs u) \<Longrightarrow> c = u \<or> (\<exists>w\<in>set (subs u). c \<in> set (subtrees w))"
proof (induction u rule: subs.induct)
  case (1 h ts)
  show ?case
  proof (cases "c = RNode h ts")
    case False
    then obtain a where a: "a \<in> set ts" "c \<in> set (subs a)" using 1(2) by auto
    have "a \<in> set (subtrees (RNode h ts))" "set (subs a) \<subseteq> set (subs (RNode h ts))" using a(1) by auto
    then show ?thesis using 1(1) [OF a(1,2)] subs_self by blast
  qed simp
qed

lemma no_pending:
  assumes T: "treeStore s T" "t \<in> set (subs T)" and "counting T t [] counts cache"
  shows "pending t [] cache = {}"
proof (rule ccontr)
  assume "pending t [] cache \<noteq> {}"
  then obtain v0 where "v0 \<in> pending t [] cache" by blast
  then obtain v where v: "v \<in> pending t [] cache" "\<And>x. x \<in> pending t [] cache \<Longrightarrow> tsize v \<le> tsize x"
    using ex_has_least_nat [of "\<lambda>v. v \<in> pending t [] cache" v0 tsize] by blast
  have "card (reported [] cache v) < length (subtrees v)" using assms v(1) by (simp add: counting_def)
  moreover have "distinct (subtrees v)"
    using v(1) subs_trans [OF T(2)] treeStoreD(2) [OF T(1)] distinct_subtrees by (simp add: pending_def)
  ultimately have "reported [] cache v \<noteq> set (subtrees v)" by (auto simp: distinct_card)
  then obtain c where c: "c \<in> set (subtrees v)" "c \<notin> reported [] cache v" unfolding reported_def by blast
  then have "c \<in> pending t [] cache"
    using v(1) subs_trans [of v t c] subs_child [OF c(1)] by (simp add: pending_def reported_def)
  then show False using v(2) [of c] child_smaller [OF c(1)] by simp
qed

lemma counting_expand:
  assumes T: "treeStore s T" "t \<in> set (subs T)" and inv: "counting T t (u # us) counts cache"
    and u: "subtrees u \<noteq> []" "cache (rootOf u) = None"
  shows "counting T t (us @ subtrees u) counts cache"
proof -
  have q: "queued T t (u # us) counts cache" using inv by (simp add: counting_def)
  have ut: "u \<in> set (subs t)" using q by (simp add: queued_def)
  then have uT: "u \<in> set (subs T)" using subs_trans [OF T(2)] by blast
  have d: "distinct (nodes u @ concat (List.map nodes us))" using q by (simp add: queued_def)
  then have du: "distinct (concat (List.map nodes (us @ subtrees u)))" and nu: "rootOf u \<notin> waiting (us @ subtrees u)"
    using nodes_eq [of u] by (auto simp: waiting_def)
  have w: "waiting (u # us) = insert (rootOf u) (waiting (us @ subtrees u))"
    using nodes_eq [of u] by (auto simp: waiting_def)
  have pend: "pending t (us @ subtrees u) cache = insert u (pending t (u # us) cache)"
    using treeStore_unique [OF T(1) _ uT] subs_trans [OF T(2)] ut nu u(2) unfolding pending_def w by auto
  have rep: "reported (us @ subtrees u) cache v = reported (u # us) cache v" for v
    using u(2) unfolding reported_def w by auto
  have "reported (us @ subtrees u) cache u = {}"
    by (auto simp: reported_def waiting_def)
  moreover have "counts (rootOf u) = 0" using q w by (simp add: queued_def)
  ultimately have "unat (counts (rootOf v)) = card (reported (us @ subtrees u) cache v)
      \<and> card (reported (us @ subtrees u) cache v) < length (subtrees v)"
    if "v \<in> pending t (us @ subtrees u) cache" for v
    using that inv u(1) unfolding pend counting_def rep by auto
  moreover have "queued T t (us @ subtrees u) counts cache"
    using q du w subs_trans [OF ut subs_child] unfolding queued_def pend by auto
  ultimately show ?thesis by (simp add: counting_def)
qed

lemma pushing_start:
  assumes T: "treeStore s T" "t \<in> set (subs T)" and inv: "counting T t (u # us) counts cache"
    and u: "subtrees u = [] \<or> cache (rootOf u) \<noteq> None"
  defines "cache1 \<equiv> (if subtrees u = [] then cache(rootOf u \<mapsto> 1) else cache)"
  shows "pushing T t us counts cache1 u"
proof -
  have q: "queued T t (u # us) counts cache" using inv by (simp add: counting_def)
  have ut: "u \<in> set (subs t)" using q by (simp add: queued_def)
  then have uT: "u \<in> set (subs T)" using subs_trans [OF T(2)] by blast
  have d: "distinct (nodes u @ concat (List.map nodes us))" using q by (simp add: queued_def)
  then have nu: "rootOf u \<notin> waiting us" using rootOf_in_nodes [of u] by (auto simp: waiting_def)
  have ok: "sizesOk T cache1"
    using q sizesOk_update [OF T(1) uT, of cache 1] tsize_eq [of u] by (auto simp: cache1_def queued_def)
  have known: "cache1 (rootOf u) \<noteq> None" using u by (auto simp: cache1_def)
  then have all: "cache1 x \<noteq> None" if "x \<in> set (nodes u)" for x
    using ok uT that unfolding sizesOk_def by blast
  have same: "cache1 x = cache x" if "x \<noteq> rootOf u" for x using that by (simp add: cache1_def)
  have "rootOf v \<notin> set (nodes u) \<and> cache (rootOf v) = None \<longleftrightarrow> cache1 (rootOf v) = None" for v
    using all [of "rootOf v"] same [of "rootOf v"] rootOf_in_nodes [of u] by metis
  then have pend: "pending t us cache1 = pending t (u # us) cache" unfolding pending_def by auto
  have card: "card (reported us cache1 v) = card (reported (u # us) cache v) + of_bool (u \<in> set (subtrees v))"
    if v: "v \<in> pending t (u # us) cache" for v
  proof -
    have vT: "v \<in> set (subs T)" using v subs_trans [OF T(2)] by (auto simp: pending_def)
    have "c = u" if cv: "c \<in> set (subtrees v)" "rootOf c \<in> set (nodes u)" for c
    proof (rule ccontr)
      assume "c \<noteq> u"
      obtain c' where c': "c' \<in> set (subs u)" "rootOf c' = rootOf c"
        using cv(2) unfolding nodes_subs by force
      have "c' = c"
        by (rule treeStore_unique [OF T(1) subs_trans [OF uT c'(1)] subs_trans [OF vT subs_child [OF cv(1)]] c'(2)])
      then obtain w where w: "w \<in> set (subs u)" "c \<in> set (subtrees w)"
        using subs_parent [OF c'(1)] \<open>c \<noteq> u\<close> by blast
      have "v = w" by (rule unique_parent [OF T(1) vT subs_trans [OF uT w(1)] cv(1) w(2)])
      then have "rootOf v \<in> set (nodes u)" unfolding nodes_subs using w(1) by (intro imageI) simp
      then have "rootOf v \<in> waiting (u # us)" by simp
      then show False using v by (simp add: pending_def)
    qed
    then have below: "rootOf c \<in> set (nodes u) \<longleftrightarrow> c = u" if "c \<in> set (subtrees v)" for c using that by auto
    have above: "cache1 (rootOf c) = cache (rootOf c)" if "rootOf c \<notin> set (nodes u)" for c
      using that rootOf_in_nodes [of u] by (intro same) auto
    have "c \<in> reported us cache1 v \<longleftrightarrow> c \<in> reported (u # us) cache v \<union> (if u \<in> set (subtrees v) then {u} else {})" for c
      using known nu below [of c] above [of c]
      by (cases "c = u"; cases "cache (rootOf c)") (auto simp: reported_def)
    then have "reported us cache1 v = reported (u # us) cache v \<union> (if u \<in> set (subtrees v) then {u} else {})"
      by blast
    moreover have "u \<notin> reported (u # us) cache v" "finite (reported (u # us) cache v)"
      by (auto simp: reported_def)
    ultimately show ?thesis by simp
  qed
  have "queued T t us counts cache1" using q ok unfolding queued_def pend by auto
  moreover have "u \<noteq> t \<longrightarrow> (\<exists>v\<in>pending t (u # us) cache. u \<in> set (subtrees v))"
    using q unfolding queued_def by simp
  moreover have "unat (counts (rootOf v)) = card (reported (u # us) cache v)
      \<and> card (reported (u # us) cache v) < length (subtrees v)" if "v \<in> pending t (u # us) cache" for v
    using inv that by (simp add: counting_def)
  ultimately show ?thesis
    using ut known nu card unfolding pushing_def pend by simp
qed

section \<open>Correctness\<close>

lemma leaf_update:
  assumes "treeStore s T" and "sizesOk T cache" and "u \<in> set (subs T)"
  shows "cache \<subseteq>\<^sub>m (if subtrees u = [] then cache(rootOf u \<mapsto> 1) else cache)"
proof -
  have "cache (rootOf u) = None \<or> cache (rootOf u) = Some 1" if "subtrees u = []"
  proof (cases "cache (rootOf u)")
    case (Some w)
    then have "unat w = 1" using assms(2,3) that tsize_eq [of u] by (auto simp: sizesOk_def)
    then show ?thesis using Some by (simp add: word_unat_eq_iff)
  qed simp
  then show ?thesis by (auto simp: map_le_def)
qed

lemma countLoop_correct:
  assumes T: "treeStore s T" "t \<in> set (subs T)" and "counting T t us counts cache"
  shows "\<exists>cache'. countLoop s (rootOf t) (List.map rootOf us) counts cache = Some (Inr cache')
    \<and> sizesOk T cache' \<and> cache \<subseteq>\<^sub>m cache' \<and> cache' (rootOf t) \<noteq> None"
  using assms(3)
proof (induction "length (concat (List.map nodes us))" arbitrary: us counts cache rule: less_induct)
  case less
  have ok: "sizesOk T cache" using less.prems by (simp add: counting_def queued_def)
  show ?case
  proof (cases us)
    case Nil
    then have "t \<notin> pending t [] cache" using no_pending [OF T] less.prems by blast
    then have "cache (rootOf t) \<noteq> None" by (simp add: pending_def)
    then show ?thesis using Nil ok by (subst countLoop.simps) (simp add: ret_def)
  next
    case (Cons u us')
    then have "u \<in> set (subs t)" using less.prems by (simp add: counting_def queued_def)
    then have uT: "u \<in> set (subs T)" using subs_trans [OF T(2)] by blast
    then have D: "children s (rootOf u) = Inr (List.map rootOf (subtrees u))" by (rule treeStoreD(4) [OF T(1)])
    note inv = less.prems [unfolded Cons]
    show ?thesis
    proof (cases "subtrees u \<noteq> [] \<and> cache (rootOf u) = None")
      case True
      have "countLoop s (rootOf t) (List.map rootOf us) counts cache =
          countLoop s (rootOf t) (List.map rootOf (us' @ subtrees u)) counts cache"
        unfolding Cons by (subst countLoop.simps) (simp add: D True)
      moreover have "length (concat (List.map nodes (us' @ subtrees u))) < length (concat (List.map nodes us))"
        using tsize_eq [of u] unfolding Cons by (simp add: length_concat comp_def)
      moreover have "counting T t (us' @ subtrees u) counts cache" using counting_expand [OF T inv] True by simp
      ultimately show ?thesis using less.hyps [of "us' @ subtrees u" counts cache] by simp
    next
      case False
      let ?cache1 = "if subtrees u = [] then cache(rootOf u \<mapsto> 1) else cache"
      have "pushing T t us' counts ?cache1 u" using pushing_start [OF T inv] False by argo
      then obtain counts2 cache2 where p: "pushUp s (rootOf t) (rootOf u) counts ?cache1 = Some (Inr (counts2, cache2))"
        "counting T t us' counts2 cache2" "?cache1 \<subseteq>\<^sub>m cache2"
        using pushUp_correct [OF T] by blast
      have "countLoop s (rootOf t) (List.map rootOf us) counts cache =
          countLoop s (rootOf t) (List.map rootOf us') counts2 cache2"
        using False p(1) unfolding Cons by (subst countLoop.simps) (auto simp add: D)
      moreover have "length (concat (List.map nodes us')) < length (concat (List.map nodes us))"
        using tsize_pos [of u] unfolding Cons by (cases u) simp
      moreover have "cache \<subseteq>\<^sub>m cache2" using map_le_trans [OF leaf_update [OF T(1) ok uT] p(3)] .
      ultimately show ?thesis using less.hyps [OF _ p(2)] by (fastforce intro: map_le_trans)
    qed
  qed
qed

lemma countSubtrees_correct:
  assumes T: "treeStore s T" "t \<in> set (subs T)" and ok: "sizesOk T cache"
  shows "\<exists>cache'. countSubtrees s (rootOf t) cache = Some (Inr cache') \<and> sizesOk T cache' \<and> cache \<subseteq>\<^sub>m cache'
    \<and> (\<forall>x\<in>set (nodes t). cache' x \<noteq> None)"
proof (cases "cache (rootOf t) = None")
  case True
  have "pending t [t] cache = {}" by (auto simp: pending_def nodes_subs)
  then have "counting T t [t] (\<lambda>_. 0) cache"
    using ok treeStoreD(2) [OF T] by (simp add: counting_def queued_def)
  then obtain cache' where c: "countLoop s (rootOf t) [rootOf t] (\<lambda>_. 0) cache = Some (Inr cache')"
    "sizesOk T cache'" "cache \<subseteq>\<^sub>m cache'" "cache' (rootOf t) \<noteq> None"
    using countLoop_correct [OF T, of "[t]" "\<lambda>_. 0" cache] by auto
  then have "\<forall>x\<in>set (nodes t). cache' x \<noteq> None" using T(2) unfolding sizesOk_def by blast
  then show ?thesis using True c by (simp add: countSubtrees_def)
next
  case False
  then have "\<forall>x\<in>set (nodes t). cache x \<noteq> None" using T(2) ok unfolding sizesOk_def by blast
  then show ?thesis using False ok by (simp add: countSubtrees_def ret_def)
qed

end
