(* ===== verification/Reach_Propagate.thy ===== *)
theory Reach_Propagate
  imports Reach_Count
begin

text \<open>
  Propagating an interval: when the interval of a node is at least as large as its subtree,
  \<open>propagateInterval\<close> ends without error, gives every node below a fitting interval and
  changes nothing else.
\<close>

lemma stageIntervals_correct:
  assumes "distinct cs" and "length rs = length cs" and "\<forall>c\<in>set cs. present s c"
  shows "\<exists>s'. stageIntervals s cs rs = Inr s' \<and> sameShape s s' \<and> List.map (ivl s') cs = rs
    \<and> (\<forall>x. x \<notin> set cs \<longrightarrow> ivl s' x = ivl s x)"
  using assms
proof (induction s cs rs rule: stageIntervals.induct)
  case (3 s c cs r rs)
  obtain s1 where s1: "stageInterval s c r = Inr s1" "sameShape s s1" "ivl s1 = (ivl s)(c := r)"
    using stageInterval_present [of s c r] 3(4) by auto
  have "\<forall>c\<in>set cs. present s1 c" using 3(4) s1(2) by (simp add: sameShape_def)
  then obtain s2 where "stageIntervals s1 cs rs = Inr s2" "sameShape s1 s2" "List.map (ivl s2) cs = rs"
    "\<forall>x. x \<notin> set cs \<longrightarrow> ivl s2 x = ivl s1 x"
    using 3(1) [OF s1(1)] 3(2,3) by auto
  then show ?case using s1 3(2) sameShape_trans by auto
qed auto

definition below :: "rtree list \<Rightarrow> DomainHash set" where
  "below us = (\<Union>u\<in>set us. set (concat (List.map nodes (subtrees u))))"

lemma below_simps [simp]:
  "below [] = {}"
  "below (u # us) = set (concat (List.map nodes (subtrees u))) \<union> below us"
  "below (us @ vs) = below us \<union> below vs"
  by (auto simp: below_def)

lemma below_waiting: "below us \<subseteq> waiting us"
proof -
  have "set (concat (List.map nodes (subtrees u))) \<subseteq> set (nodes u)" for u by (cases u) auto
  then show ?thesis by (fastforce simp: below_def waiting_def)
qed

lemma below_subtrees: "below (subtrees u) \<subseteq> set (concat (List.map nodes (subtrees u)))"
  using below_waiting [of "subtrees u"] by (simp add: waiting_def)

lemma roots_not_below:
  assumes "distinct (concat (List.map nodes us))" and "u \<in> set us"
  shows "rootOf u \<notin> below us"
  using assms
proof (induction us)
  case (Cons v us)
  have w: "set (nodes v) \<inter> waiting us = {}" using Cons.prems by (auto simp: waiting_def)
  have b: "below us \<subseteq> waiting us" by (rule below_waiting)
  show ?case
  proof (cases "u = v")
    case True
    have "rootOf v \<notin> set (concat (List.map nodes (subtrees v)))" using Cons.prems(1) by (cases v) auto
    moreover have "rootOf v \<notin> below us" using w b by (cases v) auto
    ultimately show ?thesis using True by simp
  next
    case False
    then have u: "u \<in> set us" using Cons.prems by simp
    then have "rootOf u \<in> waiting us" using rootOf_in_nodes [of u] by (fastforce simp: waiting_def)
    then have "rootOf u \<notin> set (nodes v)" using w by blast
    then have "rootOf u \<notin> set (concat (List.map nodes (subtrees v)))" by (cases v) auto
    then show ?thesis using Cons.IH Cons.prems u by simp
  qed
qed simp

lemma child_range:
  assumes "regular r" and "ilo r < ihi r"
  shows "ilo (newReachabilityInterval (Start r) (End r - 1)) = ilo r"
    and "ihi (newReachabilityInterval (Start r) (End r - 1)) = ihi r - 1"
    and "regular (newReachabilityInterval (Start r) (End r - 1))"
proof -
  have "1 \<le> unat (End r)" using assms by (auto simp: regular_def ilo_def ihi_def)
  then have "unat (End r - 1) = unat (End r) - 1" by (simp add: unat_u64_diff)
  then show "ilo (newReachabilityInterval (Start r) (End r - 1)) = ilo r"
    and "ihi (newReachabilityInterval (Start r) (End r - 1)) = ihi r - 1"
    and "regular (newReachabilityInterval (Start r) (End r - 1))"
    using assms \<open>1 \<le> unat (End r)\<close> by (auto simp: regular_def ilo_def ihi_def)
qed

lemma tiles_regular: "tiles a rs b \<Longrightarrow> 0 < a \<Longrightarrow> b < 2 ^ 64 \<Longrightarrow> r \<in> set rs \<Longrightarrow> regular r"
  by (induction rs arbitrary: a) (auto simp: regular_def dest: tiles_le)

definition roomy :: "(DomainHash \<Rightarrow> ReachabilityInterval) \<Rightarrow> rtree \<Rightarrow> bool" where
  "roomy f u \<longleftrightarrow> regular (f (rootOf u)) \<and> tsize u \<le> ilen (f (rootOf u))"

lemma roomy_nonempty: "roomy f u \<Longrightarrow> ilo (f (rootOf u)) < ihi (f (rootOf u))"
  using tsize_pos [of u] by (auto simp: roomy_def ilen_def)

lemma treeStore_sameShape: "sameShape s s' \<Longrightarrow> treeStore s T \<Longrightarrow> treeStore s' T"
  by (simp add: treeStore_def rep_sameShape)

lemma propagate_children:
  assumes T: "treeStore s T" "u \<in> set (subs T)" and c: "sizesOk T cache" "\<forall>x\<in>set (nodes u). cache x \<noteq> None"
    and r: "roomy (ivl s) u" and ne: "subtrees u \<noteq> []"
  shows "\<exists>ri rs s'. intervalRangeForChildAllocation s (rootOf u) = Inr ri
    \<and> intervalSplitWithExponentialBias f ri (List.map (cachedSize cache) (List.map rootOf (subtrees u))) = Inr rs
    \<and> stageIntervals s (List.map rootOf (subtrees u)) rs = Inr s' \<and> sameShape s s'
    \<and> List.map (\<lambda>v. ivl s' (rootOf v)) (subtrees u) = rs
    \<and> spaced (ilo (ivl s (rootOf u))) rs (ihi (ivl s (rootOf u)) - 1)
    \<and> (\<forall>v\<in>set (subtrees u). roomy (ivl s') v)
    \<and> (\<forall>x. x \<notin> rootOf ` set (subtrees u) \<longrightarrow> ivl s' x = ivl s x)"
proof -
  let ?r = "ivl s (rootOf u)"
  let ?ri = "newReachabilityInterval (Start ?r) (End ?r - 1)"
  let ?sizes = "List.map (cachedSize cache) (List.map rootOf (subtrees u))"
  have child: "v \<in> set (subs T)" "set (nodes v) \<subseteq> set (nodes u)" if "v \<in> set (subtrees u)" for v
    using that subs_trans [OF T(2) subs_child] subs_nodes [OF subs_child] by blast+
  have reg: "regular ?r" "ilo ?r < ihi ?r" using r roomy_nonempty by (auto simp: roomy_def)
  note cr = child_range [OF reg]
  have unat: "unat (cachedSize cache (rootOf v)) = tsize v" if "v \<in> set (subtrees u)" for v
    using cachedSize_known [OF c(1) child(1) [OF that]] c(2) child(2) [OF that] by auto
  have "(\<Sum>s\<leftarrow>?sizes. unat s) = (\<Sum>v\<leftarrow>subtrees u. tsize v)"
    using unat by (auto simp: comp_def intro!: arg_cong [where f = sum_list])
  then have "(\<Sum>s\<leftarrow>?sizes. unat s) \<le> ilen ?ri"
    using r tsize_eq [of u] unfolding roomy_def ilen_def cr by linarith
  then obtain rs where rs: "intervalSplitWithExponentialBias f ?ri ?sizes = Inr rs"
    "tiles (ilo ?ri) rs (ihi ?ri)" "list_all2 (\<lambda>s q. unat s \<le> ilen q) ?sizes rs"
    using split_tiles [OF cr(3), of ?sizes] ne by auto
  have d: "distinct (List.map rootOf (subtrees u))"
    using treeStoreD(2) [OF T] distinct_roots [of "subtrees u"] by (cases u) simp
  have pr: "\<forall>c\<in>set (List.map rootOf (subtrees u)). present s c"
    using rep_root treeStoreD(1) [OF T(1) child(1)] by auto
  have "length rs = length (List.map rootOf (subtrees u))" using rs(3) by (simp add: list_all2_iff)
  then obtain s' where s': "stageIntervals s (List.map rootOf (subtrees u)) rs = Inr s'" "sameShape s s'"
    "List.map (ivl s') (List.map rootOf (subtrees u)) = rs" "\<forall>x. x \<notin> rootOf ` set (subtrees u) \<longrightarrow> ivl s' x = ivl s x"
    using stageIntervals_correct [OF d _ pr] by auto
  have "roomy (ivl s') v" if v: "v \<in> set (subtrees u)" for v
  proof -
    have "list_all2 (\<lambda>v q. q = ivl s' (rootOf v) \<and> tsize v \<le> ilen q) (subtrees u) rs"
      using rs(3) s'(3) unat by (auto simp: list_all2_conv_all_nth)
    then have "tsize v \<le> ilen (ivl s' (rootOf v)) \<and> ivl s' (rootOf v) \<in> set rs"
      using v by (fastforce simp: list_all2_conv_all_nth in_set_conv_nth)
    moreover have "0 < ilo ?ri" "ihi ?ri < 2 ^ 64" using cr(3) by (auto simp: regular_def)
    ultimately show ?thesis using tiles_regular [OF rs(2)] by (simp add: roomy_def)
  qed
  moreover have "intervalRangeForChildAllocation s (rootOf u) = Inr ?ri"
    using rep_root [OF treeStoreD(1) [OF T]] by (simp add: intervalRangeForChildAllocation_def fetchInterval_present)
  moreover have "spaced (ilo ?r) rs (ihi ?r - 1)" using tiles_spaced [OF rs(2)] cr by simp
  ultimately show ?thesis using rs(1) s' by (auto simp: comp_def)
qed

lemma propagateLoop_correct:
  assumes "treeStore s T" and "set us \<subseteq> set (subs T)" and "distinct (concat (List.map nodes us))"
    and "sizesOk T cache" and "\<forall>x\<in>waiting us. cache x \<noteq> None" and "\<forall>u\<in>set us. roomy (ivl s) u"
  shows "\<exists>s'. propagateLoop rt cache (List.map rootOf us) s = Some (Inr s') \<and> sameShape s s'
    \<and> (\<forall>u\<in>set us. good (ivl s') u) \<and> (\<forall>x. x \<notin> below us \<longrightarrow> ivl s' x = ivl s x)"
  using assms
proof (induction "length (concat (List.map nodes us))" arbitrary: us s rule: less_induct)
  case less
  show ?case
  proof (cases us)
    case Nil
    then show ?thesis by (subst propagateLoop.simps) (simp add: ret_def)
  next
    case (Cons u us')
    have uT: "u \<in> set (subs T)" and roomy: "roomy (ivl s) u" using less.prems Cons by auto
    have dis: "distinct (nodes u @ concat (List.map nodes us'))" using less.prems(3) Cons by simp
    have ch: "children s (rootOf u) = Inr (List.map rootOf (subtrees u))" by (rule treeStoreD(4) [OF less.prems(1) uT])
    have ih: "\<exists>s'. propagateLoop rt cache (List.map rootOf (us' @ subtrees u)) s1 = Some (Inr s') \<and> sameShape s1 s'
      \<and> (\<forall>v\<in>set (us' @ subtrees u). good (ivl s') v) \<and> (\<forall>x. x \<notin> below (us' @ subtrees u) \<longrightarrow> ivl s' x = ivl s1 x)"
      if s1: "sameShape s s1" "\<forall>v\<in>set (us' @ subtrees u). roomy (ivl s1) v" for s1
    proof (rule less.hyps)
      show "length (concat (List.map nodes (us' @ subtrees u))) < length (concat (List.map nodes us))"
        using tsize_eq [of u] Cons by (simp add: length_concat comp_def)
      show "treeStore s1 T" using treeStore_sameShape [OF s1(1)] less.prems(1) .
      show "set (us' @ subtrees u) \<subseteq> set (subs T)" using less.prems(2) subs_trans [OF uT subs_child] Cons by auto
      show "distinct (concat (List.map nodes (us' @ subtrees u)))" using dis by (cases u) auto
      show "\<forall>x\<in>waiting (us' @ subtrees u). cache x \<noteq> None"
        using less.prems(5) Cons by (cases u) (auto simp: waiting_def)
    qed (use less.prems(4) s1(2) in auto)
    show ?thesis
    proof (cases "subtrees u = []")
      case True
      then obtain s' where s': "propagateLoop rt cache (List.map rootOf us') s = Some (Inr s')" "sameShape s s'"
        "\<forall>v\<in>set us'. good (ivl s') v" "\<forall>x. x \<notin> below us' \<longrightarrow> ivl s' x = ivl s x"
        using ih [of s] less.prems(6) Cons by auto
      have "rootOf u \<notin> below us'" using roots_not_below [OF less.prems(3), of u] Cons by simp
      then have "good (ivl s') u"
        using roomy roomy_nonempty [OF roomy] s'(4) True by (cases u) (auto simp: roomy_def)
      then show ?thesis using s' ch True Cons by (subst propagateLoop.simps) simp
    next
      case False
      have known: "\<forall>x\<in>set (nodes u). cache x \<noteq> None" using less.prems(5) Cons by simp
      obtain ri rs s1 where p: "intervalRangeForChildAllocation s (rootOf u) = Inr ri"
        "intervalSplitWithExponentialBias (floatOutOfRange rt) ri (List.map (cachedSize cache) (List.map rootOf (subtrees u))) = Inr rs"
        "stageIntervals s (List.map rootOf (subtrees u)) rs = Inr s1" "sameShape s s1"
        "List.map (\<lambda>v. ivl s1 (rootOf v)) (subtrees u) = rs"
        "spaced (ilo (ivl s (rootOf u))) rs (ihi (ivl s (rootOf u)) - 1)"
        "\<forall>v\<in>set (subtrees u). roomy (ivl s1) v" "\<forall>x. x \<notin> rootOf ` set (subtrees u) \<longrightarrow> ivl s1 x = ivl s x"
        using propagate_children [OF less.prems(1) uT less.prems(4) known roomy False, of "floatOutOfRange rt"] by blast
      let ?vs = "us' @ subtrees u"
      have R: "rootOf ` set (subtrees u) \<subseteq> below us"
      proof -
        have "rootOf v \<in> set (concat (List.map nodes (subtrees u)))" if "v \<in> set (subtrees u)" for v
          using that by (simp, blast)
        then show ?thesis unfolding Cons by auto
      qed
      have sub: "below ?vs \<subseteq> below us" using below_subtrees [of u] Cons by auto
      have "distinct (concat (List.map nodes ?vs))" using dis by (cases u) auto
      note fresh = roots_not_below [OF this]
      have root: "rootOf v \<notin> below us" if "v \<in> set us" for v using roots_not_below [OF less.prems(3) that] .
      then have "\<forall>v\<in>set us. ivl s1 (rootOf v) = ivl s (rootOf v)" using p(8) R by blast
      then have "\<forall>v\<in>set ?vs. roomy (ivl s1) v" using less.prems(6) p(7) Cons by (auto simp: roomy_def)
      then obtain s' where s': "propagateLoop rt cache (List.map rootOf ?vs) s1 = Some (Inr s')" "sameShape s1 s'"
        "\<forall>v\<in>set ?vs. good (ivl s') v" "\<forall>x. x \<notin> below ?vs \<longrightarrow> ivl s' x = ivl s1 x"
        using ih [OF p(4)] by blast
      have frame: "\<forall>x. x \<notin> below us \<longrightarrow> ivl s' x = ivl s x"
      proof (intro allI impI)
        fix x assume "x \<notin> below us"
        then have "x \<notin> below ?vs" "x \<notin> rootOf ` set (subtrees u)" using R sub by blast+
        then show "ivl s' x = ivl s x" using s'(4) p(8) by metis
      qed
      have "List.map (\<lambda>v. ivl s' (rootOf v)) (subtrees u) = rs"
        unfolding p(5) [symmetric]
      proof (rule map_cong [OF refl])
        fix v assume "v \<in> set (subtrees u)"
        then have "rootOf v \<notin> below ?vs" by (intro fresh) simp
        then show "ivl s' (rootOf v) = ivl s1 (rootOf v)" using s'(4) by blast
      qed
      then have "good (ivl s') u"
        using roomy roomy_nonempty [OF roomy] p(6) s'(3) frame root [of u] Cons
        by (cases u) (auto simp: roomy_def)
      moreover have "propagateLoop rt cache (List.map rootOf us) s = propagateLoop rt cache (List.map rootOf ?vs) s1"
        using ch False p(1-3) Cons by (subst propagateLoop.simps) simp
      ultimately show ?thesis using s' frame sameShape_trans [OF p(4) s'(2)] Cons by auto
    qed
  qed
qed

lemma propagateInterval_correct:
  assumes T: "treeStore s T" "u \<in> set (subs T)" and ok: "sizesOk T cache" and "roomy (ivl s) u"
  shows "\<exists>cache' s'. propagateInterval rt (rootOf u) cache s = Some (Inr (cache', s')) \<and> sizesOk T cache' \<and> sameShape s s'
    \<and> good (ivl s') u \<and> (\<forall>x. x \<notin> set (concat (List.map nodes (subtrees u))) \<longrightarrow> ivl s' x = ivl s x)"
proof -
  obtain cache' where c: "countSubtrees s (rootOf u) cache = Some (Inr cache')" "sizesOk T cache'"
    "\<forall>x\<in>set (nodes u). cache' x \<noteq> None"
    using countSubtrees_correct [OF T ok] by blast
  then obtain s' where "propagateLoop rt cache' [rootOf u] s = Some (Inr s')" "sameShape s s'" "good (ivl s') u"
    "\<forall>x. x \<notin> below [u] \<longrightarrow> ivl s' x = ivl s x"
    using propagateLoop_correct [OF T(1), of "[u]" cache' rt] T assms(4) treeStoreD(2) [OF T] by auto
  then show ?thesis using c by (simp add: propagateInterval_def ret_def)
qed

end
