(* ===== verification/Reach_Fits.thy ===== *)
theory Reach_Fits
  imports Reach_Propagate
begin

text \<open>
  Trees whose intervals fit except inside one subtree, which is what the reindexing
  operations work on: the subtree of the exempt node may have an interval that is too small.
  The binary search over the children of a node and \<open>FindNextAncestor\<close> are correct on such
  trees, and replacing the intervals of one subtree keeps the tree fitting when the new
  interval of its root stays between its neighbours.
\<close>

fun fits :: "DomainHash \<Rightarrow> (DomainHash \<Rightarrow> ReachabilityInterval) \<Rightarrow> rtree \<Rightarrow> bool" where
  "fits n f (RNode h ts) \<longleftrightarrow> regular (f h) \<and> (h \<noteq> n \<longrightarrow> ilo (f h) < ihi (f h)
     \<and> spaced (ilo (f h)) (List.map (\<lambda>t. f (rootOf t)) ts) (ihi (f h) - 1) \<and> (\<forall>t\<in>set ts. fits n f t))"

lemma fits_cong: "(\<And>x. x \<in> set (nodes t) \<Longrightarrow> f x = g x) \<Longrightarrow> fits n f t = fits n g t"
proof (induction t rule: nodes.induct)
  case (1 h ts)
  have "fits n f t = fits n g t" if "t \<in> set ts" for t
    by (rule 1(1) [OF that], rule 1(2)) (use that in auto)
  moreover have maps: "List.map (\<lambda>t. f (rootOf t)) ts = List.map (\<lambda>t. g (rootOf t)) ts"
  proof (rule map_cong [OF refl])
    show "f (rootOf t) = g (rootOf t)" if "t \<in> set ts" for t
      by (rule 1(2)) (use that in \<open>simp, blast\<close>)
  qed
  moreover have "f h = g h" by (rule 1(2)) simp
  ultimately show ?case unfolding fits.simps maps by simp
qed

lemma fits_good: "n \<notin> set (nodes t) \<Longrightarrow> fits n f t = good f t"
  by (induction t rule: nodes.induct) auto

lemma good_fits: "good f t \<Longrightarrow> fits n f t"
  by (induction t rule: nodes.induct) auto

lemma fits_root: "fits n f t \<Longrightarrow> regular (f (rootOf t))"
  by (cases t) simp

lemma fits_nonempty: "fits n f t \<Longrightarrow> rootOf t \<noteq> n \<Longrightarrow> ilo (f (rootOf t)) < ihi (f (rootOf t))"
  by (cases t) simp

lemma fits_spaced:
  "fits n f t \<Longrightarrow> rootOf t \<noteq> n \<Longrightarrow>
    spaced (ilo (f (rootOf t))) (List.map (\<lambda>t. f (rootOf t)) (subtrees t)) (ihi (f (rootOf t)) - 1)"
  by (cases t) simp

lemma fits_child: "fits n f t \<Longrightarrow> rootOf t \<noteq> n \<Longrightarrow> c \<in> set (subtrees t) \<Longrightarrow> fits n f c"
  by (cases t) simp

lemma fits_restore:
  assumes "fits n f t" and "\<And>u. u \<in> set (subs t) \<Longrightarrow> rootOf u = n \<Longrightarrow> good f u"
  shows "good f t"
  using assms
proof (induction t rule: nodes.induct)
  case (1 h ts)
  show ?case
  proof (cases "h = n")
    case True
    then show ?thesis using 1(3) [of "RNode h ts"] by simp
  next
    case False
    have "good f t" if "t \<in> set ts" for t
      using that 1(2) False by (intro 1(1) [OF that] 1(3)) auto
    then show ?thesis using 1(2) False by simp
  qed
qed

section \<open>Replacing the intervals of a subtree\<close>

lemma siblings_apart:
  "distinct (concat (List.map nodes ts)) \<Longrightarrow> c \<in> set ts \<Longrightarrow> d \<in> set ts \<Longrightarrow> c \<noteq> d \<Longrightarrow> set (nodes c) \<inter> set (nodes d) = {}"
  by (induction ts) auto

lemma root_not_inside:
  assumes "distinct (nodes a)" and "y \<in> set (subs a)" and "b \<in> set (subtrees y)"
  shows "rootOf a \<notin> set (nodes b)"
proof
  assume "rootOf a \<in> set (nodes b)"
  then obtain a' where a': "a' \<in> set (subs b)" "rootOf a = rootOf a'" unfolding nodes_subs by blast
  then have "a' \<in> set (subs a)" using assms subs_trans subs_child by blast
  then have "a' = a" using subs_unique [OF assms(1) _ subs_self] a'(2) by simp
  then show False using tsize_subs [OF a'(1)] child_smaller [OF assms(3)] tsize_subs [OF assms(2)] by simp
qed

lemma fits_update:
  assumes "distinct (nodes t)" and "y \<in> set (subs t)" and "b \<in> set (subtrees y)"
    and "fits n f t" and "\<And>x. x \<notin> set (nodes b) \<Longrightarrow> f' x = f x" and "fits n f' b"
    and "spaced (ilo (f (rootOf y))) (List.map (\<lambda>c. f' (rootOf c)) (subtrees y)) (ihi (f (rootOf y)) - 1)"
  shows "fits n f' t"
  using assms
proof (induction t rule: nodes.induct)
  case (1 h ts)
  have same: "fits n f' c" if "c \<in> set ts" "set (nodes c) \<inter> set (nodes b) = {}" "h \<noteq> n" for c
  proof -
    have "fits n f c" using 1(5) that by simp
    then show ?thesis using fits_cong [of c f' f n] 1(6) that(2) by blast
  qed
  have "distinct (concat (List.map nodes ts))" using 1(2) by simp
  note apart = siblings_apart [OF this]
  have "h \<notin> set (nodes b)" using root_not_inside [OF 1(2,3,4)] by simp
  then have fh: "f' h = f h" using 1(6) by blast
  show ?case
  proof (cases "y = RNode h ts")
    case True
    then have b: "b \<in> set ts" using 1(4) by simp
    have "fits n f' c" if "c \<in> set ts" "h \<noteq> n" for c
      using that same [OF that(1) apart [OF that(1) b] that(2)] 1(7) by (cases "c = b") auto
    then show ?thesis using 1(5,8) True fh by auto
  next
    case False
    then obtain a where a: "a \<in> set ts" "y \<in> set (subs a)" using 1(3) by auto
    have ba: "set (nodes b) \<subseteq> set (nodes a)"
      using subs_nodes [OF subs_child [OF 1(4)]] subs_nodes [OF a(2)] by blast
    have root: "rootOf c \<notin> set (nodes b)" if "c \<in> set ts" for c
    proof (cases "c = a")
      case True
      have "distinct (nodes a)" using 1(2) a(1) by (auto simp: distinct_concat_iff)
      then show ?thesis using root_not_inside [OF _ a(2) 1(4)] True by simp
    next
      case False
      then show ?thesis using apart [OF that a(1)] ba rootOf_in_nodes [of c] by blast
    qed
    then have maps: "List.map (\<lambda>t. f' (rootOf t)) ts = List.map (\<lambda>t. f (rootOf t)) ts" using 1(6) by simp
    have "fits n f' c" if "c \<in> set ts" "h \<noteq> n" for c
    proof (cases "c = a")
      case True
      show ?thesis unfolding True
        by (rule 1(1) [OF a(1) _ a(2) 1(4) _ 1(6) 1(7) 1(8)]) (use 1(2,5) a(1) that in \<open>auto simp: distinct_concat_iff\<close>)
    next
      case False
      then show ?thesis using same [OF that(1) _ that(2)] apart [OF that(1) a(1)] ba by blast
    qed
    then show ?thesis using 1(5) unfolding fits.simps maps fh by auto
  qed
qed

section \<open>The binary search\<close>

lemma ancestorSearch_result:
  assumes "\<forall>x\<in>set tns. present s x" and "k \<le> length tns"
    and "\<And>i. i < k \<Longrightarrow> \<not> end' < Start (ivl s (tns ! i))"
    and "\<And>i. k \<le> i \<Longrightarrow> i < length tns \<Longrightarrow> end' < Start (ivl s (tns ! i))"
    and "low \<le> k" and "k \<le> high" and "high \<le> length tns"
  shows "ancestorSearch s tns end' low high = Inr k"
  using assms
proof (induction s tns end' low high rule: ancestorSearch.induct)
  case (1 s tns end' low high)
  show ?case
  proof (cases "low < high")
    case True
    let ?m = "(low + high) div 2"
    have m: "low \<le> ?m" "?m < high" "?m < length tns" using True 1(9) by auto
    have f: "fetchInterval s (tns ! ?m) = Inr (ivl s (tns ! ?m))" using 1(3) m(3) by (simp add: fetchInterval_present)
    show ?thesis
    proof (cases "end' < Start (ivl s (tns ! ?m))")
      case left: True
      then have "k \<le> ?m" using 1(5) [of ?m] by (meson not_le)
      then have "ancestorSearch s tns end' low ?m = Inr k"
        using 1 True f left m by (intro 1(1) [OF True refl f left]) auto
      then show ?thesis using True f left by (simp add: ancestorSearch.simps [of s tns end' low high] Let_def)
    next
      case right: False
      then have "?m < k" using 1(6) [of ?m] m(3) by (meson not_le)
      then have "ancestorSearch s tns end' (?m + 1) high = Inr k"
        using 1 True f right m by (intro 1(2) [OF True refl f right]) auto
      then show ?thesis using True f right by (simp add: ancestorSearch.simps [of s tns end' low high] Let_def)
    qed
  next
    case False
    then show ?thesis using 1(7,8) by (simp add: ancestorSearch.simps [of s tns end' low high])
  qed
qed

lemma findAncestorIndexOfNode_result:
  assumes "present s x" and "\<forall>y\<in>set tns. present s y" and "k \<le> length tns"
    and "\<And>i. i < k \<Longrightarrow> ilo (ivl s (tns ! i)) < ihi (ivl s x)"
    and "\<And>i. k \<le> i \<Longrightarrow> i < length tns \<Longrightarrow> ihi (ivl s x) \<le> ilo (ivl s (tns ! i))"
  shows "findAncestorIndexOfNode s tns x = Inr (if k = 0 then None else Some (k - 1))"
proof -
  have "ancestorSearch s tns (End (ivl s x)) 0 (length tns) = Inr k"
    using assms by (intro ancestorSearch_result) (auto simp: word_less_nat_alt ilo_def ihi_def less_Suc_eq_le Suc_le_eq not_less)
  then show ?thesis using assms(1) by (simp add: findAncestorIndexOfNode_def fetchInterval_present)
qed

text \<open>Where a spaced list is cut by a number that lies in one of its intervals.\<close>

lemma spaced_split:
  assumes "spaced a (List.map g (pre @ c # post)) b"
  shows "\<forall>x\<in>set pre. ihi (g x) \<le> ilo (g c)" and "\<forall>x\<in>set post. ihi (g c) \<le> ilo (g x)"
    and "\<forall>x\<in>set (pre @ c # post). ilo (g x) \<le> ihi (g x)"
proof -
  obtain m where m: "spaced a (List.map g pre) m" "spaced m (List.map g (c # post)) b"
    using assms spaced_append [of a "List.map g pre" "List.map g (c # post)" b] by auto
  show "\<forall>x\<in>set pre. ihi (g x) \<le> ilo (g c)" using spaced_in [OF m(1)] m(2) by (auto intro: le_trans)
  show "\<forall>x\<in>set post. ihi (g c) \<le> ilo (g x)" using spaced_in [of "ihi (g c)" "List.map g post" b] m(2) by auto
  have "ilo r \<le> ihi r" if "spaced u rs v" "r \<in> set rs" for u rs v r
    using that by (induction rs arbitrary: u) auto
  then show "\<forall>x\<in>set (pre @ c # post). ilo (g x) \<le> ihi (g x)" using assms by fastforce
qed

lemma FindNextAncestor_correct:
  assumes T: "treeStore s T" "a \<in> set (subs T)" and ch: "subtrees a = pre @ c # post"
    and sp: "spaced lo (List.map (\<lambda>t. ivl s (rootOf t)) (subtrees a)) hi"
    and r: "good (ivl s) c" "x \<in> set (nodes c)"
  shows "FindNextAncestor s x (rootOf a) = Inr (rootOf c)"
proof -
  let ?g = "\<lambda>t. ivl s (rootOf t)"
  let ?tns = "List.map rootOf (subtrees a)"
  have child: "t \<in> set (subs T)" if "t \<in> set (subtrees a)" for t using subs_trans [OF T(2) subs_child [OF that]] .
  have c: "c \<in> set (subtrees a)" using ch by simp
  have "rootOf a \<notin> set (nodes c)" using root_not_inside [OF treeStoreD(2) [OF T] subs_self c] .
  then have ne: "rootOf a \<noteq> x" using r(2) by auto
  have w: "ilo (?g c) \<le> ilo (ivl s x)" "ihi (ivl s x) \<le> ihi (?g c)" "ilo (ivl s x) < ihi (ivl s x)"
    using good_within [OF r] by auto
  note cut = spaced_split [OF sp [unfolded ch]]
  have px: "present s x" using rep_present [OF treeStoreD(1) [OF T(1) child [OF c]] r(2)] .
  have pt: "\<forall>y\<in>set ?tns. present s y" using rep_root treeStoreD(1) [OF T(1) child] by auto
  have "findAncestorIndexOfNode s ?tns x = Inr (if Suc (length pre) = 0 then None else Some (Suc (length pre) - 1))"
  proof (rule findAncestorIndexOfNode_result [OF px pt])
    show "Suc (length pre) \<le> length ?tns" by (simp add: ch)
    show "ilo (ivl s (?tns ! i)) < ihi (ivl s x)" if "i < Suc (length pre)" for i
    proof (cases "i < length pre")
      case True
      then have "ilo (?g (pre ! i)) \<le> ihi (?g (pre ! i))" "ihi (?g (pre ! i)) \<le> ilo (?g c)" using cut by auto
      then show ?thesis using True w by (simp add: ch nth_append)
    next
      case False
      then have "i = length pre" using that by simp
      then show ?thesis using w by (simp add: ch nth_append)
    qed
    show "ihi (ivl s x) \<le> ilo (ivl s (?tns ! i))" if "Suc (length pre) \<le> i" "i < length ?tns" for i
    proof -
      have "i - Suc (length pre) < length post" using that by (auto simp: ch)
      then have "ihi (?g c) \<le> ilo (?g (post ! (i - Suc (length pre))))" using cut(2) by simp
      then show ?thesis using that w(2) by (simp add: ch nth_append)
    qed
  qed
  then have "findAncestorOfNode s ?tns x = Inr (Some (rootOf c))"
    by (simp add: findAncestorOfNode_def ch nth_append)
  then show ?thesis using ne treeStoreD(4) [OF T] by (simp add: FindNextAncestor_def nonNil_def)
qed

end
