(* ===== verification/Reach_Reclaim.thy ===== *)
theory Reach_Reclaim
  imports Reach_Fits
begin

text \<open>
  Making room for a subtree that lies earlier than the reindex root. The node
  \<open>allocationNode\<close> is a child of \<open>commonAncestor\<close>, another child of which is an ancestor of the
  reindex root. \<open>reclaimIntervalBefore\<close> and \<open>reclaimIntervalAfter\<close> collect slack along the chain
  from that child towards the reindex root and shift everything between, so that the
  interval of \<open>allocationNode\<close> grows by exactly the required allocation. The lemmas follow the
  chain up and down and show that the tree fits afterwards.
\<close>

section \<open>Moving the ends of an interval\<close>

lemma increaseStart_ends:
  assumes "regular r" and "unat w = k" and "ilo r + k \<le> ihi r"
  shows "ilo (intervalIncreaseStart r w) = ilo r + k" and "ihi (intervalIncreaseStart r w) = ihi r"
    and "regular (intervalIncreaseStart r w)"
proof -
  have "unat (Start r + w) = unat (Start r) + k"
    using assms by (subst unat_u64_add) (auto simp: regular_def ilo_def)
  then show "ilo (intervalIncreaseStart r w) = ilo r + k" "ihi (intervalIncreaseStart r w) = ihi r"
    "regular (intervalIncreaseStart r w)"
    using assms by (auto simp: intervalIncreaseStart_def ilo_def ihi_def regular_def)
qed

lemma increaseEnd_ends:
  assumes "regular r" and "unat w = k" and "ihi r + k < 2 ^ 64"
  shows "ilo (intervalIncreaseEnd r w) = ilo r" and "ihi (intervalIncreaseEnd r w) = ihi r + k"
    and "regular (intervalIncreaseEnd r w)"
proof -
  have "unat (End r + w) = unat (End r) + k"
    using assms by (subst unat_u64_add) (auto simp: ihi_def)
  then show "ilo (intervalIncreaseEnd r w) = ilo r" "ihi (intervalIncreaseEnd r w) = ihi r + k"
    "regular (intervalIncreaseEnd r w)"
    using assms by (auto simp: intervalIncreaseEnd_def ilo_def ihi_def regular_def)
qed

lemma increase_ends:
  assumes "regular r" and "unat w = k" and "ihi r + k < 2 ^ 64"
  shows "ilo (intervalIncrease r w) = ilo r + k" and "ihi (intervalIncrease r w) = ihi r + k"
    and "regular (intervalIncrease r w)"
proof -
  have "unat (End r + w) = unat (End r) + k" "unat (Start r + w) = unat (Start r) + k"
    using assms by (auto simp: ihi_def ilo_def regular_def intro!: unat_u64_add)
  then show "ilo (intervalIncrease r w) = ilo r + k" "ihi (intervalIncrease r w) = ihi r + k"
    "regular (intervalIncrease r w)"
    using assms by (auto simp: intervalIncrease_def ilo_def ihi_def regular_def)
qed

lemma decreaseEnd_ends:
  assumes "regular r" and "unat w = k" and "ilo r + k \<le> ihi r"
  shows "ilo (intervalDecreaseEnd r w) = ilo r" and "ihi (intervalDecreaseEnd r w) = ihi r - k"
    and "regular (intervalDecreaseEnd r w)"
proof -
  have "unat (End r - w) = unat (End r) - k" "k \<le> unat (End r)"
    using assms by (auto simp: regular_def ilo_def ihi_def intro!: unat_u64_diff)
  then show "ilo (intervalDecreaseEnd r w) = ilo r" "ihi (intervalDecreaseEnd r w) = ihi r - k"
    "regular (intervalDecreaseEnd r w)"
    using assms by (auto simp: intervalDecreaseEnd_def ilo_def ihi_def regular_def)
qed

lemma decreaseStart_ends:
  assumes "regular r" and "unat w = k" and "k < ilo r"
  shows "ilo (intervalDecreaseStart r w) = ilo r - k" and "ihi (intervalDecreaseStart r w) = ihi r"
    and "regular (intervalDecreaseStart r w)"
proof -
  have "unat (Start r - w) = unat (Start r) - k"
    using assms by (auto simp: ilo_def intro!: unat_u64_diff)
  then show "ilo (intervalDecreaseStart r w) = ilo r - k" "ihi (intervalDecreaseStart r w) = ihi r"
    "regular (intervalDecreaseStart r w)"
    using assms by (auto simp: intervalDecreaseStart_def ilo_def ihi_def regular_def)
qed

lemma decrease_ends:
  assumes "regular r" and "unat w = k" and "k < ilo r"
  shows "ilo (intervalDecrease r w) = ilo r - k" and "ihi (intervalDecrease r w) = ihi r - k"
    and "regular (intervalDecrease r w)"
proof -
  have "unat (End r - w) = unat (End r) - k" "unat (Start r - w) = unat (Start r) - k" "k \<le> unat (End r)"
    using assms by (auto simp: ihi_def ilo_def regular_def intro!: unat_u64_diff)
  then show "ilo (intervalDecrease r w) = ilo r - k" "ihi (intervalDecrease r w) = ihi r - k"
    "regular (intervalDecrease r w)"
    using assms by (auto simp: intervalDecrease_def ilo_def ihi_def regular_def)
qed

section \<open>Neighbours in a spaced list\<close>

definition upTo :: "nat \<Rightarrow> ReachabilityInterval list \<Rightarrow> nat" where
  "upTo a rs = (if rs = [] then a else ihi (last rs))"

definition downTo :: "ReachabilityInterval list \<Rightarrow> nat \<Rightarrow> nat" where
  "downTo rs b = (if rs = [] then b else ilo (hd rs))"

lemma spaced_upTo: "spaced a rs b \<longleftrightarrow> spaced a rs (upTo a rs) \<and> upTo a rs \<le> b"
  by (induction rs arbitrary: a) (auto simp: upTo_def)

lemma spaced_downTo: "spaced a rs b \<longleftrightarrow> a \<le> downTo rs b \<and> spaced (downTo rs b) rs b"
  by (cases rs) (auto simp: downTo_def)

lemma spaced_lower: "spaced a rs b \<Longrightarrow> a' \<le> downTo rs b \<Longrightarrow> spaced a' rs b"
  by (cases rs) (auto simp: downTo_def)

lemma spaced_upper: "spaced a rs b \<Longrightarrow> upTo a rs \<le> b' \<Longrightarrow> spaced a rs b'"
  by (induction rs arbitrary: a) (auto simp: upTo_def split: if_splits)

lemma spaced_mid:
  "spaced a (xs @ r # ys) b \<longleftrightarrow>
     spaced a xs (upTo a xs) \<and> upTo a xs \<le> ilo r \<and> ilo r \<le> ihi r \<and> ihi r \<le> downTo ys b \<and> spaced (downTo ys b) ys b"
  unfolding spaced_append spaced.simps
  by (subst spaced_upTo, subst (2) spaced_downTo) (auto intro: spaced_mono)

lemma spaced_replace:
  "spaced a (xs @ r # ys) b \<Longrightarrow> upTo a xs \<le> ilo r' \<Longrightarrow> ilo r' \<le> ihi r' \<Longrightarrow> ihi r' \<le> downTo ys b \<Longrightarrow>
    spaced a (xs @ r' # ys) b"
  unfolding spaced_mid by simp

section \<open>Replacing the intervals of one child\<close>

abbreviation roots :: "(DomainHash \<Rightarrow> ReachabilityInterval) \<Rightarrow> rtree list \<Rightarrow> ReachabilityInterval list" where
  "roots f ts \<equiv> List.map (\<lambda>t. f (rootOf t)) ts"

lemma update_child:
  assumes d: "distinct (nodes T)" and y: "y \<in> set (subs T)" "subtrees y = pre @ b # post" "rootOf y \<noteq> n"
    and f: "fits n f T" "fits n f y" and same: "\<And>x. x \<notin> set (nodes b) \<Longrightarrow> f' x = f x" and fb: "fits n f' b"
    and lo: "upTo (ilo (f (rootOf y))) (roots f pre) \<le> ilo (f' (rootOf b))"
    and hi: "ihi (f' (rootOf b)) \<le> downTo (roots f post) (ihi (f (rootOf y)) - 1)"
  shows "fits n f' T \<and> fits n f' y"
proof -
  have dy: "distinct (nodes y)" using distinct_subs [OF d y(1)] .
  have b: "b \<in> set (subtrees y)" using y(2) by simp
  have dc: "distinct (concat (List.map nodes (pre @ b # post)))" using dy y(2) by (cases y) simp
  have "rootOf c \<notin> set (nodes b)" if "c \<in> set (pre @ post)" for c
  proof -
    have "c \<noteq> b"
    proof
      assume "c = b"
      then have "\<not> distinct (pre @ b # post)" using that by auto
      then show False using distinct_subtrees [OF dy] y(2) by simp
    qed
    then show ?thesis using siblings_apart [OF dc, of c b] that rootOf_in_nodes [of c] by auto
  qed
  then have "roots f' pre = roots f pre" "roots f' post = roots f post" using same by auto
  then have maps: "roots f' (subtrees y) = roots f pre @ f' (rootOf b) # roots f post" by (simp add: y(2))
  have "spaced (ilo (f (rootOf y))) (roots f pre @ f (rootOf b) # roots f post) (ihi (f (rootOf y)) - 1)"
    using fits_spaced [OF f(2) y(3)] y(2) by simp
  moreover have "ilo (f' (rootOf b)) \<le> ihi (f' (rootOf b))" using fits_root [OF fb] by (simp add: regular_def)
  ultimately have sp: "spaced (ilo (f (rootOf y))) (roots f' (subtrees y)) (ihi (f (rootOf y)) - 1)"
    unfolding maps using spaced_replace lo hi by blast
  show ?thesis
    using fits_update [OF d y(1) b f(1) same fb sp] fits_update [OF dy subs_self b f(2) same fb sp] by blast
qed

lemma goodI:
  assumes "regular (f (rootOf u))" and "ilo (f (rootOf u)) < ihi (f (rootOf u))"
    and "spaced (ilo (f (rootOf u))) (roots f (subtrees u)) (ihi (f (rootOf u)) - 1)"
    and "\<And>c. c \<in> set (subtrees u) \<Longrightarrow> good f c"
  shows "good f u"
  using assms by (cases u) simp

text \<open>Where the children of a node begin and end.\<close>

definition firstLo :: "(DomainHash \<Rightarrow> ReachabilityInterval) \<Rightarrow> rtree \<Rightarrow> nat" where
  "firstLo f u = downTo (roots f (subtrees u)) (ihi (f (rootOf u)) - 1)"

definition lastHi :: "(DomainHash \<Rightarrow> ReachabilityInterval) \<Rightarrow> rtree \<Rightarrow> nat" where
  "lastHi f u = upTo (ilo (f (rootOf u))) (roots f (subtrees u))"

lemma good_firstLo: "good f u \<Longrightarrow> ilo (f (rootOf u)) \<le> firstLo f u \<and> firstLo f u < ihi (f (rootOf u))"
  using good_spaced [of f u] good_root [of f u] spaced_le [of "firstLo f u" "roots f (subtrees u)" "ihi (f (rootOf u)) - 1"]
    spaced_downTo [of "ilo (f (rootOf u))" "roots f (subtrees u)" "ihi (f (rootOf u)) - 1"]
  by (auto simp: firstLo_def)

lemma good_lastHi: "good f u \<Longrightarrow> ilo (f (rootOf u)) \<le> lastHi f u \<and> lastHi f u < ihi (f (rootOf u))"
  using good_spaced [of f u] good_root [of f u] spaced_le [of "ilo (f (rootOf u))" "roots f (subtrees u)" "lastHi f u"]
    spaced_upTo [of "ilo (f (rootOf u))" "roots f (subtrees u)" "ihi (f (rootOf u)) - 1"]
  by (auto simp: lastHi_def)

lemma unat_gap:
  assumes "0 < unat a" and "unat a \<le> unat b"
  shows "unat (intervalSize (newReachabilityInterval a (b - 1))) = unat b - unat a"
proof -
  have "unat (b - 1) = unat b - 1" using assms by (subst unat_u64_diff) auto
  then have "regular (newReachabilityInterval a (b - 1))" "ilen (newReachabilityInterval a (b - 1)) = unat b - unat a"
    using assms u64_less [of b] by (auto simp: regular_def ilen_def ilo_def ihi_def)
  then show ?thesis using unat_intervalSize by simp
qed

lemma remainingSlackBefore_correct:
  assumes T: "treeStore s T" "u \<in> set (subs T)" and g: "good (ivl s) u"
  shows "\<exists>w. remainingSlackBefore s (rootOf u) = Inr w \<and> unat w = firstLo (ivl s) u - ilo (ivl s (rootOf u))"
proof -
  let ?r = "ivl s (rootOf u)"
  have reg: "regular ?r" "ilo ?r < ihi ?r" using good_root [OF g] by auto
  note cr = child_range [OF reg]
  have range: "intervalRangeForChildAllocation s (rootOf u) = Inr (newReachabilityInterval (Start ?r) (End ?r - 1))"
    using rep_root [OF treeStoreD(1) [OF T]] by (simp add: intervalRangeForChildAllocation_def fetchInterval_present)
  show ?thesis
  proof (cases "subtrees u")
    case Nil
    have "unat (intervalSize (newReachabilityInterval (Start ?r) (End ?r - 1))) = ihi ?r - 1 - ilo ?r"
      using unat_intervalSize [OF cr(3)] cr by (simp add: ilen_def)
    then show ?thesis
      using range treeStoreD(4) [OF T] Nil
      by (simp add: remainingSlackBefore_def remainingIntervalBefore_def firstLo_def downTo_def)
  next
    case (Cons c cs)
    have "c \<in> set (subs T)" using subs_trans [OF T(2) subs_child] Cons by simp
    then have "present s (rootOf c)" using rep_root treeStoreD(1) [OF T(1)] by blast
    moreover have "0 < unat (Start ?r)" "unat (Start ?r) \<le> unat (Start (ivl s (rootOf c)))"
      using good_firstLo [OF g] reg Cons by (auto simp: firstLo_def downTo_def ilo_def regular_def)
    ultimately show ?thesis
      using range treeStoreD(4) [OF T] Cons unat_gap
      by (simp add: remainingSlackBefore_def remainingIntervalBefore_def firstLo_def downTo_def fetchInterval_present ilo_def)
  qed
qed

section \<open>Steps before the chain\<close>

definition ready :: "rtree \<Rightarrow> DomainHash \<Rightarrow> subTreeSizes \<Rightarrow> reachStore \<Rightarrow> bool" where
  "ready T n cache s \<longleftrightarrow> treeStore s T \<and> sizesOk T cache \<and> fits n (ivl s) T"

lemma readyD: "ready T n cache s \<Longrightarrow> treeStore s T" "ready T n cache s \<Longrightarrow> sizesOk T cache"
  "ready T n cache s \<Longrightarrow> fits n (ivl s) T" "ready T n cache s \<Longrightarrow> distinct (nodes T)"
  by (auto simp: ready_def treeStore_def)

lemma neighbours:
  assumes "fits n f y" and "rootOf y \<noteq> n" and "subtrees y = pre @ b # post"
  shows "upTo (ilo (f (rootOf y))) (roots f pre) \<le> ilo (f (rootOf b))" and "ilo (f (rootOf b)) \<le> ihi (f (rootOf b))"
    and "ihi (f (rootOf b)) \<le> downTo (roots f post) (ihi (f (rootOf y)) - 1)"
    and "downTo (roots f post) (ihi (f (rootOf y)) - 1) < ihi (f (rootOf y))"
proof -
  have sp: "spaced (ilo (f (rootOf y))) (roots f pre @ f (rootOf b) # roots f post) (ihi (f (rootOf y)) - 1)"
    using fits_spaced [OF assms(1,2)] assms(3) by simp
  then show "upTo (ilo (f (rootOf y))) (roots f pre) \<le> ilo (f (rootOf b))" "ilo (f (rootOf b)) \<le> ihi (f (rootOf b))"
    "ihi (f (rootOf b)) \<le> downTo (roots f post) (ihi (f (rootOf y)) - 1)"
    unfolding spaced_mid by auto
  have "downTo (roots f post) (ihi (f (rootOf y)) - 1) \<le> ihi (f (rootOf y)) - 1"
    using sp spaced_le unfolding spaced_mid by blast
  then show "downTo (roots f post) (ihi (f (rootOf y)) - 1) < ihi (f (rootOf y))"
    using fits_nonempty [OF assms(1,2)] by simp
qed

text \<open>A child that gets a new interval and has it propagated.\<close>

lemma place_child:
  assumes R: "ready T n cache s" and y: "y \<in> set (subs T)" "subtrees y = pre @ b # post" "rootOf y \<noteq> n" "fits n (ivl s) y"
    and r: "regular r" "tsize b \<le> ilen r" "upTo (ilo (ivl s (rootOf y))) (roots (ivl s) pre) \<le> ilo r"
      "ihi r \<le> downTo (roots (ivl s) post) (ihi (ivl s (rootOf y)) - 1)"
  shows "\<exists>s1 cache' s'. stageInterval s (rootOf b) r = Inr s1 \<and> propagateInterval rt (rootOf b) cache s1 = Some (Inr (cache', s'))
    \<and> sameShape s s' \<and> ready T n cache' s' \<and> fits n (ivl s') y \<and> good (ivl s') b
    \<and> ivl s' (rootOf b) = r \<and> (\<forall>x. x \<notin> set (nodes b) \<longrightarrow> ivl s' x = ivl s x)"
proof -
  have T: "treeStore s T" and ok: "sizesOk T cache" using R by (auto dest: readyD)
  have bT: "b \<in> set (subs T)" using subs_trans [OF y(1) subs_child] y(2) by simp
  obtain s1 where s1: "stageInterval s (rootOf b) r = Inr s1" "sameShape s s1" "ivl s1 = (ivl s)(rootOf b := r)"
    using stageInterval_present [of s "rootOf b" r] rep_root [OF treeStoreD(1) [OF T bT]] by blast
  have "roomy (ivl s1) b" using r by (simp add: roomy_def s1(3))
  then obtain cache' s' where p: "propagateInterval rt (rootOf b) cache s1 = Some (Inr (cache', s'))" "sizesOk T cache'"
    "sameShape s1 s'" "good (ivl s') b" "\<forall>x. x \<notin> set (concat (List.map nodes (subtrees b))) \<longrightarrow> ivl s' x = ivl s1 x"
    using propagateInterval_correct [OF treeStore_sameShape [OF s1(2) T] bT ok] by blast
  have root: "ivl s' (rootOf b) = r"
    using p(5) s1(3) treeStoreD(2) [OF T bT] by (cases b) auto
  have same: "ivl s' x = ivl s x" if "x \<notin> set (nodes b)" for x
    using p(5) s1(3) that by (cases b) auto
  have "fits n (ivl s') T \<and> fits n (ivl s') y"
    using update_child [OF _ y(1-3) _ y(4) same good_fits [OF p(4)]] r root readyD [OF R] by simp
  then show ?thesis
    using s1 p root same sameShape_trans [OF s1(2) p(3)] treeStore_sameShape [OF sameShape_trans [OF s1(2) p(3)] T]
    by (auto simp: ready_def)
qed

lemma raise_start:
  assumes R: "ready T n cache s" and y: "y \<in> set (subs T)" "subtrees y = pre @ x # post" "rootOf y \<noteq> n" "fits n (ivl s) y"
    and g: "good (ivl s) x" and k: "unat w = k" "ilo (ivl s (rootOf x)) + k \<le> firstLo (ivl s) x"
  defines "r \<equiv> intervalIncreaseStart (ivl s (rootOf x)) w"
  shows "\<exists>s'. stageInterval s (rootOf x) r = Inr s' \<and> sameShape s s' \<and> ready T n cache s' \<and> fits n (ivl s') y
    \<and> good (ivl s') x \<and> ivl s' = (ivl s)(rootOf x := r) \<and> ilo r = ilo (ivl s (rootOf x)) + k \<and> ihi r = ihi (ivl s (rootOf x))"
proof -
  have T: "treeStore s T" using R by (auto dest: readyD)
  have xT: "x \<in> set (subs T)" using subs_trans [OF y(1) subs_child] y(2) by simp
  have "ilo (ivl s (rootOf x)) + k \<le> ihi (ivl s (rootOf x))" "regular (ivl s (rootOf x))"
    using good_firstLo [OF g] good_root [OF g] k(2) by auto
  note r = increaseStart_ends [OF this(2) k(1) this(1), folded r_def]
  obtain s' where s': "stageInterval s (rootOf x) r = Inr s'" "sameShape s s'" "ivl s' = (ivl s)(rootOf x := r)"
    using stageInterval_present [of s "rootOf x" r] rep_root [OF treeStoreD(1) [OF T xT]] by blast
  have dx: "distinct (nodes x)" using treeStoreD(2) [OF T xT] .
  have inner: "ivl s' z = ivl s z" if "c \<in> set (subtrees x)" "z \<in> set (nodes c)" for c z
    using dx that s'(3) by (cases x) auto
  have gx: "good (ivl s') x"
  proof -
    have ch: "good (ivl s') c" if "c \<in> set (subtrees x)" for c
      using good_cong [of c "ivl s'" "ivl s"] inner [OF that] good_subs [OF g subs_child [OF that]] by blast
    have maps: "roots (ivl s') (subtrees x) = roots (ivl s) (subtrees x)" using inner by auto
    have sp: "spaced (ilo r) (roots (ivl s) (subtrees x)) (ihi r - 1)"
      using spaced_lower [OF good_spaced [OF g], of "ilo r"] r k(2) by (simp add: firstLo_def)
    have "ilo r < ihi r" using r k(2) good_firstLo [OF g] by auto
    moreover have "ivl s' (rootOf x) = r" by (simp add: s'(3))
    ultimately show ?thesis using ch r(3) sp goodI [of "ivl s'" x] unfolding maps by metis
  qed
  have "fits n (ivl s') T \<and> fits n (ivl s') y"
  proof (rule update_child [OF _ y(1-3) _ y(4) _ good_fits [OF gx]])
    show "distinct (nodes T)" "fits n (ivl s) T" using R by (auto dest: readyD)
    show "ivl s' z = ivl s z" if "z \<notin> set (nodes x)" for z using that s'(3) by auto
  qed (use neighbours [OF y(4,3,2)] r s'(3) in auto)
  then show ?thesis
    using s' r gx readyD [OF R] treeStore_sameShape [OF s'(2)] by (auto simp: ready_def)
qed

lemma distinct_children:
  assumes "treeStore s T" and "y \<in> set (subs T)"
  shows "distinct (concat (List.map nodes (subtrees y)))"
  using treeStoreD(2) [OF assms] by (cases y) simp

lemma sibling_outside:
  assumes "distinct (concat (List.map nodes (pre @ b # post)))" and "c \<in> set (pre @ post)" and "x \<in> set (nodes c)"
  shows "x \<notin> set (nodes b)"
proof -
  have "(\<Union>c\<in>set pre. set (nodes c)) \<inter> set (nodes b) = {}" "(\<Union>c\<in>set post. set (nodes c)) \<inter> set (nodes b) = {}"
    using assms(1) by auto
  then show ?thesis using assms(2,3) by auto
qed

lemma ready_child:
  assumes "fits n (ivl s) y" and "rootOf y \<noteq> n" and "b \<in> set (subtrees y)" and "n \<notin> set (nodes b)"
  shows "good (ivl s) b"
  using fits_child [OF assms(1-3)] fits_good [OF assms(4)] by blast

lemma offsetBefore_shifts:
  assumes "ready T n cache s" and y: "y \<in> set (subs T)" "rootOf y \<noteq> n" and "fits n (ivl s) y" and "subtrees y = pre0 @ pre @ z # post"
    and "\<forall>b\<in>set pre. rootOf b \<noteq> a \<and> n \<notin> set (nodes b)" and k: "unat w = k"
    and "pre \<noteq> [] \<Longrightarrow> ihi (ivl s (rootOf (last pre))) + k \<le> ilo (ivl s (rootOf z))"
  shows "\<exists>cache' s'. offsetBefore rt a w (rev (List.map rootOf pre)) cache s = Some (Inr (cache', s')) \<and> sameShape s s'
    \<and> ready T n cache' s' \<and> fits n (ivl s') y \<and> (\<forall>x. x \<notin> waiting pre \<longrightarrow> ivl s' x = ivl s x)
    \<and> (pre \<noteq> [] \<longrightarrow> ilo (ivl s' (rootOf (hd pre))) = ilo (ivl s (rootOf (hd pre))) + k)"
  using assms(1,4-6,8)
proof (induction pre arbitrary: z post s cache rule: rev_induct)
  case Nil
  then show ?case by (subst offsetBefore.simps) (simp add: ret_def)
next
  case (snoc b pre)
  note R = snoc.prems(1) and fy = snoc.prems(2)
  have ch: "subtrees y = (pre0 @ pre) @ b # z # post" using snoc.prems(3) by simp
  note T = readyD(1) [OF R]
  have b: "b \<in> set (subtrees y)" "n \<notin> set (nodes b)" "rootOf b \<noteq> a" using ch snoc.prems(4) by auto
  have bT: "b \<in> set (subs T)" using subs_trans [OF y(1) subs_child [OF b(1)]] .
  have gb: "good (ivl s) b" using ready_child [OF fy y(2) b(1,2)] .
  note nb = neighbours [OF fy y(2) ch]
  let ?r = "intervalIncrease (ivl s (rootOf b)) w"
  have le: "ihi (ivl s (rootOf b)) + k \<le> ilo (ivl s (rootOf z))" using snoc.prems(5) by simp
  then have "ihi (ivl s (rootOf b)) + k < 2 ^ 64" using u64_less [of "Start (ivl s (rootOf z))"] by (simp add: ilo_def)
  note r = increase_ends [OF conjunct1 [OF good_root [OF gb]] k this]
  have size: "tsize b \<le> ilen ?r" using good_size [OF gb] r by (simp add: ilen_def)
  have lo: "upTo (ilo (ivl s (rootOf y))) (roots (ivl s) (pre0 @ pre)) \<le> ilo ?r" using nb(1) r(1) by simp
  have hi: "ihi ?r \<le> downTo (roots (ivl s) (z # post)) (ihi (ivl s (rootOf y)) - 1)" using le r(2) by (simp add: downTo_def)
  obtain s1 cache1 s2 where p: "stageInterval s (rootOf b) ?r = Inr s1"
    "propagateInterval rt (rootOf b) cache s1 = Some (Inr (cache1, s2))" "sameShape s s2" "ready T n cache1 s2"
    "fits n (ivl s2) y" "ivl s2 (rootOf b) = ?r" "\<forall>x. x \<notin> set (nodes b) \<longrightarrow> ivl s2 x = ivl s x"
    using place_child [OF R y(1) ch y(2) fy r(3) size lo hi] by blast
  note dc = distinct_children [OF T y(1), unfolded ch]
  have out: "ivl s2 x = ivl s x" if "c \<in> set pre" "x \<in> set (nodes c)" for c x
    using sibling_outside [OF dc, of c x] that p(7) by auto
  have gap: "ihi (ivl s2 (rootOf (last pre))) + k \<le> ilo (ivl s2 (rootOf b))" if "pre \<noteq> []"
  proof -
    have "ivl s2 (rootOf (last pre)) = ivl s (rootOf (last pre))" using out [of "last pre"] that by simp
    moreover have "ihi (ivl s (rootOf (last pre))) \<le> ilo (ivl s (rootOf b))" using nb(1) that by (simp add: upTo_def last_map last_append)
    ultimately show ?thesis using p(6) r(1) by simp
  qed
  obtain cache' s' where q: "offsetBefore rt a w (rev (List.map rootOf pre)) cache1 s2 = Some (Inr (cache', s'))" "sameShape s2 s'"
    "ready T n cache' s'" "fits n (ivl s') y" "\<forall>x. x \<notin> waiting pre \<longrightarrow> ivl s' x = ivl s2 x"
    "pre \<noteq> [] \<longrightarrow> ilo (ivl s' (rootOf (hd pre))) = ilo (ivl s2 (rootOf (hd pre))) + k"
    using snoc.IH [OF p(4,5) ch [unfolded append_assoc] _ gap] snoc.prems(4) by auto
  have "offsetBefore rt a w (rev (List.map rootOf (pre @ [b]))) cache s = Some (Inr (cache', s'))"
    using b(3) p(1,2) q(1) rep_root [OF treeStoreD(1) [OF T bT]]
    by (subst offsetBefore.simps) (simp add: fetchInterval_present)
  moreover have "ivl s' x = ivl s x" if "x \<notin> waiting (pre @ [b])" for x using that p(7) q(5) by auto
  moreover have "ilo (ivl s' (rootOf (hd (pre @ [b])))) = ilo (ivl s (rootOf (hd (pre @ [b])))) + k"
  proof (cases "pre = []")
    case True
    then show ?thesis using q(5) p(6) r(1) by simp
  next
    case False
    then show ?thesis using q(6) out [of "hd pre" "rootOf (hd pre)"] by simp
  qed
  ultimately show ?case using q(3,4) sameShape_trans [OF p(3) q(2)] by blast
qed

lemma offsetBefore_append:
  "\<forall>b\<in>set xs. b \<noteq> a \<Longrightarrow> offsetBefore rt a w (xs @ ys) cache s =
    pbind (offsetBefore rt a w xs cache s) (\<lambda>r. offsetBefore rt a w ys (fst r) (snd r))"
proof (induction xs arbitrary: cache s)
  case Nil
  then show ?case by (subst (2) offsetBefore.simps) simp
next
  case (Cons x xs)
  then show ?case
    by (subst offsetBefore.simps, subst (2) offsetBefore.simps) (simp add: pbind_assoc cong: pbind_cong)
qed

lemma allocate_restores:
  assumes R: "ready T (rootOf u) cache s" and "u \<in> set (subs T)" and "good (ivl s) u"
  shows "good (ivl s) T"
  using fits_restore [OF readyD(3) [OF R]] treeStore_unique [OF readyD(1) [OF R] _ assms(2)] assms(3) by blast

lemma offsetBefore_allocates:
  assumes R: "ready T (rootOf u) cache s" and y: "y \<in> set (subs T)" "rootOf y \<noteq> rootOf u" and fy: "fits (rootOf u) (ivl s) y"
    and ch: "subtrees y = pre0 @ u # pre1 @ z # post" and k: "unat w = k"
    and gap: "ihi (ivl s (rootOf (last (u # pre1)))) + k \<le> ilo (ivl s (rootOf z))"
    and room: "tsize u \<le> ilen (ivl s (rootOf u)) + k"
  shows "\<exists>cache' s'. offsetBefore rt (rootOf u) w (rev (List.map rootOf (pre0 @ u # pre1))) cache s = Some (Inr (cache', s'))
    \<and> sameShape s s' \<and> good (ivl s') T"
proof -
  note T = readyD(1) [OF R]
  have uy: "u \<in> set (subtrees y)" using ch by simp
  have uT: "u \<in> set (subs T)" using subs_trans [OF y(1) subs_child [OF uy]] .
  have ch': "subtrees y = (pre0 @ [u]) @ pre1 @ z # post" using ch by simp
  note dc = distinct_children [OF T y(1), unfolded ch]
  have other: "rootOf u \<notin> set (nodes b)" if "b \<in> set (pre1 @ z # post)" for b
    using sibling_outside [OF dc, of b "rootOf u"] that by auto
  have away: "\<forall>b\<in>set pre1. rootOf b \<noteq> rootOf u \<and> rootOf u \<notin> set (nodes b)"
  proof
    fix b assume "b \<in> set pre1"
    then have "rootOf u \<notin> set (nodes b)" by (intro other) simp
    then show "rootOf b \<noteq> rootOf u \<and> rootOf u \<notin> set (nodes b)" using rootOf_in_nodes [of b] by metis
  qed
  have "pre1 \<noteq> [] \<Longrightarrow> ihi (ivl s (rootOf (last pre1))) + k \<le> ilo (ivl s (rootOf z))" using gap by simp
  then obtain cache1 s1 where p:
    "offsetBefore rt (rootOf u) w (rev (List.map rootOf pre1)) cache s = Some (Inr (cache1, s1))" "sameShape s s1"
    "ready T (rootOf u) cache1 s1" "fits (rootOf u) (ivl s1) y" "\<forall>x. x \<notin> waiting pre1 \<longrightarrow> ivl s1 x = ivl s x"
    "pre1 \<noteq> [] \<longrightarrow> ilo (ivl s1 (rootOf (hd pre1))) = ilo (ivl s (rootOf (hd pre1))) + k"
    using offsetBefore_shifts [OF R y fy ch' away k, of rt] by blast
  have iu: "ivl s1 (rootOf u) = ivl s (rootOf u)" using p(5) other by (auto simp: waiting_def)
  have gap1: "ihi (ivl s (rootOf u)) + k \<le> downTo (roots (ivl s1) (pre1 @ z # post)) (ihi (ivl s1 (rootOf y)) - 1)"
  proof (cases "pre1 = []")
    case True
    then show ?thesis using gap p(5) by (simp add: downTo_def)
  next
    case False
    then show ?thesis
      using neighbours(3) [OF fy y(2) ch] p(6) by (simp add: downTo_def hd_map hd_append)
  qed
  let ?r = "intervalIncreaseEnd (ivl s (rootOf u)) w"
  have "downTo (roots (ivl s1) (pre1 @ z # post)) (ihi (ivl s1 (rootOf y)) - 1) < ihi (ivl s1 (rootOf y))"
    using neighbours(4) [OF p(4) y(2) ch] .
  moreover have "ihi (ivl s1 (rootOf y)) < 2 ^ 64" using fits_root [OF p(4)] by (simp add: regular_def)
  ultimately have "ihi (ivl s (rootOf u)) + k < 2 ^ 64" using gap1 by simp
  moreover have "regular (ivl s (rootOf u))" using fits_root [OF fits_child [OF fy y(2) uy]] .
  ultimately have r: "ilo ?r = ilo (ivl s (rootOf u))" "ihi ?r = ihi (ivl s (rootOf u)) + k" "regular ?r"
    using increaseEnd_ends k by auto
  have size: "tsize u \<le> ilen ?r" using room r \<open>regular (ivl s (rootOf u))\<close> by (auto simp: ilen_def regular_def)
  have lo: "upTo (ilo (ivl s1 (rootOf y))) (roots (ivl s1) pre0) \<le> ilo ?r"
    using neighbours(1) [OF p(4) y(2) ch] iu r by simp
  obtain s2 cache' s' where q: "stageInterval s1 (rootOf u) ?r = Inr s2"
    "propagateInterval rt (rootOf u) cache1 s2 = Some (Inr (cache', s'))" "sameShape s1 s'"
    "ready T (rootOf u) cache' s'" "good (ivl s') u"
    using place_child [OF p(3) y(1) ch y(2) p(4) r(3) size lo gap1 [folded r(2)], of rt] by blast
  have rev: "rev (List.map rootOf (pre0 @ u # pre1)) = rev (List.map rootOf pre1) @ rootOf u # rev (List.map rootOf pre0)"
    by simp
  have "offsetBefore rt (rootOf u) w (rev (List.map rootOf (pre0 @ u # pre1))) cache s =
      offsetBefore rt (rootOf u) w (rootOf u # rev (List.map rootOf pre0)) cache1 s1"
    unfolding rev using offsetBefore_append [of "rev (List.map rootOf pre1)" "rootOf u" rt w] p(1) away by simp
  also have "\<dots> = Some (Inr (cache', s'))"
    using q(1,2) iu rep_root [OF treeStoreD(1) [OF readyD(1) [OF p(3)] uT]]
    by (subst offsetBefore.simps) (simp add: fetchInterval_present)
  finally show ?thesis using allocate_restores [OF q(4) uT q(5)] sameShape_trans [OF p(2) q(3)] by blast
qed

section \<open>Steps after the chain\<close>

lemma remainingIntervalAfter_correct:
  assumes T: "treeStore s T" "u \<in> set (subs T)" and g: "good (ivl s) u"
  shows "\<exists>ri. remainingIntervalAfter s (rootOf u) = Inr ri \<and> regular ri \<and> ilo ri = lastHi (ivl s) u
    \<and> ihi ri = ihi (ivl s (rootOf u)) - 1"
proof -
  let ?r = "ivl s (rootOf u)"
  have reg: "regular ?r" "ilo ?r < ihi ?r" using good_root [OF g] by auto
  note cr = child_range [OF reg]
  have range: "intervalRangeForChildAllocation s (rootOf u) = Inr (newReachabilityInterval (Start ?r) (End ?r - 1))"
    using rep_root [OF treeStoreD(1) [OF T]] by (simp add: intervalRangeForChildAllocation_def fetchInterval_present)
  show ?thesis
  proof (cases "subtrees u = []")
    case True
    then show ?thesis
      using range treeStoreD(4) [OF T] cr by (simp add: remainingIntervalAfter_def lastHi_def upTo_def)
  next
    case False
    let ?c = "last (subtrees u)"
    let ?ri = "newReachabilityInterval (End (ivl s (rootOf ?c)) + 1) (End ?r - 1)"
    have "?c \<in> set (subs T)" using subs_trans [OF T(2) subs_child] False by simp
    then have pc: "present s (rootOf ?c)" using rep_root treeStoreD(1) [OF T(1)] by blast
    have hi: "lastHi (ivl s) u = ihi (ivl s (rootOf ?c))" using False by (simp add: lastHi_def upTo_def last_map)
    have lt: "unat (End (ivl s (rootOf ?c))) + 1 < 2 ^ 64" "unat (End (ivl s (rootOf ?c))) + 1 \<le> unat (End ?r)"
      using good_lastHi [OF g] reg by (auto simp: hi ihi_def regular_def)
    have lo: "ilo ?ri = lastHi (ivl s) u" using lt by (simp add: hi ilo_def ihi_def unat_u64_add)
    have up: "ihi ?ri = ihi ?r - 1" using cr(2) by (simp add: ihi_def)
    then have "regular ?ri" using lo lt reg(1) hi unfolding regular_def up by (auto simp: ihi_def)
    then show ?thesis
      using range treeStoreD(4) [OF T] False pc lo up
      by (simp add: remainingIntervalAfter_def fetchInterval_present last_map)
  qed
qed

lemma remainingSlackAfter_correct:
  assumes T: "treeStore s T" "u \<in> set (subs T)" and g: "good (ivl s) u"
  shows "\<exists>w. remainingSlackAfter s (rootOf u) = Inr w \<and> unat w = ihi (ivl s (rootOf u)) - 1 - lastHi (ivl s) u"
  using remainingIntervalAfter_correct [OF assms] unat_intervalSize by (auto simp: remainingSlackAfter_def ilen_def)

lemma lower_end:
  assumes R: "ready T n cache s" and y: "y \<in> set (subs T)" "subtrees y = pre @ x # post" "rootOf y \<noteq> n" "fits n (ivl s) y"
    and g: "good (ivl s) x" and k: "unat w = k" "lastHi (ivl s) x + k < ihi (ivl s (rootOf x))"
  defines "r \<equiv> intervalDecreaseEnd (ivl s (rootOf x)) w"
  shows "\<exists>s'. stageInterval s (rootOf x) r = Inr s' \<and> sameShape s s' \<and> ready T n cache s' \<and> fits n (ivl s') y
    \<and> good (ivl s') x \<and> ivl s' = (ivl s)(rootOf x := r) \<and> ilo r = ilo (ivl s (rootOf x)) \<and> ihi r = ihi (ivl s (rootOf x)) - k"
proof -
  have T: "treeStore s T" using R by (auto dest: readyD)
  have xT: "x \<in> set (subs T)" using subs_trans [OF y(1) subs_child] y(2) by simp
  have "ilo (ivl s (rootOf x)) + k \<le> ihi (ivl s (rootOf x))" "regular (ivl s (rootOf x))"
    using good_lastHi [OF g] good_root [OF g] k(2) by auto
  note r = decreaseEnd_ends [OF this(2) k(1) this(1), folded r_def]
  obtain s' where s': "stageInterval s (rootOf x) r = Inr s'" "sameShape s s'" "ivl s' = (ivl s)(rootOf x := r)"
    using stageInterval_present [of s "rootOf x" r] rep_root [OF treeStoreD(1) [OF T xT]] by blast
  have dx: "distinct (nodes x)" using treeStoreD(2) [OF T xT] .
  have inner: "ivl s' z = ivl s z" if "c \<in> set (subtrees x)" "z \<in> set (nodes c)" for c z
    using dx that s'(3) by (cases x) auto
  have gx: "good (ivl s') x"
  proof -
    have ch: "good (ivl s') c" if "c \<in> set (subtrees x)" for c
      using good_cong [of c "ivl s'" "ivl s"] inner [OF that] good_subs [OF g subs_child [OF that]] by blast
    have maps: "roots (ivl s') (subtrees x) = roots (ivl s) (subtrees x)" using inner by auto
    have sp: "spaced (ilo r) (roots (ivl s) (subtrees x)) (ihi r - 1)"
      using spaced_upper [OF good_spaced [OF g], of "ihi r - 1"] r k(2) by (simp add: lastHi_def)
    have "ilo r < ihi r" using r k(2) good_lastHi [OF g] by auto
    moreover have "ivl s' (rootOf x) = r" by (simp add: s'(3))
    ultimately show ?thesis using ch r(3) sp goodI [of "ivl s'" x] unfolding maps by metis
  qed
  have "fits n (ivl s') T \<and> fits n (ivl s') y"
  proof (rule update_child [OF _ y(1-3) _ y(4) _ good_fits [OF gx]])
    show "distinct (nodes T)" "fits n (ivl s) T" using R by (auto dest: readyD)
    show "ivl s' z = ivl s z" if "z \<notin> set (nodes x)" for z using that s'(3) by auto
  qed (use neighbours [OF y(4,3,2)] r s'(3) in auto)
  then show ?thesis
    using s' r gx readyD [OF R] treeStore_sameShape [OF s'(2)] by (auto simp: ready_def)
qed

lemma offsetAfter_shifts:
  assumes "ready T n cache s" and y: "y \<in> set (subs T)" "rootOf y \<noteq> n" and "fits n (ivl s) y"
    and "subtrees y = pre @ z # post @ post0"
    and "\<forall>b\<in>set post. rootOf b \<noteq> a \<and> n \<notin> set (nodes b)" and k: "unat w = k"
    and "post \<noteq> [] \<Longrightarrow> ihi (ivl s (rootOf z)) + k \<le> ilo (ivl s (rootOf (hd post)))"
  shows "\<exists>cache' s'. offsetAfter rt a w (List.map rootOf post) cache s = Some (Inr (cache', s')) \<and> sameShape s s'
    \<and> ready T n cache' s' \<and> fits n (ivl s') y \<and> (\<forall>x. x \<notin> waiting post \<longrightarrow> ivl s' x = ivl s x)
    \<and> (post \<noteq> [] \<longrightarrow> ihi (ivl s (rootOf (last post))) = ihi (ivl s' (rootOf (last post))) + k)"
  using assms(1,4-6,8)
proof (induction post arbitrary: z pre s cache)
  case Nil
  then show ?case by (subst offsetAfter.simps) (simp add: ret_def)
next
  case (Cons b post)
  note R = Cons.prems(1) and fy = Cons.prems(2)
  have ch: "subtrees y = (pre @ [z]) @ b # (post @ post0)" using Cons.prems(3) by simp
  note T = readyD(1) [OF R]
  have b: "b \<in> set (subtrees y)" "n \<notin> set (nodes b)" "rootOf b \<noteq> a" using ch Cons.prems(4) by auto
  have bT: "b \<in> set (subs T)" using subs_trans [OF y(1) subs_child [OF b(1)]] .
  have gb: "good (ivl s) b" using ready_child [OF fy y(2) b(1,2)] .
  note nb = neighbours [OF fy y(2) ch]
  let ?r = "intervalDecrease (ivl s (rootOf b)) w"
  have le: "ihi (ivl s (rootOf z)) + k \<le> ilo (ivl s (rootOf b))" using Cons.prems(5) by simp
  then have "k < ilo (ivl s (rootOf b))" by (simp add: ihi_def)
  note r = decrease_ends [OF conjunct1 [OF good_root [OF gb]] k this]
  have big: "k \<le> ilo (ivl s (rootOf b))" using le by simp
  have size: "tsize b \<le> ilen ?r" using good_size [OF gb] r big good_root [OF gb] by (simp add: ilen_def)
  have lo: "upTo (ilo (ivl s (rootOf y))) (roots (ivl s) (pre @ [z])) \<le> ilo ?r" using le r(1) by (simp add: upTo_def)
  have hi: "ihi ?r \<le> downTo (roots (ivl s) (post @ post0)) (ihi (ivl s (rootOf y)) - 1)" using nb(3) r(2) by simp
  obtain s1 cache1 s2 where p: "stageInterval s (rootOf b) ?r = Inr s1"
    "propagateInterval rt (rootOf b) cache s1 = Some (Inr (cache1, s2))" "sameShape s s2" "ready T n cache1 s2"
    "fits n (ivl s2) y" "ivl s2 (rootOf b) = ?r" "\<forall>x. x \<notin> set (nodes b) \<longrightarrow> ivl s2 x = ivl s x"
    using place_child [OF R y(1) ch y(2) fy r(3) size lo hi] by blast
  note dc = distinct_children [OF T y(1), unfolded ch]
  have out: "ivl s2 x = ivl s x" if "c \<in> set post" "x \<in> set (nodes c)" for c x
    using sibling_outside [OF dc, of c x] that p(7) by auto
  have hib: "ihi (ivl s (rootOf b)) = ihi ?r + k" using r(2) big good_root [OF gb] by auto
  have gap: "ihi (ivl s2 (rootOf b)) + k \<le> ilo (ivl s2 (rootOf (hd post)))" if "post \<noteq> []"
  proof -
    have "ivl s2 (rootOf (hd post)) = ivl s (rootOf (hd post))" using out [of "hd post"] that by simp
    moreover have "ihi (ivl s (rootOf b)) \<le> ilo (ivl s (rootOf (hd post)))" using nb(3) that by (simp add: downTo_def hd_map)
    ultimately show ?thesis using p(6) hib by simp
  qed
  have ch2: "subtrees y = (pre @ [z]) @ b # post @ post0" using ch by simp
  obtain cache' s' where q: "offsetAfter rt a w (List.map rootOf post) cache1 s2 = Some (Inr (cache', s'))" "sameShape s2 s'"
    "ready T n cache' s'" "fits n (ivl s') y" "\<forall>x. x \<notin> waiting post \<longrightarrow> ivl s' x = ivl s2 x"
    "post \<noteq> [] \<longrightarrow> ihi (ivl s2 (rootOf (last post))) = ihi (ivl s' (rootOf (last post))) + k"
    using Cons.IH [OF p(4,5) ch2 _ gap] Cons.prems(4) by auto
  have "offsetAfter rt a w (List.map rootOf (b # post)) cache s = Some (Inr (cache', s'))"
    using b(3) p(1,2) q(1) rep_root [OF treeStoreD(1) [OF T bT]]
    by (subst offsetAfter.simps) (simp add: fetchInterval_present)
  moreover have "ivl s' x = ivl s x" if "x \<notin> waiting (b # post)" for x using that p(7) q(5) by auto
  moreover have "ihi (ivl s (rootOf (last (b # post)))) = ihi (ivl s' (rootOf (last (b # post)))) + k"
  proof (cases "post = []")
    case True
    then show ?thesis using q(5) p(6) hib by simp
  next
    case False
    then show ?thesis using q(6) out [of "last post" "rootOf (last post)"] by simp
  qed
  ultimately show ?case using q(3,4) sameShape_trans [OF p(3) q(2)] by blast
qed

lemma offsetAfter_append:
  "\<forall>b\<in>set xs. b \<noteq> a \<Longrightarrow> offsetAfter rt a w (xs @ ys) cache s =
    pbind (offsetAfter rt a w xs cache s) (\<lambda>r. offsetAfter rt a w ys (fst r) (snd r))"
proof (induction xs arbitrary: cache s)
  case Nil
  then show ?case by (subst (2) offsetAfter.simps) simp
next
  case (Cons x xs)
  then show ?case
    by (subst offsetAfter.simps, subst (2) offsetAfter.simps) (simp add: pbind_assoc cong: pbind_cong)
qed

lemma offsetAfter_allocates:
  assumes R: "ready T (rootOf u) cache s" and y: "y \<in> set (subs T)" "rootOf y \<noteq> rootOf u" and fy: "fits (rootOf u) (ivl s) y"
    and ch: "subtrees y = pre @ z # post @ u # post0" and k: "unat w = k"
    and gap: "ihi (ivl s (rootOf z)) + k \<le> ilo (ivl s (rootOf (hd (post @ [u]))))"
    and room: "tsize u \<le> ilen (ivl s (rootOf u)) + k"
  shows "\<exists>cache' s'. offsetAfter rt (rootOf u) w (List.map rootOf (post @ u # post0)) cache s = Some (Inr (cache', s'))
    \<and> sameShape s s' \<and> good (ivl s') T"
proof -
  note T = readyD(1) [OF R]
  have uy: "u \<in> set (subtrees y)" using ch by simp
  have uT: "u \<in> set (subs T)" using subs_trans [OF y(1) subs_child [OF uy]] .
  have ch': "subtrees y = (pre @ z # post) @ u # post0" using ch by simp
  note dc = distinct_children [OF T y(1), unfolded ch']
  have other: "rootOf u \<notin> set (nodes b)" if "b \<in> set (pre @ z # post)" for b
    using sibling_outside [OF dc, of b "rootOf u"] that by auto
  have away: "\<forall>b\<in>set post. rootOf b \<noteq> rootOf u \<and> rootOf u \<notin> set (nodes b)"
  proof
    fix b assume "b \<in> set post"
    then have "rootOf u \<notin> set (nodes b)" by (intro other) simp
    then show "rootOf b \<noteq> rootOf u \<and> rootOf u \<notin> set (nodes b)" using rootOf_in_nodes [of b] by metis
  qed
  have "post \<noteq> [] \<Longrightarrow> ihi (ivl s (rootOf z)) + k \<le> ilo (ivl s (rootOf (hd post)))" using gap by simp
  then obtain cache1 s1 where p:
    "offsetAfter rt (rootOf u) w (List.map rootOf post) cache s = Some (Inr (cache1, s1))" "sameShape s s1"
    "ready T (rootOf u) cache1 s1" "fits (rootOf u) (ivl s1) y" "\<forall>x. x \<notin> waiting post \<longrightarrow> ivl s1 x = ivl s x"
    "post \<noteq> [] \<longrightarrow> ihi (ivl s (rootOf (last post))) = ihi (ivl s1 (rootOf (last post))) + k"
    using offsetAfter_shifts [OF R y fy ch away k, of rt] by blast
  have iu: "ivl s1 (rootOf u) = ivl s (rootOf u)" using p(5) other by (auto simp: waiting_def)
  have gap1: "upTo (ilo (ivl s1 (rootOf y))) (roots (ivl s1) (pre @ z # post)) + k \<le> ilo (ivl s (rootOf u))"
  proof (cases "post = []")
    case True
    then show ?thesis using gap p(5) by (simp add: upTo_def)
  next
    case False
    then show ?thesis
      using neighbours(1) [OF fy y(2) ch'] p(6) by (simp add: upTo_def last_map last_append)
  qed
  let ?r = "intervalDecreaseStart (ivl s (rootOf u)) w"
  have "0 < upTo (ilo (ivl s1 (rootOf y))) (roots (ivl s1) (pre @ z # post))"
    by (simp add: upTo_def ihi_def last_map)
  then have "k < ilo (ivl s (rootOf u))" using gap1 by simp
  moreover have "regular (ivl s (rootOf u))" using fits_root [OF fits_child [OF fy y(2) uy]] .
  ultimately have r: "ilo ?r = ilo (ivl s (rootOf u)) - k" "ihi ?r = ihi (ivl s (rootOf u))" "regular ?r"
    using decreaseStart_ends k by auto
  have size: "tsize u \<le> ilen ?r"
    using room r \<open>regular (ivl s (rootOf u))\<close> \<open>k < ilo (ivl s (rootOf u))\<close> by (auto simp: ilen_def regular_def)
  have lo: "upTo (ilo (ivl s1 (rootOf y))) (roots (ivl s1) (pre @ z # post)) \<le> ilo ?r" using gap1 r(1) by simp
  have hi: "ihi ?r \<le> downTo (roots (ivl s1) post0) (ihi (ivl s1 (rootOf y)) - 1)"
    using neighbours(3) [OF p(4) y(2) ch'] iu r by simp
  obtain s2 cache' s' where q: "stageInterval s1 (rootOf u) ?r = Inr s2"
    "propagateInterval rt (rootOf u) cache1 s2 = Some (Inr (cache', s'))" "sameShape s1 s'"
    "ready T (rootOf u) cache' s'" "good (ivl s') u"
    using place_child [OF p(3) y(1) ch' y(2) p(4) r(3) size lo hi, of rt] by blast
  have "offsetAfter rt (rootOf u) w (List.map rootOf (post @ u # post0)) cache s =
      offsetAfter rt (rootOf u) w (rootOf u # List.map rootOf post0) cache1 s1"
    using offsetAfter_append [of "List.map rootOf post" "rootOf u" rt w "rootOf u # List.map rootOf post0"] p(1) away by simp
  also have "\<dots> = Some (Inr (cache', s'))"
    using q(1,2) iu rep_root [OF treeStoreD(1) [OF readyD(1) [OF p(3)] uT]]
    by (subst offsetAfter.simps) (simp add: fetchInterval_present)
  finally show ?thesis using allocate_restores [OF q(4) uT q(5)] sameShape_trans [OF p(2) q(3)] by blast
qed

section \<open>Siblings of a node of the chain\<close>

lemma splitAtPivot_correct:
  "x \<notin> set pre \<Longrightarrow> splitAtPivot x acc (pre @ x # post) = Inr (acc @ pre, post)"
  by (induction pre arbitrary: acc) auto

lemma siblings_of:
  assumes T: "treeStore s T" "y \<in> set (subs T)" and ch: "subtrees y = pre @ x # post"
  shows "parent s (rootOf x) = Inr (Some (rootOf y))"
    and "splitChildren s (rootOf y) (rootOf x) = Inr (List.map rootOf pre, List.map rootOf post)"
proof -
  show "parent s (rootOf x) = Inr (Some (rootOf y))" using treeStoreD(5) [OF T, of x] ch by simp
  have "distinct (List.map rootOf (subtrees y))" using distinct_roots [OF distinct_children [OF T]] .
  then have "rootOf x \<notin> set (List.map rootOf pre)" using ch by auto
  then show "splitChildren s (rootOf y) (rootOf x) = Inr (List.map rootOf pre, List.map rootOf post)"
    using treeStoreD(4) [OF T] ch splitAtPivot_correct [of "rootOf x" "List.map rootOf pre" "[]" "List.map rootOf post"]
    by (simp add: splitChildren_def)
qed

lemma offsetSiblings_unfold:
  assumes T: "treeStore s T" "y \<in> set (subs T)" and ch: "subtrees y = pre @ x # post"
  shows "offsetSiblingsBefore rt a (rootOf x) w cache s = offsetBefore rt a w (rev (List.map rootOf pre)) cache s"
    and "offsetSiblingsAfter rt a (rootOf x) w cache s = offsetAfter rt a w (List.map rootOf post) cache s"
  by (simp_all add: offsetSiblingsBefore_def offsetSiblingsAfter_def siblings_of [OF assms] nonNil_def)

end
