(* ===== verification/Reach_Chain.thy ===== *)
theory Reach_Chain
  imports Reach_Reclaim
begin

text \<open>
  The walks of \<open>reclaimIntervalBefore\<close> and \<open>reclaimIntervalAfter\<close> along the chain from the chosen
  child of the common ancestor to the reindex root. Both have the same shape, so the walk is
  verified once, in a locale whose parameters are the operations of one side and whose
  assumptions are what these operations promise, and the locale is interpreted for both
  sides.
\<close>

lemma ilen_less: "ilen r < 2 ^ 64 + 1"
  using u64_less [of "End r"] by (simp add: ilen_def ihi_def)

lemma unat_u64_mult: "unat (a :: u64) * unat b < 2 ^ 64 \<Longrightarrow> unat (a * b) = unat a * unat b"
  by (simp add: unat_word_ariths)

text \<open>A chain of subtrees, the deepest first, that ends in a child of \<open>a\<close>.\<close>

fun chain :: "rtree \<Rightarrow> rtree list \<Rightarrow> bool" where
  "chain a [] \<longleftrightarrow> False"
| "chain a [x] \<longleftrightarrow> x \<in> set (subtrees a)"
| "chain a (x # y # ys) \<longleftrightarrow> x \<in> set (subtrees y) \<and> chain a (y # ys)"

lemma chain_sub: "chain a (x # ys) \<Longrightarrow> x \<in> set (subs (last (x # ys)))"
proof (induction ys arbitrary: x)
  case (Cons y ys)
  then have "x \<in> set (subs y)" "y \<in> set (subs (last (y # ys)))" by (auto intro: subs_child)
  then show ?case using subs_trans by simp
qed simp

lemma chain_last: "chain a xs \<Longrightarrow> last xs \<in> set (subtrees a)"
  by (induction a xs rule: chain.induct) auto

lemma chain_size: "chain a (x # ys) \<Longrightarrow> tsize x + length ys < tsize a"
proof (induction ys arbitrary: x)
  case (Cons y ys)
  then have "tsize x < tsize y" "tsize y + length ys < tsize a" using child_smaller by auto
  then show ?case by simp
qed (auto dest: child_smaller)

lemma fits_above:
  assumes "fits n f t" and "distinct (nodes t)" and "y \<in> set (subs t)" and "n \<in> set (nodes y)"
  shows "fits n f y"
  using assms
proof (induction t rule: nodes.induct)
  case (1 h ts)
  show ?case
  proof (cases "y = RNode h ts")
    case True
    then show ?thesis using 1(2) by simp
  next
    case False
    then obtain b where b: "b \<in> set ts" "y \<in> set (subs b)" using 1(4) by auto
    then have "n \<in> set (nodes b)" using subsetD [OF subs_nodes 1(5)] by blast
    then have "h \<noteq> n" using 1(3) b(1) by auto
    moreover have "distinct (nodes b)" using 1(3) b(1) by (auto simp: distinct_concat_iff)
    ultimately show ?thesis using 1(1) [OF b(1)] 1(2,5) b by simp
  qed
qed

text \<open>What holds along a chain beside the subtree that needs room.\<close>

definition beside :: "rtree \<Rightarrow> rtree \<Rightarrow> rtree \<Rightarrow> rtree \<Rightarrow> bool" where
  "beside T a u c \<longleftrightarrow> distinct (nodes T) \<and> a \<in> set (subs T) \<and> u \<in> set (subtrees a) \<and> c \<in> set (subtrees a) \<and> c \<noteq> u"

lemma beside_facts:
  assumes b: "beside T a u c" and f: "fits (rootOf u) f T"
  shows "rootOf a \<noteq> rootOf u" and "fits (rootOf u) f a" and "rootOf u \<notin> set (nodes c)" and "good f c"
proof -
  have da: "distinct (nodes a)" using b distinct_subs by (auto simp: beside_def)
  have u: "u \<in> set (subtrees a)" and c: "c \<in> set (subtrees a)" "c \<noteq> u" using b by (auto simp: beside_def)
  have "rootOf a \<notin> set (nodes u)" using root_not_inside [OF da subs_self u] .
  then show ne: "rootOf a \<noteq> rootOf u" using rootOf_in_nodes [of u] by metis
  have "rootOf u \<in> set (nodes a)" using subs_nodes [OF subs_child [OF u]] by auto
  then show fa: "fits (rootOf u) f a" using fits_above [OF f] b by (auto simp: beside_def)
  have "distinct (concat (List.map nodes (subtrees a)))" using da by (cases a) simp
  then have "set (nodes c) \<inter> set (nodes u) = {}" using siblings_apart c u by blast
  then show nc: "rootOf u \<notin> set (nodes c)" using rootOf_in_nodes [of u] by blast
  show "good f c" using fits_child [OF fa ne c(1)] fits_good [OF nc] by blast
qed

lemma chain_facts:
  assumes b: "beside T a u c" and f: "fits (rootOf u) f T" and ch: "chain a (x # ys)" "last (x # ys) = c"
  shows "x \<in> set (subs T)" and "good f x" and "rootOf u \<notin> set (nodes x)" and "rootOf x \<noteq> rootOf a"
    and "set (nodes x) \<subseteq> set (nodes c)"
proof -
  have xc: "x \<in> set (subs c)" using chain_sub [OF ch(1)] ch(2) by simp
  have c: "c \<in> set (subtrees a)" "a \<in> set (subs T)" "distinct (nodes T)" using b by (auto simp: beside_def)
  show "x \<in> set (subs T)" using subs_trans [OF c(2) subs_trans [OF subs_child [OF c(1)] xc]] .
  show "good f x" using good_subs [OF beside_facts(4) [OF b f] xc] .
  show sub: "set (nodes x) \<subseteq> set (nodes c)" using subs_nodes [OF xc] .
  then show "rootOf u \<notin> set (nodes x)" using beside_facts(3) [OF b f] by (meson subsetD)
  have "rootOf a \<notin> set (nodes c)" using root_not_inside [OF distinct_subs [OF c(3,2)] subs_self c(1)] .
  then show "rootOf x \<noteq> rootOf a" using subsetD [OF sub rootOf_in_nodes] by metis
qed

text \<open>A node of the chain and its children lie outside what is below a deeper node.\<close>

lemma chain_outside:
  assumes d: "distinct (nodes y)" and x: "x \<in> set (subtrees y)"
  shows "rootOf y \<notin> below [x]" and "c \<in> set (subtrees y) \<Longrightarrow> rootOf c \<notin> below [x]" and "below [x] \<subseteq> below [y]"
proof -
  have sub: "below [x] \<subseteq> set (nodes x)" using below_waiting [of "[x]"] by simp
  have "rootOf y \<notin> set (nodes x)" using root_not_inside [OF d subs_self x] .
  then show "rootOf y \<notin> below [x]" using sub by (meson subsetD)
  have dc: "distinct (concat (List.map nodes (subtrees y)))" using d by (cases y) simp
  have rc: "rootOf c \<notin> below (subtrees y)" if "c \<in> set (subtrees y)" using roots_not_below [OF dc that] .
  moreover have "below [x] \<subseteq> below (subtrees y)" using x by (auto simp: below_def)
  ultimately show "c \<in> set (subtrees y) \<Longrightarrow> rootOf c \<notin> below [x]" by (meson subsetD)
  show "below [x] \<subseteq> below [y]" using sub x by (auto simp: below_def)
qed

locale reclaim_side =
  fixes slack :: "(DomainHash \<Rightarrow> ReachabilityInterval) \<Rightarrow> rtree \<Rightarrow> nat"
    and narrow :: "ReachabilityInterval \<Rightarrow> u64 \<Rightarrow> ReachabilityInterval"
    and remaining :: "reachStore \<Rightarrow> DomainHash \<Rightarrow> reach_error + u64"
    and siblings :: "reachabilityManager \<Rightarrow> DomainHash \<Rightarrow> DomainHash \<Rightarrow> u64 \<Rightarrow> subTreeSizes \<Rightarrow> reachStore
      \<Rightarrow> (reach_error + subTreeSizes \<times> reachStore) option"
    and up :: "reachabilityManager \<Rightarrow> DomainHash \<Rightarrow> DomainHash \<Rightarrow> u64 \<Rightarrow> DomainHash \<Rightarrow> u64 \<Rightarrow> u64 \<Rightarrow> subTreeSizes
      \<Rightarrow> reachStore \<Rightarrow> (reach_error + DomainHash \<times> u64 \<times> subTreeSizes \<times> reachStore) option"
    and down :: "reachabilityManager \<Rightarrow> DomainHash \<Rightarrow> DomainHash \<Rightarrow> u64 \<Rightarrow> DomainHash \<Rightarrow> subTreeSizes \<Rightarrow> reachStore
      \<Rightarrow> (reach_error + subTreeSizes \<times> reachStore) option"
    and outer :: "rtree \<Rightarrow> rtree \<Rightarrow> rtree \<Rightarrow> bool"
    and moved :: "rtree \<Rightarrow> DomainHash \<Rightarrow> nat \<Rightarrow> rtree \<Rightarrow> rtree \<Rightarrow> subTreeSizes \<Rightarrow> reachStore \<Rightarrow> reachStore \<Rightarrow> bool"
  assumes remaining_slack: "treeStore s T \<Longrightarrow> x \<in> set (subs T) \<Longrightarrow> good (ivl s) x
      \<Longrightarrow> \<exists>w. remaining s (rootOf x) = Inr w \<and> unat w = slack (ivl s) x"
    and slack_bound: "good f x \<Longrightarrow> slack f x < ilen (f (rootOf x))"
    and slack_child: "good f x \<Longrightarrow> c \<in> set (subtrees x) \<Longrightarrow> slack f x + ilen (f (rootOf c)) < ilen (f (rootOf x))"
    and slack_local: "f (rootOf x) = g (rootOf x) \<Longrightarrow> (\<And>c. c \<in> set (subtrees x) \<Longrightarrow> f (rootOf c) = g (rootOf c))
      \<Longrightarrow> slack f x = slack g x"
    and narrow_stage: "ready T n cache s \<Longrightarrow> y \<in> set (subs T) \<Longrightarrow> x \<in> set (subtrees y) \<Longrightarrow> rootOf y \<noteq> n
      \<Longrightarrow> fits n (ivl s) y \<Longrightarrow> good (ivl s) x \<Longrightarrow> unat w \<le> slack (ivl s) x
      \<Longrightarrow> \<exists>s'. stageInterval s (rootOf x) (narrow (ivl s (rootOf x)) w) = Inr s' \<and> moved T n (unat w) y x cache s s'"
    and narrow_place: "ready T n cache s \<Longrightarrow> y \<in> set (subs T) \<Longrightarrow> x \<in> set (subtrees y) \<Longrightarrow> rootOf y \<noteq> n
      \<Longrightarrow> fits n (ivl s) y \<Longrightarrow> good (ivl s) x \<Longrightarrow> tsize x + unat w \<le> ilen (ivl s (rootOf x))
      \<Longrightarrow> \<exists>s1 cache' s'. stageInterval s (rootOf x) (narrow (ivl s (rootOf x)) w) = Inr s1
            \<and> propagateInterval rt (rootOf x) cache s1 = Some (Inr (cache', s')) \<and> moved T n (unat w) y x cache' s s'"
    and shift: "moved T n (unat w) y x cache s s' \<Longrightarrow> n \<notin> set (nodes y)
      \<Longrightarrow> \<exists>cache2 s2. siblings rt n (rootOf x) w cache s' = Some (Inr (cache2, s2)) \<and> sameShape s s2 \<and> ready T n cache2 s2
            \<and> slack (ivl s2) y = slack (ivl s) y + unat w \<and> (\<forall>z. z \<notin> below [y] \<longrightarrow> ivl s2 z = ivl s z)"
    and allocate: "moved T (rootOf u) (unat w) y x cache s s' \<Longrightarrow> outer y u x
      \<Longrightarrow> tsize u \<le> ilen (ivl s (rootOf u)) + unat w
      \<Longrightarrow> \<exists>cache2 s2. siblings rt (rootOf u) (rootOf x) w cache s' = Some (Inr (cache2, s2)) \<and> sameShape s s2
            \<and> good (ivl s2) T"
    and up_unfold: "up rt allocationNode rootHash requiredAllocation current slackSum pathLen cache s =
     (if current = rootHash then
        pbind (ret (fetchInterval s current)) (\<lambda>previousInterval.
        let offset = requiredAllocation + reindexSlack rt * pathLen - slackSum
        in pbind (ret (stageInterval s current (narrow previousInterval offset))) (\<lambda>s1.
           pbind (propagateInterval rt current cache s1) (\<lambda>r2.
           pbind (siblings rt allocationNode current offset (fst r2) (snd r2)) (\<lambda>r3.
             ret (Inr (current, reindexSlack rt, fst r3, snd r3))))))
      else
        pbind (ret (remaining s current)) (\<lambda>slackCurrent.
        let slackSum' = slackSum + slackCurrent
        in if slackSum' \<ge> requiredAllocation then
             pbind (ret (fetchInterval s current)) (\<lambda>previousInterval.
             let offset = slackCurrent - (slackSum' - requiredAllocation)
             in pbind (ret (stageInterval s current (narrow previousInterval offset))) (\<lambda>s1.
                pbind (siblings rt allocationNode current offset cache s1) (\<lambda>r2.
                  ret (Inr (current, 0, fst r2, snd r2)))))
           else
             pbind (ret (FindNextAncestor s rootHash current)) (\<lambda>current'.
               up rt allocationNode rootHash requiredAllocation current' slackSum' (pathLen + 1) cache s)))"
    and down_unfold: "down rt allocationNode commonAncestor pathSlackAlloc current cache s =
     pbind (ret (parent s current)) (\<lambda>p.
       if p = Some commonAncestor then ret (Inr (cache, s))
       else pbind (ret (nonNil NilHash p)) (\<lambda>current'.
            pbind (ret (fetchInterval s current')) (\<lambda>originalInterval.
            pbind (ret (remaining s current')) (\<lambda>slackCurrent.
            let offset = slackCurrent - pathSlackAlloc
            in pbind (ret (stageInterval s current' (narrow originalInterval offset))) (\<lambda>s1.
               pbind (siblings rt allocationNode current' offset cache s1) (\<lambda>r2.
                 down rt allocationNode commonAncestor pathSlackAlloc current' (fst r2) (snd r2)))))))"
begin

text \<open>The sum of the slacks collected along a chain stays inside the interval the chain starts in.\<close>

lemma slackSum_bound:
  assumes "chain a (x # ys)" and "good f (last (x # ys))"
  shows "(\<Sum>y\<leftarrow>ys. slack f y) + ilen (f (rootOf x)) \<le> ilen (f (rootOf (last (x # ys))))"
  using assms
proof (induction ys arbitrary: x)
  case (Cons y ys)
  then have xy: "x \<in> set (subtrees y)" "chain a (y # ys)" by auto
  have "good f y" using good_subs [OF _ chain_sub [OF xy(2)]] Cons.prems(2) by simp
  then have "slack f y + ilen (f (rootOf x)) < ilen (f (rootOf y))" using slack_child xy(1) by blast
  then show ?case using Cons.IH [OF xy(2)] Cons.prems(2) by simp
qed simp

text \<open>
  The walk down: after the deepest node of the chain has moved by the offset that its depth
  asks for, every node above moves by its own offset and the last step allocates.
\<close>

lemma down_correct:
  assumes b: "beside T a u c" "outer a u c" and m: "tsize u \<le> m"
    and "chain a (x # ys)" and "last (x # ys) = c" and "treeStore s T"
    and "ys = [] \<Longrightarrow> good (ivl s) T"
    and "ys \<noteq> [] \<Longrightarrow> ready T (rootOf u) cache s \<and> (\<forall>z. z \<notin> below [hd ys] \<longrightarrow> ivl s z = f z)
      \<and> slack (ivl s) (hd ys) + (\<Sum>y\<leftarrow>ys. slack f y) = slack f (hd ys) + m + unat alloc * length ys"
    and "(\<Sum>y\<leftarrow>ys. slack f y) \<le> m"
  shows "\<exists>cache' s'. down rt (rootOf u) (rootOf a) alloc (rootOf x) cache s = Some (Inr (cache', s'))
    \<and> sameShape s s' \<and> good (ivl s') T"
  using assms(4-)
proof (induction ys arbitrary: x cache s)
  case Nil
  have "parent s (rootOf x) = Inr (Some (rootOf a))"
    using treeStoreD(5) [OF Nil.prems(3), of a x] Nil.prems(1) b(1) by (simp add: beside_def)
  then show ?case using Nil.prems(4) by (subst down_unfold) (simp add: ret_def)
next
  case (Cons y zs)
  let ?n = "rootOf u"
  note T = Cons.prems(3)
  have xy: "x \<in> set (subtrees y)" and ch: "chain a (y # zs)" "last (y # zs) = c" using Cons.prems(1,2) by auto
  have R: "ready T ?n cache s" and frame: "\<forall>z. z \<notin> below [y] \<longrightarrow> ivl s z = f z"
    and sum: "slack (ivl s) y + (slack f y + (\<Sum>y\<leftarrow>zs. slack f y)) = slack f y + m + unat alloc * Suc (length zs)"
    using Cons.prems(5) by auto
  note F = readyD(3) [OF R]
  note cf = chain_facts [OF b(1) F ch]
  have par: "parent s (rootOf x) = Inr (Some (rootOf y))" using treeStoreD(5) [OF T cf(1) xy] .
  obtain w where w: "remaining s (rootOf y) = Inr w" "unat w = slack (ivl s) y" using remaining_slack [OF T cf(1,2)] by blast
  define k where "k = slack (ivl s) y - unat alloc"
  have zs: "(\<Sum>y\<leftarrow>zs. slack f y) \<le> m" using Cons.prems(6) by simp
  have sum': "slack (ivl s) y + (\<Sum>y\<leftarrow>zs. slack f y) = m + unat alloc + unat alloc * length zs" using sum by simp
  have uk: "unat (w - alloc) = k" using sum' zs w(2) by (simp add: unat_u64_diff k_def)
  have k: "k + (\<Sum>y\<leftarrow>zs. slack f y) = m + unat alloc * length zs" using sum' zs by (simp add: k_def)
  have kle: "unat (w - alloc) \<le> slack (ivl s) y" unfolding uk by (simp add: k_def)
  have pres: "fetchInterval s (rootOf y) = Inr (ivl s (rootOf y))"
    using rep_root [OF treeStoreD(1) [OF T cf(1)]] by (simp add: fetchInterval_present)
  have step: "down rt ?n (rootOf a) alloc (rootOf x) cache s =
      down rt ?n (rootOf a) alloc (rootOf y) cache2 s2"
    if "stageInterval s (rootOf y) (narrow (ivl s (rootOf y)) (w - alloc)) = Inr s1"
      "siblings rt ?n (rootOf y) (w - alloc) cache s1 = Some (Inr (cache2, s2))" for s1 cache2 s2
    using that par cf(4) pres w(1) by (subst down_unfold) (simp add: nonNil_def)
  show ?case
  proof (cases zs)
    case Nil
    then have y: "y = c" "y \<in> set (subtrees a)" using ch by auto
    have a: "a \<in> set (subs T)" using b(1) by (simp add: beside_def)
    obtain s1 where s1: "stageInterval s (rootOf y) (narrow (ivl s (rootOf y)) (w - alloc)) = Inr s1"
      "moved T ?n (unat (w - alloc)) a y cache s s1"
      using narrow_stage [OF R a y(2) beside_facts(1,2) [OF b(1) F] cf(2) kle] by blast
    have "tsize u \<le> ilen (ivl s (rootOf u)) + unat (w - alloc)" using m k Nil uk by simp
    then obtain cache2 s2 where s2: "siblings rt ?n (rootOf y) (w - alloc) cache s1 = Some (Inr (cache2, s2))"
      "sameShape s s2" "good (ivl s2) T"
      using allocate [OF s1(2)] b(2) y(1) by blast
    have "\<exists>cache' s'. down rt ?n (rootOf a) alloc (rootOf y) cache2 s2 = Some (Inr (cache', s'))
        \<and> sameShape s2 s' \<and> good (ivl s') T"
      using Cons.IH [of y s2 cache2] ch treeStore_sameShape [OF s2(2) T] s2(3) Nil by simp
    then show ?thesis using step [OF s1(1) s2(1)] sameShape_trans [OF s2(2)] by auto
  next
    case (Cons z zs')
    have ch': "chain a (z # zs')" "last (z # zs') = c" and yz: "y \<in> set (subtrees z)" using ch Cons by auto
    note cz = chain_facts [OF b(1) F ch']
    have nz: "rootOf z \<noteq> ?n" using cz(3) rootOf_in_nodes [of z] by metis
    obtain s1 where s1: "stageInterval s (rootOf y) (narrow (ivl s (rootOf y)) (w - alloc)) = Inr s1"
      "moved T ?n (unat (w - alloc)) z y cache s s1"
      using narrow_stage [OF R cz(1) yz nz good_fits [OF cz(2)] cf(2) kle] by blast
    obtain cache2 s2 where s2: "siblings rt ?n (rootOf y) (w - alloc) cache s1 = Some (Inr (cache2, s2))"
      "sameShape s s2" "ready T ?n cache2 s2" "slack (ivl s2) z = slack (ivl s) z + k"
      "\<forall>v. v \<notin> below [z] \<longrightarrow> ivl s2 v = ivl s v"
      using shift [OF s1(2) cz(3), of rt] uk by auto
    note out = chain_outside [OF treeStoreD(2) [OF T cz(1)] yz]
    have "slack (ivl s) z = slack f z" using frame out(1,2) by (intro slack_local) simp_all
    moreover have "ivl s2 v = f v" if "v \<notin> below [z]" for v using that s2(5) frame subsetD [OF out(3)] by metis
    moreover have "slack f z + k + (slack f z + (\<Sum>y\<leftarrow>zs'. slack f y)) = slack f z + m + unat alloc * Suc (length zs')"
      using k Cons by simp
    ultimately have "\<exists>cache' s'. down rt ?n (rootOf a) alloc (rootOf y) cache2 s2 = Some (Inr (cache', s'))
        \<and> sameShape s2 s' \<and> good (ivl s') T"
      using Cons.IH [of y s2 cache2] ch treeStore_sameShape [OF s2(2) T] s2(3,4) zs Cons by simp
    then show ?thesis using step [OF s1(1) s2(1)] sameShape_trans [OF s2(2)] by auto
  qed
qed

lemma chain_parent:
  assumes b: "beside T a u c" and F: "fits (rootOf u) f T" and ch: "chain a (x # ys)" "last (x # ys) = c"
  shows "x \<in> set (subtrees (hd (ys @ [a])))" and "hd (ys @ [a]) \<in> set (subs T)" and "rootOf (hd (ys @ [a])) \<noteq> rootOf u"
    and "fits (rootOf u) f (hd (ys @ [a]))"
proof -
  have "x \<in> set (subtrees (hd (ys @ [a]))) \<and> hd (ys @ [a]) \<in> set (subs T) \<and> rootOf (hd (ys @ [a])) \<noteq> rootOf u
      \<and> fits (rootOf u) f (hd (ys @ [a]))"
  proof (cases ys)
    case Nil
    then show ?thesis using beside_facts(1,2) [OF b F] b ch(1) by (simp add: beside_def)
  next
    case (Cons y zs)
    then have ch': "chain a (y # zs)" "last (y # zs) = c" using ch by auto
    note cf = chain_facts [OF b F ch']
    have "rootOf y \<noteq> rootOf u" using cf(3) rootOf_in_nodes [of y] by metis
    then show ?thesis using cf ch(1) good_fits Cons by simp
  qed
  then show "x \<in> set (subtrees (hd (ys @ [a])))" "hd (ys @ [a]) \<in> set (subs T)" "rootOf (hd (ys @ [a])) \<noteq> rootOf u"
    "fits (rootOf u) f (hd (ys @ [a]))" by auto
qed

lemma finish_up:
  assumes b: "beside T a u c" "outer a u c" and m: "tsize u \<le> m" and F: "fits (rootOf u) (ivl s) T"
    and ch: "chain a (x # ys)" "last (x # ys) = c" and mv: "moved T (rootOf u) (unat w) (hd (ys @ [a])) x cache s s1"
    and k: "unat w + (\<Sum>y\<leftarrow>ys. slack (ivl s) y) = m + alloc * length ys"
  shows "\<exists>cache2 s2. siblings rt (rootOf u) (rootOf x) w cache s1 = Some (Inr (cache2, s2)) \<and> sameShape s s2
    \<and> (ys = [] \<longrightarrow> good (ivl s2) T)
    \<and> (ys \<noteq> [] \<longrightarrow> ready T (rootOf u) cache2 s2 \<and> (\<forall>z. z \<notin> below [hd ys] \<longrightarrow> ivl s2 z = ivl s z)
      \<and> slack (ivl s2) (hd ys) + (\<Sum>y\<leftarrow>ys. slack (ivl s) y) = slack (ivl s) (hd ys) + m + alloc * length ys)"
proof (cases ys)
  case Nil
  then have "outer a u x" "tsize u \<le> ilen (ivl s (rootOf u)) + unat w" using b(2) ch(2) m k by auto
  then show ?thesis using allocate [of T u w a x cache s s1 rt] mv Nil by auto
next
  case (Cons y zs)
  then have ch': "chain a (y # zs)" "last (y # zs) = c" using ch by auto
  have "rootOf u \<notin> set (nodes y)" using chain_facts(3) [OF b(1) F ch'] .
  then show ?thesis using shift [of T "rootOf u" w y x cache s s1 rt] mv Cons k by auto
qed

lemma up_correct:
  assumes b: "beside T a u c" "outer a u c" and m: "tsize u \<le> m" "unat required = m" and R: "ready T (rootOf u) cache s"
    and cap: "m + unat (reindexSlack rt) * tsize T + tsize T \<le> ilen (ivl s rootHash)"
    and "chain a (x # ys)" and "last (x # ys) = c" and "rootHash \<in> set (nodes x)"
    and "unat slackSum = (\<Sum>y\<leftarrow>ys. slack (ivl s) y)" and "(\<Sum>y\<leftarrow>ys. slack (ivl s) y) \<le> m" and "unat pathLen = length ys"
  shows "\<exists>x' ys' alloc cache2 s2. up rt (rootOf u) rootHash required (rootOf x) slackSum pathLen cache s =
        Some (Inr (rootOf x', alloc, cache2, s2))
    \<and> chain a (x' # ys') \<and> last (x' # ys') = c \<and> sameShape s s2 \<and> (\<Sum>y\<leftarrow>ys'. slack (ivl s) y) \<le> m
    \<and> (ys' = [] \<longrightarrow> good (ivl s2) T)
    \<and> (ys' \<noteq> [] \<longrightarrow> ready T (rootOf u) cache2 s2 \<and> (\<forall>z. z \<notin> below [hd ys'] \<longrightarrow> ivl s2 z = ivl s z)
      \<and> slack (ivl s2) (hd ys') + (\<Sum>y\<leftarrow>ys'. slack (ivl s) y) = slack (ivl s) (hd ys') + m + unat alloc * length ys')"
  using assms(7-)
proof (induction "tsize x" arbitrary: x ys slackSum pathLen rule: less_induct)
  case less
  let ?n = "rootOf u" and ?S = "\<Sum>y\<leftarrow>ys. slack (ivl s) y"
  note T = readyD(1) [OF R] and F = readyD(3) [OF R]
  note ch = less.prems(1,2)
  note cf = chain_facts [OF b(1) F ch] and cp = chain_parent [OF b(1) F ch]
  have pres: "fetchInterval s (rootOf x) = Inr (ivl s (rootOf x))"
    using rep_root [OF treeStoreD(1) [OF T cf(1)]] by (simp add: fetchInterval_present)
  show ?case
  proof (cases "rootOf x = rootHash")
    case True
    define w where "w = required + reindexSlack rt * pathLen - slackSum"
    have size: "tsize x + length ys < tsize T"
      using chain_size [OF ch(1)] tsize_subs [of a T] b(1) by (simp add: beside_def)
    then have le: "unat (reindexSlack rt) * length ys \<le> unat (reindexSlack rt) * tsize T" by simp
    have lt: "m + unat (reindexSlack rt) * length ys < 2 ^ 64"
      using le cap size ilen_less [of "ivl s rootHash"] by linarith
    then have "unat (required + reindexSlack rt * pathLen) = m + unat (reindexSlack rt) * length ys"
      using m(2) less.prems(6) by (simp add: unat_u64_add unat_u64_mult)
    then have w: "unat w + ?S = m + unat (reindexSlack rt) * length ys"
      using less.prems(4,5) unfolding w_def by (simp add: unat_u64_diff)
    have "tsize x + unat w \<le> ilen (ivl s (rootOf x))" unfolding True using w cap le size by linarith
    then obtain s1 cache1 s2 where s2: "stageInterval s (rootOf x) (narrow (ivl s (rootOf x)) w) = Inr s1"
      "propagateInterval rt (rootOf x) cache s1 = Some (Inr (cache1, s2))" "moved T ?n (unat w) (hd (ys @ [a])) x cache1 s s2"
      using narrow_place [OF R cp(2,1,3,4) cf(2), of w rt] by blast
    obtain cache3 s3 where s3: "siblings rt ?n (rootOf x) w cache1 s2 = Some (Inr (cache3, s3))" "sameShape s s3"
      "ys = [] \<longrightarrow> good (ivl s3) T"
      "ys \<noteq> [] \<longrightarrow> ready T ?n cache3 s3 \<and> (\<forall>z. z \<notin> below [hd ys] \<longrightarrow> ivl s3 z = ivl s z)
        \<and> slack (ivl s3) (hd ys) + ?S = slack (ivl s) (hd ys) + m + unat (reindexSlack rt) * length ys"
      using finish_up [OF b m(1) F ch s2(3) w, of rt] by blast
    have "up rt ?n rootHash required (rootOf x) slackSum pathLen cache s =
        Some (Inr (rootOf x, reindexSlack rt, cache3, s3))"
      using True pres s2(1,2) s3(1) by (subst up_unfold) (simp add: w_def [symmetric] ret_def)
    then show ?thesis using ch s3(2-4) less.prems(5) by blast
  next
    case False
    obtain w0 where w0: "remaining s (rootOf x) = Inr w0" "unat w0 = slack (ivl s) x"
      using remaining_slack [OF T cf(1,2)] by blast
    have "good (ivl s) (last (x # ys))" using beside_facts(4) [OF b(1) F] ch(2) by simp
    then have "?S + slack (ivl s) x < 2 ^ 64"
      using slackSum_bound [OF ch(1)] slack_bound [OF cf(2)] ilen_less [of "ivl s (rootOf (last (x # ys)))"] by fastforce
    then have sum: "unat (slackSum + w0) = ?S + slack (ivl s) x" using less.prems(4) w0(2) by (simp add: unat_u64_add)
    show ?thesis
    proof (cases "required \<le> slackSum + w0")
      case enough: True
      define w where "w = w0 - (slackSum + w0 - required)"
      have ge: "m \<le> ?S + slack (ivl s) x" using enough sum m(2) by (simp add: word_le_nat_alt)
      have "unat w = m - ?S" using m(2) less.prems(4,5) unfolding w_def by (simp add: unat_u64_diff)
      then have w: "unat w + ?S = m + 0 * length ys" "unat w \<le> slack (ivl s) x" using less.prems(5) ge by auto
      obtain s1 where s1: "stageInterval s (rootOf x) (narrow (ivl s (rootOf x)) w) = Inr s1"
        "moved T ?n (unat w) (hd (ys @ [a])) x cache s s1"
        using narrow_stage [OF R cp(2,1,3,4) cf(2) w(2)] by blast
      obtain cache3 s3 where s3: "siblings rt ?n (rootOf x) w cache s1 = Some (Inr (cache3, s3))" "sameShape s s3"
        "ys = [] \<longrightarrow> good (ivl s3) T"
        "ys \<noteq> [] \<longrightarrow> ready T ?n cache3 s3 \<and> (\<forall>z. z \<notin> below [hd ys] \<longrightarrow> ivl s3 z = ivl s z)
          \<and> slack (ivl s3) (hd ys) + ?S = slack (ivl s) (hd ys) + m + 0 * length ys"
        using finish_up [OF b m(1) F ch s1(2) w(1), of rt] by blast
      have "up rt ?n rootHash required (rootOf x) slackSum pathLen cache s = Some (Inr (rootOf x, 0, cache3, s3))"
        using False pres w0(1) enough s1(1) s3(1) by (subst up_unfold) (simp add: w_def [symmetric] ret_def)
      moreover have "0 = unat (0 :: u64)" by simp
      ultimately show ?thesis using ch s3(2-4) less.prems(5) by metis
    next
      case more: False
      then have lt: "?S + slack (ivl s) x < m" using sum m(2) by (simp add: word_le_nat_alt)
      obtain d where d: "d \<in> set (subtrees x)" "rootHash \<in> set (nodes d)" using less.prems(3) False by (cases x) auto
      obtain pre post where pp: "subtrees x = pre @ d # post" using split_list [OF d(1)] by blast
      have gd: "good (ivl s) d" using good_subs [OF cf(2) subs_child [OF d(1)]] .
      have fna: "FindNextAncestor s rootHash (rootOf x) = Inr (rootOf d)"
        using FindNextAncestor_correct [OF T cf(1) pp good_spaced [OF cf(2)] gd d(2)] .
      have "unat (pathLen + 1) = Suc (length ys)"
        using less.prems(6) chain_size [OF ch(1)] tsize_subs [of a T] b(1) T unat_u64_add [of pathLen 1]
        by (simp add: beside_def treeStore_def)
      moreover have "chain a (d # x # ys)" "last (d # x # ys) = c" using d(1) ch by auto
      moreover have "up rt ?n rootHash required (rootOf x) slackSum pathLen cache s =
          up rt ?n rootHash required (rootOf d) (slackSum + w0) (pathLen + 1) cache s"
        using False w0(1) more fna by (subst up_unfold) simp
      ultimately show ?thesis
        using less.hyps [OF child_smaller [OF d(1)], of "x # ys" "slackSum + w0" "pathLen + 1"] d(2) sum lt by simp
    qed
  qed
qed

lemma reclaim_correct:
  assumes b: "beside T a u c" "outer a u c" and m: "unat required = tsize u" and R: "ready T (rootOf u) cache s"
    and root: "rootHash \<in> set (nodes c)"
    and cap: "unat (reindexSlack rt) * tsize T + 2 * tsize T \<le> ilen (ivl s rootHash)"
  shows "\<exists>cache' s'. pbind (up rt (rootOf u) rootHash required (rootOf c) 0 0 cache s) (\<lambda>(current, alloc, cache1, s1).
      down rt (rootOf u) (rootOf a) alloc current cache1 s1) = Some (Inr (cache', s')) \<and> sameShape s s' \<and> good (ivl s') T"
proof -
  have "tsize u \<le> tsize T"
    using b(1) tsize_subs [of u T] subs_trans [of a T u] subs_child [of u a] by (simp add: beside_def)
  then have cap': "tsize u + unat (reindexSlack rt) * tsize T + tsize T \<le> ilen (ivl s rootHash)" using cap by simp
  have ch: "chain a [c]" "last [c] = c" using b(1) by (auto simp: beside_def)
  have start: "unat (0 :: u64) = (\<Sum>y\<leftarrow>[]. slack (ivl s) y)" "(\<Sum>y\<leftarrow>[]. slack (ivl s) y) \<le> tsize u"
    "unat (0 :: u64) = length ([] :: rtree list)" by simp_all
  obtain x ys alloc cache2 s2 where r: "up rt (rootOf u) rootHash required (rootOf c) 0 0 cache s =
        Some (Inr (rootOf x, alloc, cache2, s2))"
      "chain a (x # ys)" "last (x # ys) = c" "sameShape s s2" "(\<Sum>y\<leftarrow>ys. slack (ivl s) y) \<le> tsize u"
      "ys = [] \<longrightarrow> good (ivl s2) T"
      "ys \<noteq> [] \<longrightarrow> ready T (rootOf u) cache2 s2 \<and> (\<forall>z. z \<notin> below [hd ys] \<longrightarrow> ivl s2 z = ivl s z)
        \<and> slack (ivl s2) (hd ys) + (\<Sum>y\<leftarrow>ys. slack (ivl s) y) = slack (ivl s) (hd ys) + tsize u + unat alloc * length ys"
    using up_correct [OF b order_refl m R cap' ch root start] by blast
  have "treeStore s2 T" using treeStore_sameShape [OF r(4) readyD(1) [OF R]] .
  then obtain cache' s' where "down rt (rootOf u) (rootOf a) alloc (rootOf x) cache2 s2 = Some (Inr (cache', s'))"
    "sameShape s2 s'" "good (ivl s') T"
    using down_correct [OF b order_refl r(2,3), of s2 cache2 "ivl s" alloc rt] r(5-7) by blast
  then show ?thesis using r(1) sameShape_trans [OF r(4)] by auto
qed

end

end
