(* ===== verification/Reach_Sides.thy ===== *)
theory Reach_Sides
  imports Reach_Chain
begin

text \<open>
  The two sides of the reindex root as instances of the walk along the chain: room is made
  before the chain by raising starts and after the chain by lowering ends.
\<close>

section \<open>Before the chain\<close>

definition slackBefore :: "(DomainHash \<Rightarrow> ReachabilityInterval) \<Rightarrow> rtree \<Rightarrow> nat" where
  "slackBefore f x = firstLo f x - ilo (f (rootOf x))"

definition outerBefore :: "rtree \<Rightarrow> rtree \<Rightarrow> rtree \<Rightarrow> bool" where
  "outerBefore y u x \<longleftrightarrow> (\<exists>pre0 pre1 post. subtrees y = pre0 @ u # pre1 @ x # post)"

definition movedFrom :: "rtree \<Rightarrow> DomainHash \<Rightarrow> rtree \<Rightarrow> rtree \<Rightarrow> subTreeSizes \<Rightarrow> reachStore \<Rightarrow> reachStore \<Rightarrow> bool" where
  "movedFrom T n y x cache s s' \<longleftrightarrow> y \<in> set (subs T) \<and> x \<in> set (subtrees y) \<and> rootOf y \<noteq> n \<and> fits n (ivl s) y \<and> sameShape s s'
     \<and> ready T n cache s' \<and> fits n (ivl s') y \<and> (\<forall>z. z \<notin> set (nodes x) \<longrightarrow> ivl s' z = ivl s z)"

definition movedBefore ::
    "rtree \<Rightarrow> DomainHash \<Rightarrow> nat \<Rightarrow> rtree \<Rightarrow> rtree \<Rightarrow> subTreeSizes \<Rightarrow> reachStore \<Rightarrow> reachStore \<Rightarrow> bool" where
  "movedBefore T n k y x cache s s' \<longleftrightarrow> movedFrom T n y x cache s s' \<and> ilo (ivl s' (rootOf x)) = ilo (ivl s (rootOf x)) + k"

lemma movedFrom_siblings:
  assumes "movedFrom T n y x cache s s'" and "subtrees y = pre @ x # post"
  shows "c \<in> set (pre @ post) \<Longrightarrow> ivl s' (rootOf c) = ivl s (rootOf c)" and "ivl s' (rootOf y) = ivl s (rootOf y)"
    and "waiting pre \<subseteq> below [y]" and "waiting post \<subseteq> below [y]" and "set (nodes x) \<subseteq> below [y]"
proof -
  have T: "treeStore s' T" and y: "y \<in> set (subs T)" and frame: "\<forall>z. z \<notin> set (nodes x) \<longrightarrow> ivl s' z = ivl s z"
    using assms(1) by (auto simp: movedFrom_def dest: readyD)
  have x: "x \<in> set (subtrees y)" using assms(2) by simp
  show "ivl s' (rootOf y) = ivl s (rootOf y)"
    using frame root_not_inside [OF treeStoreD(2) [OF T y] subs_self x] by blast
  show "ivl s' (rootOf c) = ivl s (rootOf c)" if "c \<in> set (pre @ post)"
    using frame sibling_outside [OF distinct_children [OF T y, unfolded assms(2)] that rootOf_in_nodes] by blast
  show "waiting pre \<subseteq> below [y]" "waiting post \<subseteq> below [y]" "set (nodes x) \<subseteq> below [y]"
    using assms(2) by (auto simp: waiting_def)
qed

lemma firstLo_le_child:
  assumes "spaced (ilo (f (rootOf x))) (roots f (subtrees x)) (ihi (f (rootOf x)) - 1)" and "c \<in> set (subtrees x)"
  shows "firstLo f x \<le> ilo (f (rootOf c))" and "ihi (f (rootOf c)) \<le> ihi (f (rootOf x)) - 1"
proof -
  have "spaced (firstLo f x) (roots f (subtrees x)) (ihi (f (rootOf x)) - 1)"
    using assms(1) spaced_downTo [of "ilo (f (rootOf x))" "roots f (subtrees x)" "ihi (f (rootOf x)) - 1"]
    by (simp add: firstLo_def)
  then show "firstLo f x \<le> ilo (f (rootOf c))" "ihi (f (rootOf c)) \<le> ihi (f (rootOf x)) - 1"
    using spaced_in [of "firstLo f x" "roots f (subtrees x)" "ihi (f (rootOf x)) - 1" "f (rootOf c)"] assms(2) by auto
qed

lemma before_gap:
  assumes mv: "movedBefore T n k y x cache s s'" and ch: "subtrees y = pre @ x # post" and ne: "pre \<noteq> []"
  shows "ihi (ivl s' (rootOf (last pre))) + k \<le> ilo (ivl s' (rootOf x))"
proof -
  have "fits n (ivl s) y" "rootOf y \<noteq> n" using mv by (auto simp: movedBefore_def movedFrom_def)
  then have "ihi (ivl s (rootOf (last pre))) \<le> ilo (ivl s (rootOf x))"
    using neighbours(1) [OF _ _ ch] ne by (simp add: upTo_def last_map)
  then show ?thesis
    using mv movedFrom_siblings(1) [OF _ ch, of T n cache s s' "last pre"] ne by (simp add: movedBefore_def)
qed

lemma before_place:
  assumes R: "ready T n cache s" and y: "y \<in> set (subs T)" "x \<in> set (subtrees y)" "rootOf y \<noteq> n" "fits n (ivl s) y"
    and g: "good (ivl s) x" and room: "tsize x + unat w \<le> ilen (ivl s (rootOf x))"
  shows "\<exists>s1 cache' s'. stageInterval s (rootOf x) (intervalIncreaseStart (ivl s (rootOf x)) w) = Inr s1
    \<and> propagateInterval rt (rootOf x) cache s1 = Some (Inr (cache', s')) \<and> movedBefore T n (unat w) y x cache' s s'"
proof -
  obtain pre post where ch: "subtrees y = pre @ x # post" using split_list [OF y(2)] by blast
  let ?r = "intervalIncreaseStart (ivl s (rootOf x)) w"
  have reg: "regular (ivl s (rootOf x))" "ilo (ivl s (rootOf x)) + unat w \<le> ihi (ivl s (rootOf x))"
    using good_root [OF g] room by (auto simp: ilen_def)
  note r = increaseStart_ends [OF reg(1) refl reg(2)]
  note nb = neighbours [OF y(4,3) ch]
  have "tsize x \<le> ilen ?r" "upTo (ilo (ivl s (rootOf y))) (roots (ivl s) pre) \<le> ilo ?r"
    "ihi ?r \<le> downTo (roots (ivl s) post) (ihi (ivl s (rootOf y)) - 1)"
    using room nb r by (auto simp: ilen_def)
  then show ?thesis
    using place_child [OF R y(1) ch y(3,4) r(3), of rt] r(1) y by (fastforce simp: movedBefore_def movedFrom_def)
qed

lemma before_shift:
  assumes mv: "movedBefore T n (unat w) y x cache s s'" and n: "n \<notin> set (nodes y)"
  shows "\<exists>cache2 s2. offsetSiblingsBefore rt n (rootOf x) w cache s' = Some (Inr (cache2, s2)) \<and> sameShape s s2
    \<and> ready T n cache2 s2 \<and> slackBefore (ivl s2) y = slackBefore (ivl s) y + unat w
    \<and> (\<forall>z. z \<notin> below [y] \<longrightarrow> ivl s2 z = ivl s z)"
proof -
  have mf: "movedFrom T n y x cache s s'" using mv by (simp add: movedBefore_def)
  then have y: "y \<in> set (subs T)" "rootOf y \<noteq> n" "fits n (ivl s) y" "fits n (ivl s') y" "x \<in> set (subtrees y)" "sameShape s s'"
    "ready T n cache s'" "\<forall>z. z \<notin> set (nodes x) \<longrightarrow> ivl s' z = ivl s z"
    by (auto simp: movedFrom_def)
  obtain pre post where ch: "subtrees y = pre @ x # post" using split_list [OF y(5)] by blast
  have "\<forall>b\<in>set pre. rootOf b \<noteq> n \<and> n \<notin> set (nodes b)"
    using n subs_nodes [OF subs_child, of _ y] rootOf_in_nodes ch by fastforce
  then obtain cache2 s2 where p: "offsetBefore rt n w (rev (List.map rootOf pre)) cache s' = Some (Inr (cache2, s2))"
    "sameShape s' s2" "ready T n cache2 s2" "\<forall>z. z \<notin> waiting pre \<longrightarrow> ivl s2 z = ivl s' z"
    "pre \<noteq> [] \<longrightarrow> ilo (ivl s2 (rootOf (hd pre))) = ilo (ivl s' (rootOf (hd pre))) + unat w"
    using offsetBefore_shifts [OF y(7,1,2,4), of "[]" pre x post n w "unat w" rt] before_gap [OF mv ch] ch by auto
  note sib = movedFrom_siblings [OF mf ch]
  have frame: "ivl s2 z = ivl s z" if "z \<notin> below [y]" for z
    using that p(4) y(8) sib(3,5) by (metis subsetD)
  have "rootOf y \<notin> below [y]"
    using roots_not_below [of "[y]" y] treeStoreD(2) [OF readyD(1) [OF y(7)] y(1)] by simp
  then have iy: "ivl s2 (rootOf y) = ivl s (rootOf y)" by (rule frame)
  have lo: "firstLo (ivl s2) y = firstLo (ivl s) y + unat w"
  proof (cases "pre = []")
    case True
    then show ?thesis using p(4) mv ch by (simp add: firstLo_def downTo_def movedBefore_def)
  next
    case False
    then show ?thesis using p(5) sib(1) [of "hd pre"] ch by (simp add: firstLo_def downTo_def hd_append hd_map)
  qed
  have "ilo (ivl s (rootOf y)) \<le> firstLo (ivl s) y"
    using fits_spaced [OF y(3,2)] spaced_downTo [of "ilo (ivl s (rootOf y))" "roots (ivl s) (subtrees y)"]
    by (auto simp: firstLo_def)
  then have "slackBefore (ivl s2) y = slackBefore (ivl s) y + unat w" using lo iy by (simp add: slackBefore_def)
  moreover have "offsetSiblingsBefore rt n (rootOf x) w cache s' = Some (Inr (cache2, s2))"
    using offsetSiblings_unfold(1) [OF readyD(1) [OF y(7)] y(1) ch] p(1) by simp
  ultimately show ?thesis using p(3) frame sameShape_trans [OF y(6) p(2)] by blast
qed

lemma before_allocate:
  assumes mv: "movedBefore T (rootOf u) (unat w) y x cache s s'" and out: "outerBefore y u x"
    and room: "tsize u \<le> ilen (ivl s (rootOf u)) + unat w"
  shows "\<exists>cache2 s2. offsetSiblingsBefore rt (rootOf u) (rootOf x) w cache s' = Some (Inr (cache2, s2)) \<and> sameShape s s2
    \<and> good (ivl s2) T"
proof -
  have mf: "movedFrom T (rootOf u) y x cache s s'" using mv by (simp add: movedBefore_def)
  then have y: "y \<in> set (subs T)" "rootOf y \<noteq> rootOf u" "fits (rootOf u) (ivl s') y" "sameShape s s'" "ready T (rootOf u) cache s'"
    by (auto simp: movedFrom_def)
  obtain pre0 pre1 post where ch: "subtrees y = pre0 @ u # pre1 @ x # post" using out by (auto simp: outerBefore_def)
  then have ch': "subtrees y = (pre0 @ u # pre1) @ x # post" by simp
  have "ihi (ivl s' (rootOf (last (u # pre1)))) + unat w \<le> ilo (ivl s' (rootOf x))"
    using before_gap [OF mv ch'] by (simp add: last_append)
  moreover have "ivl s' (rootOf u) = ivl s (rootOf u)" using movedFrom_siblings(1) [OF mf ch', of u] by simp
  ultimately obtain cache2 s2 where
    "offsetBefore rt (rootOf u) w (rev (List.map rootOf (pre0 @ u # pre1))) cache s' = Some (Inr (cache2, s2))"
    "sameShape s' s2" "good (ivl s2) T"
    using offsetBefore_allocates [OF y(5,1,2,3) ch refl, of w rt] room by auto
  then show ?thesis
    using offsetSiblings_unfold(1) [OF readyD(1) [OF y(5)] y(1) ch'] sameShape_trans [OF y(4)] by auto
qed

interpretation reclaimBefore: reclaim_side slackBefore intervalIncreaseStart remainingSlackBefore offsetSiblingsBefore
  reclaimUpBefore reclaimDownBefore outerBefore movedBefore
proof unfold_locales
  show "\<exists>w. remainingSlackBefore s (rootOf x) = Inr w \<and> unat w = slackBefore (ivl s) x"
    if "treeStore s T" "x \<in> set (subs T)" "good (ivl s) x" for s T x
    using remainingSlackBefore_correct [OF that] by (simp add: slackBefore_def)
  show "slackBefore f x < ilen (f (rootOf x))" if "good f x" for f x
    using good_firstLo [OF that] by (auto simp: slackBefore_def ilen_def)
  show "slackBefore f x + ilen (f (rootOf c)) < ilen (f (rootOf x))" if "good f x" "c \<in> set (subtrees x)" for f x c
    using firstLo_le_child [OF good_spaced [OF that(1)] that(2)] good_firstLo [OF that(1)] good_root [OF that(1)]
      good_root [OF good_subs [OF that(1) subs_child [OF that(2)]]]
    by (auto simp: slackBefore_def ilen_def)
  show "slackBefore f x = slackBefore g x"
    if "f (rootOf x) = g (rootOf x)" "\<And>c. c \<in> set (subtrees x) \<Longrightarrow> f (rootOf c) = g (rootOf c)" for f g x
  proof -
    have "roots f (subtrees x) = roots g (subtrees x)" using that(2) by (intro map_cong) auto
    then show ?thesis using that(1) by (simp only: slackBefore_def firstLo_def)
  qed
  show "\<exists>s'. stageInterval s (rootOf x) (intervalIncreaseStart (ivl s (rootOf x)) w) = Inr s' \<and> movedBefore T n (unat w) y x cache s s'"
    if asm: "ready T n cache s" "y \<in> set (subs T)" "x \<in> set (subtrees y)" "rootOf y \<noteq> n" "fits n (ivl s) y" "good (ivl s) x"
      "unat w \<le> slackBefore (ivl s) x" for T n cache s y x w
  proof -
    obtain pre post where ch: "subtrees y = pre @ x # post" using split_list [OF asm(3)] by blast
    have "ilo (ivl s (rootOf x)) + unat w \<le> firstLo (ivl s) x"
      using asm(7) good_firstLo [OF asm(6)] by (auto simp: slackBefore_def)
    then obtain s' where "stageInterval s (rootOf x) (intervalIncreaseStart (ivl s (rootOf x)) w) = Inr s'"
      "sameShape s s'" "ready T n cache s'" "fits n (ivl s') y"
      "ivl s' = (ivl s)(rootOf x := intervalIncreaseStart (ivl s (rootOf x)) w)"
      "ilo (intervalIncreaseStart (ivl s (rootOf x)) w) = ilo (ivl s (rootOf x)) + unat w"
      using raise_start [OF asm(1,2) ch asm(4-6) refl] by blast
    then show ?thesis using asm(2-5) by (auto simp: movedBefore_def movedFrom_def)
  qed
qed (fact before_place before_shift before_allocate reclaimUpBefore.simps reclaimDownBefore.simps)+

section \<open>After the chain\<close>

definition slackAfter :: "(DomainHash \<Rightarrow> ReachabilityInterval) \<Rightarrow> rtree \<Rightarrow> nat" where
  "slackAfter f x = ihi (f (rootOf x)) - 1 - lastHi f x"

definition outerAfter :: "rtree \<Rightarrow> rtree \<Rightarrow> rtree \<Rightarrow> bool" where
  "outerAfter y u x \<longleftrightarrow> (\<exists>pre post post0. subtrees y = pre @ x # post @ u # post0)"

definition movedAfter ::
    "rtree \<Rightarrow> DomainHash \<Rightarrow> nat \<Rightarrow> rtree \<Rightarrow> rtree \<Rightarrow> subTreeSizes \<Rightarrow> reachStore \<Rightarrow> reachStore \<Rightarrow> bool" where
  "movedAfter T n k y x cache s s' \<longleftrightarrow> movedFrom T n y x cache s s' \<and> ihi (ivl s (rootOf x)) = ihi (ivl s' (rootOf x)) + k"

lemma lastHi_ge_child:
  assumes "spaced (ilo (f (rootOf x))) (roots f (subtrees x)) (ihi (f (rootOf x)) - 1)" and "c \<in> set (subtrees x)"
  shows "ihi (f (rootOf c)) \<le> lastHi f x" and "ilo (f (rootOf x)) \<le> ilo (f (rootOf c))"
proof -
  have "spaced (ilo (f (rootOf x))) (roots f (subtrees x)) (lastHi f x)"
    using assms(1) spaced_upTo [of "ilo (f (rootOf x))" "roots f (subtrees x)" "ihi (f (rootOf x)) - 1"]
    by (simp add: lastHi_def)
  then show "ihi (f (rootOf c)) \<le> lastHi f x" "ilo (f (rootOf x)) \<le> ilo (f (rootOf c))"
    using spaced_in [of "ilo (f (rootOf x))" "roots f (subtrees x)" "lastHi f x" "f (rootOf c)"] assms(2) by auto
qed

lemma after_gap:
  assumes mv: "movedAfter T n k y x cache s s'" and ch: "subtrees y = pre @ x # post" and ne: "post \<noteq> []"
  shows "ihi (ivl s' (rootOf x)) + k \<le> ilo (ivl s' (rootOf (hd post)))"
proof -
  have "fits n (ivl s) y" "rootOf y \<noteq> n" using mv by (auto simp: movedAfter_def movedFrom_def)
  then have "ihi (ivl s (rootOf x)) \<le> ilo (ivl s (rootOf (hd post)))"
    using neighbours(3) [OF _ _ ch] ne by (simp add: downTo_def hd_map)
  then show ?thesis
    using mv movedFrom_siblings(1) [OF _ ch, of T n cache s s' "hd post"] ne by (simp add: movedAfter_def)
qed

lemma after_place:
  assumes R: "ready T n cache s" and y: "y \<in> set (subs T)" "x \<in> set (subtrees y)" "rootOf y \<noteq> n" "fits n (ivl s) y"
    and g: "good (ivl s) x" and room: "tsize x + unat w \<le> ilen (ivl s (rootOf x))"
  shows "\<exists>s1 cache' s'. stageInterval s (rootOf x) (intervalDecreaseEnd (ivl s (rootOf x)) w) = Inr s1
    \<and> propagateInterval rt (rootOf x) cache s1 = Some (Inr (cache', s')) \<and> movedAfter T n (unat w) y x cache' s s'"
proof -
  obtain pre post where ch: "subtrees y = pre @ x # post" using split_list [OF y(2)] by blast
  let ?r = "intervalDecreaseEnd (ivl s (rootOf x)) w"
  have reg: "regular (ivl s (rootOf x))" "ilo (ivl s (rootOf x)) + unat w \<le> ihi (ivl s (rootOf x))"
    using good_root [OF g] room by (auto simp: ilen_def)
  note r = decreaseEnd_ends [OF reg(1) refl reg(2)]
  note nb = neighbours [OF y(4,3) ch]
  have "tsize x \<le> ilen ?r" "upTo (ilo (ivl s (rootOf y))) (roots (ivl s) pre) \<le> ilo ?r"
    "ihi ?r \<le> downTo (roots (ivl s) post) (ihi (ivl s (rootOf y)) - 1)"
    using room nb r by (auto simp: ilen_def)
  moreover have "ihi (ivl s (rootOf x)) = ihi ?r + unat w" using r reg(2) by simp
  ultimately show ?thesis
    using place_child [OF R y(1) ch y(3,4) r(3), of rt] y by (fastforce simp: movedAfter_def movedFrom_def)
qed

lemma after_shift:
  assumes mv: "movedAfter T n (unat w) y x cache s s'" and n: "n \<notin> set (nodes y)"
  shows "\<exists>cache2 s2. offsetSiblingsAfter rt n (rootOf x) w cache s' = Some (Inr (cache2, s2)) \<and> sameShape s s2
    \<and> ready T n cache2 s2 \<and> slackAfter (ivl s2) y = slackAfter (ivl s) y + unat w
    \<and> (\<forall>z. z \<notin> below [y] \<longrightarrow> ivl s2 z = ivl s z)"
proof -
  have mf: "movedFrom T n y x cache s s'" using mv by (simp add: movedAfter_def)
  then have y: "y \<in> set (subs T)" "rootOf y \<noteq> n" "fits n (ivl s) y" "fits n (ivl s') y" "x \<in> set (subtrees y)" "sameShape s s'"
    "ready T n cache s'" "\<forall>z. z \<notin> set (nodes x) \<longrightarrow> ivl s' z = ivl s z"
    by (auto simp: movedFrom_def)
  obtain pre post where ch: "subtrees y = pre @ x # post" using split_list [OF y(5)] by blast
  have "\<forall>b\<in>set post. rootOf b \<noteq> n \<and> n \<notin> set (nodes b)"
    using n subs_nodes [OF subs_child, of _ y] rootOf_in_nodes ch by fastforce
  then obtain cache2 s2 where p: "offsetAfter rt n w (List.map rootOf post) cache s' = Some (Inr (cache2, s2))"
    "sameShape s' s2" "ready T n cache2 s2" "\<forall>z. z \<notin> waiting post \<longrightarrow> ivl s2 z = ivl s' z"
    "post \<noteq> [] \<longrightarrow> ihi (ivl s' (rootOf (last post))) = ihi (ivl s2 (rootOf (last post))) + unat w"
    using offsetAfter_shifts [OF y(7,1,2,4), of pre x post "[]" n w "unat w" rt] after_gap [OF mv ch] ch by auto
  note sib = movedFrom_siblings [OF mf ch]
  have frame: "ivl s2 z = ivl s z" if "z \<notin> below [y]" for z
    using that p(4) y(8) sib(4,5) by (metis subsetD)
  have "rootOf y \<notin> below [y]"
    using roots_not_below [of "[y]" y] treeStoreD(2) [OF readyD(1) [OF y(7)] y(1)] by simp
  then have iy: "ivl s2 (rootOf y) = ivl s (rootOf y)" by (rule frame)
  have hi: "lastHi (ivl s) y = lastHi (ivl s2) y + unat w"
  proof (cases "post = []")
    case True
    then show ?thesis using p(4) mv ch by (simp add: lastHi_def upTo_def movedAfter_def)
  next
    case False
    then show ?thesis using p(5) sib(1) [of "last post"] ch by (simp add: lastHi_def upTo_def last_append last_map)
  qed
  have "lastHi (ivl s) y \<le> ihi (ivl s (rootOf y)) - 1"
    using fits_spaced [OF y(3,2)] spaced_upTo [of _ "roots (ivl s) (subtrees y)" "ihi (ivl s (rootOf y)) - 1"]
    unfolding lastHi_def by blast
  then have "slackAfter (ivl s2) y = slackAfter (ivl s) y + unat w" using hi iy by (simp add: slackAfter_def)
  moreover have "offsetSiblingsAfter rt n (rootOf x) w cache s' = Some (Inr (cache2, s2))"
    using offsetSiblings_unfold(2) [OF readyD(1) [OF y(7)] y(1) ch] p(1) by simp
  ultimately show ?thesis using p(3) frame sameShape_trans [OF y(6) p(2)] by blast
qed

lemma after_allocate:
  assumes mv: "movedAfter T (rootOf u) (unat w) y x cache s s'" and out: "outerAfter y u x"
    and room: "tsize u \<le> ilen (ivl s (rootOf u)) + unat w"
  shows "\<exists>cache2 s2. offsetSiblingsAfter rt (rootOf u) (rootOf x) w cache s' = Some (Inr (cache2, s2)) \<and> sameShape s s2
    \<and> good (ivl s2) T"
proof -
  have mf: "movedFrom T (rootOf u) y x cache s s'" using mv by (simp add: movedAfter_def)
  then have y: "y \<in> set (subs T)" "rootOf y \<noteq> rootOf u" "fits (rootOf u) (ivl s') y" "sameShape s s'" "ready T (rootOf u) cache s'"
    by (auto simp: movedFrom_def)
  obtain pre post post0 where ch: "subtrees y = pre @ x # (post @ u # post0)" using out by (auto simp: outerAfter_def)
  have "ihi (ivl s' (rootOf x)) + unat w \<le> ilo (ivl s' (rootOf (hd (post @ [u]))))"
    using after_gap [OF mv ch] by (cases post) auto
  moreover have "ivl s' (rootOf u) = ivl s (rootOf u)" using movedFrom_siblings(1) [OF mf ch, of u] by simp
  ultimately obtain cache2 s2 where
    "offsetAfter rt (rootOf u) w (List.map rootOf (post @ u # post0)) cache s' = Some (Inr (cache2, s2))"
    "sameShape s' s2" "good (ivl s2) T"
    using offsetAfter_allocates [OF y(5,1,2,3) ch refl, of w rt] room by auto
  then show ?thesis
    using offsetSiblings_unfold(2) [OF readyD(1) [OF y(5)] y(1) ch] sameShape_trans [OF y(4)] by auto
qed

interpretation reclaimAfter: reclaim_side slackAfter intervalDecreaseEnd remainingSlackAfter offsetSiblingsAfter
  reclaimUpAfter reclaimDownAfter outerAfter movedAfter
proof unfold_locales
  show "\<exists>w. remainingSlackAfter s (rootOf x) = Inr w \<and> unat w = slackAfter (ivl s) x"
    if "treeStore s T" "x \<in> set (subs T)" "good (ivl s) x" for s T x
    using remainingSlackAfter_correct [OF that] by (simp add: slackAfter_def)
  show "slackAfter f x < ilen (f (rootOf x))" if "good f x" for f x
    using good_lastHi [OF that] by (auto simp: slackAfter_def ilen_def)
  show "slackAfter f x + ilen (f (rootOf c)) < ilen (f (rootOf x))" if "good f x" "c \<in> set (subtrees x)" for f x c
    using lastHi_ge_child [OF good_spaced [OF that(1)] that(2)] good_lastHi [OF that(1)] good_root [OF that(1)]
      good_root [OF good_subs [OF that(1) subs_child [OF that(2)]]]
    by (auto simp: slackAfter_def ilen_def)
  show "slackAfter f x = slackAfter g x"
    if "f (rootOf x) = g (rootOf x)" "\<And>c. c \<in> set (subtrees x) \<Longrightarrow> f (rootOf c) = g (rootOf c)" for f g x
  proof -
    have "roots f (subtrees x) = roots g (subtrees x)" using that(2) by (intro map_cong) auto
    then show ?thesis using that(1) by (simp only: slackAfter_def lastHi_def)
  qed
  show "\<exists>s'. stageInterval s (rootOf x) (intervalDecreaseEnd (ivl s (rootOf x)) w) = Inr s' \<and> movedAfter T n (unat w) y x cache s s'"
    if asm: "ready T n cache s" "y \<in> set (subs T)" "x \<in> set (subtrees y)" "rootOf y \<noteq> n" "fits n (ivl s) y" "good (ivl s) x"
      "unat w \<le> slackAfter (ivl s) x" for T n cache s y x w
  proof -
    obtain pre post where ch: "subtrees y = pre @ x # post" using split_list [OF asm(3)] by blast
    have "lastHi (ivl s) x + unat w < ihi (ivl s (rootOf x))"
      using asm(7) good_lastHi [OF asm(6)] by (auto simp: slackAfter_def)
    then obtain s' where "stageInterval s (rootOf x) (intervalDecreaseEnd (ivl s (rootOf x)) w) = Inr s'"
      "sameShape s s'" "ready T n cache s'" "fits n (ivl s') y"
      "ivl s' = (ivl s)(rootOf x := intervalDecreaseEnd (ivl s (rootOf x)) w)"
      "ihi (intervalDecreaseEnd (ivl s (rootOf x)) w) = ihi (ivl s (rootOf x)) - unat w"
      using lower_end [OF asm(1,2) ch asm(4-6) refl] by blast
    moreover have "unat w \<le> ihi (ivl s (rootOf x))" using \<open>lastHi (ivl s) x + unat w < _\<close> by simp
    ultimately show ?thesis using asm(2-5) by (auto simp: movedAfter_def movedFrom_def)
  qed
qed (fact after_place after_shift after_allocate reclaimUpAfter.simps reclaimDownAfter.simps)+

end
