(* ===== verification/Reach_Graft.thy ===== *)
theory Reach_Graft
  imports Reach_Sides
begin

text \<open>
  Adding a leaf to a tree: what the operation does to the data type of trees, to the tree a
  store represents and to the intervals that fit it.
\<close>

abbreviation leaf :: "DomainHash \<Rightarrow> rtree" where
  "leaf b \<equiv> RNode b []"

fun graft :: "DomainHash \<Rightarrow> DomainHash \<Rightarrow> rtree \<Rightarrow> rtree" where
  "graft p b (RNode h ts) = RNode h (List.map (graft p b) ts @ (if h = p then [leaf b] else []))"

lemma rootOf_graft [simp]: "rootOf (graft p b t) = rootOf t"
  by (cases t) simp

lemma subtrees_graft: "subtrees (graft p b t) = List.map (graft p b) (subtrees t) @ (if rootOf t = p then [leaf b] else [])"
  by (cases t) simp

lemma nodes_graft: "set (nodes (graft p b t)) = set (nodes t) \<union> (if p \<in> set (nodes t) then {b} else {})"
  by (induction t rule: nodes.induct) (auto split: if_splits)

lemma graft_absent: "p \<notin> set (nodes t) \<Longrightarrow> graft p b t = t"
  by (induction t rule: nodes.induct) (auto intro: map_idI)

lemma subs_graft: "set (subs (graft p b t)) = graft p b ` set (subs t) \<union> (if p \<in> set (nodes t) then {leaf b} else {})"
  by (induction t rule: nodes.induct) (auto simp: image_iff split: if_splits)

lemma split_at_node:
  assumes "distinct (concat (List.map nodes ts))" and "t \<in> set ts" and "p \<in> set (nodes t)"
  shows "\<exists>pre post. ts = pre @ t # post \<and> (\<forall>c\<in>set (pre @ post). p \<notin> set (nodes c))"
proof -
  obtain pre post where ts: "ts = pre @ t # post" using split_list [OF assms(2)] by blast
  have "p \<notin> set (nodes c)" if "c \<in> set (pre @ post)" for c
    using assms(1,3) that unfolding ts by auto
  then show ?thesis using ts by blast
qed

lemma graft_nodes_distinct:
  assumes "distinct (nodes t)" and "b \<notin> set (nodes t)"
  shows "distinct (nodes (graft p b t)) \<and> tsize (graft p b t) = tsize t + (if p \<in> set (nodes t) then 1 else 0)"
  using assms
proof (induction t rule: nodes.induct)
  case (1 h ts)
  have d: "distinct (concat (List.map nodes ts))" and h: "h \<notin> set (concat (List.map nodes ts))" using 1(2) by auto
  consider "h = p" | "h \<noteq> p" "\<forall>t\<in>set ts. p \<notin> set (nodes t)" | t where "h \<noteq> p" "t \<in> set ts" "p \<in> set (nodes t)" by blast
  then show ?case
  proof cases
    case 1
    then have "List.map (graft p b) ts = ts" using h by (auto intro!: map_idI graft_absent)
    then show ?thesis using "1.prems" 1 by auto
  next
    case 2
    then have "List.map (graft p b) ts = ts" by (auto intro!: map_idI graft_absent)
    then show ?thesis using 2 "1.prems" by auto
  next
    case (3 t)
    obtain pre post where ts: "ts = pre @ t # post" "\<forall>c\<in>set (pre @ post). p \<notin> set (nodes c)"
      using split_at_node [OF d 3(2,3)] by blast
    have same: "List.map (graft p b) pre = pre" "List.map (graft p b) post = post"
      using ts(2) by (auto intro!: map_idI graft_absent)
    have "distinct (nodes t)" "b \<notin> set (nodes t)" using "1.prems" 3(2) by (auto simp: distinct_concat_iff)
    then have "distinct (nodes (graft p b t))" "tsize (graft p b t) = tsize t + 1" using "1.IH" 3 by auto
    moreover have "set (nodes (graft p b t)) = set (nodes t) \<union> {b}" using 3(3) by (simp add: nodes_graft)
    ultimately show ?thesis using "1.prems" 3 ts same by auto
  qed
qed

section \<open>The store\<close>

definition grafted :: "DomainHash \<Rightarrow> DomainHash \<Rightarrow> reachStore \<Rightarrow> reachStore \<Rightarrow> bool" where
  "grafted p b s s' \<longleftrightarrow> reachabilityReindexRoot s' = reachabilityReindexRoot s
     \<and> (\<forall>h. h \<noteq> b \<longrightarrow> present s' h = present s h \<and> children s' h = (if h = p then rbind (children s h) (\<lambda>cs. Inr (cs @ [b])) else children s h)
          \<and> parent s' h = parent s h \<and> futureCoveringSet s' h = futureCoveringSet s h)
     \<and> present s' b \<and> children s' b = Inr [] \<and> parent s' b = Inr (Some p) \<and> futureCoveringSet s' b = Inr []"

lemma rep_graft:
  assumes "grafted p b s s'" and "rep s t" and "b \<notin> set (nodes t)"
  shows "rep s' (graft p b t)"
  using assms(2,3)
proof (induction t rule: nodes.induct)
  case (1 h ts)
  have "h \<noteq> b" "\<forall>t\<in>set ts. rootOf t \<noteq> b" using 1(3) rootOf_in_nodes by force+
  then show ?case using assms(1) 1 by (auto simp: grafted_def comp_def)
qed

lemma treeStore_graft:
  assumes "grafted p b s s'" and "treeStore s T" and "b \<notin> set (nodes T)" and "tsize T + 1 < 2 ^ 64"
  shows "treeStore s' (graft p b T)"
  using rep_graft [OF assms(1)] graft_nodes_distinct [of T b p] assms(2-4) by (simp add: treeStore_def)

lemma grafted_sameShape:
  assumes "grafted p b s s1" and "sameShape s1 s2"
  shows "grafted p b s s2"
  using assms unfolding grafted_def sameShape_def by auto

section \<open>The intervals\<close>

lemma fits_graft:
  assumes "distinct (nodes t)" and "good f t" and "b \<notin> set (nodes t)" and "regular (f b)" and "ilo (f b) \<le> ihi (f b)"
    and "\<And>u. u \<in> set (subs t) \<Longrightarrow> rootOf u = p \<Longrightarrow> lastHi f u \<le> ilo (f b) \<and> ihi (f b) \<le> ihi (f p) - 1"
  shows "fits b f (graft p b t)"
  using assms
proof (induction t rule: nodes.induct)
  case (1 h ts)
  have IH: "fits b f (graft p b c)" if "c \<in> set ts" for c
  proof (rule "1.IH" [OF that])
    show "distinct (nodes c)" "good f c" "b \<notin> set (nodes c)" using "1.prems"(1-3) that by (auto simp: distinct_concat_iff)
    show "lastHi f u \<le> ilo (f b) \<and> ihi (f b) \<le> ihi (f p) - 1" if "u \<in> set (subs c)" "rootOf u = p" for u
      using "1.prems"(6) [of u] that \<open>c \<in> set ts\<close> by auto
  qed (fact "1.prems")+
  let ?sp = "spaced (ilo (f h)) (roots f ts)"
  have sp: "?sp (ihi (f h) - 1)" using "1.prems"(2) by simp
  have "?sp (lastHi f (RNode h ts))" using iffD1 [OF spaced_upTo sp] unfolding lastHi_def rtree.sel by (rule conjunct1)
  then have "spaced (ilo (f h)) (roots f ts @ [f b]) (ihi (f h) - 1)" if "h = p"
    unfolding spaced_append using "1.prems"(5) "1.prems"(6) [of "RNode h ts"] that
    by (intro exI [of _ "lastHi f (RNode h ts)"]) simp
  then show ?case using IH "1.prems"(2,4) sp by (auto simp: comp_def)
qed

text \<open>A tree that fits except at a node fits except at every ancestor of the node.\<close>

lemma fits_coarsen:
  assumes "fits n f t" and "distinct (nodes t)" and "u \<in> set (subs t)" and "n \<in> set (nodes u)"
  shows "fits (rootOf u) f t"
  using assms
proof (induction t rule: nodes.induct)
  case (1 h ts)
  show ?case
  proof (cases "u = RNode h ts")
    case True
    then show ?thesis using 1(2) by simp
  next
    case False
    then obtain c where c: "c \<in> set ts" "u \<in> set (subs c)" using 1(4) by auto
    then have n: "n \<in> set (nodes c)" using subsetD [OF subs_nodes 1(5)] by blast
    then have "h \<noteq> n" using 1(3) c(1) by auto
    have d: "distinct (concat (List.map nodes ts))" using 1(3) by simp
    have "fits (rootOf u) f v" if "v \<in> set ts" for v
    proof (cases "v = c")
      case True
      then show ?thesis using 1(1) [OF c(1)] 1(2,3,5) \<open>h \<noteq> n\<close> c by (auto simp: distinct_concat_iff)
    next
      case False
      then have "n \<notin> set (nodes v)" using siblings_apart [OF d that c(1)] n by blast
      then show ?thesis using 1(2) \<open>h \<noteq> n\<close> that fits_good good_fits by fastforce
    qed
    then show ?thesis using 1(2) \<open>h \<noteq> n\<close> by simp
  qed
qed

end
