(* ===== verification/Reach_AddChild.thy ===== *)
theory Reach_AddChild
  imports Reach_Graft
begin

text \<open>
  \<open>addChild\<close> is total and correct: when the interval of the reindex root has the capacity for
  the whole tree and the slack along every chain, adding a leaf below any block returns a
  store that represents the grown tree with intervals that fit it. The proof follows
  \<open>reindexIntervals\<close> up from the new leaf to the first ancestor whose interval is large enough
  or to the chain that leads to the reindex root.
\<close>

text \<open>
  Intervals that changed only below a node: the tree still fits outside the node, and inside
  as far as the subtree of the node does.
\<close>

lemma fits_changed_below:
  assumes T: "distinct (nodes T)" "u \<in> set (subs T)" and f: "fits (rootOf u) f T"
    and same: "\<And>x. x \<notin> set (concat (List.map nodes (subtrees u))) \<Longrightarrow> f' x = f x"
  shows "fits (rootOf u) f' T"
proof -
  have "rootOf u \<notin> set (concat (List.map nodes (subtrees u)))" using distinct_subs [OF T] by (cases u) auto
  then have "f' (rootOf u) = f (rootOf u)" by (rule same)
  then have fu: "fits (rootOf u) f' u"
    using fits_root [OF fits_above [OF f T rootOf_in_nodes]] by (cases u) simp
  show ?thesis
  proof (cases "u = T")
    case True
    then show ?thesis using fu by simp
  next
    case False
    then obtain y where y: "y \<in> set (subs T)" "u \<in> set (subtrees y)" using subs_parent [OF T(2)] by blast
    have dy: "distinct (nodes y)" using distinct_subs [OF T(1) y(1)] .
    have "rootOf y \<notin> set (nodes u)" using root_not_inside [OF dy subs_self y(2)] .
    then have ne: "rootOf y \<noteq> rootOf u" using rootOf_in_nodes [of u] by metis
    have un: "rootOf u \<in> set (nodes y)" using subsetD [OF subs_nodes [OF subs_child [OF y(2)]] rootOf_in_nodes] .
    have in_u: "set (concat (List.map nodes (subtrees u))) \<subseteq> set (nodes u)" by (cases u) auto
    have below: "below [u] = set (concat (List.map nodes (subtrees u)))" by (simp add: below_def)
    have roots: "f' (rootOf c) = f (rootOf c)" if "c \<in> set (subtrees y)" for c
      using same chain_outside(2) [OF dy y(2) that] unfolding below by blast
    show ?thesis
    proof (rule fits_update [OF T(1) y f _ fu])
      show "f' x = f x" if "x \<notin> set (nodes u)" for x using same subsetD [OF in_u] that by blast
      have "roots f' (subtrees y) = roots f (subtrees y)" using roots by (intro map_cong) auto
      then show "spaced (ilo (f (rootOf y))) (roots f' (subtrees y)) (ihi (f (rootOf y)) - 1)"
        using fits_spaced [OF fits_above [OF f T(1) y(1) un] ne] by (simp only:)
    qed
  qed
qed

lemma good_after_propagation:
  assumes T: "distinct (nodes T)" "u \<in> set (subs T)" and f: "fits (rootOf u) f T" and g: "good f' u"
    and same: "\<And>x. x \<notin> set (concat (List.map nodes (subtrees u))) \<Longrightarrow> f' x = f x"
  shows "good f' T"
  using fits_restore [OF fits_changed_below [OF T f same]] g subs_unique [OF T(1) _ T(2)] by metis

section \<open>A tree with a new leaf\<close>

definition growing :: "DomainHash \<Rightarrow> DomainHash \<Rightarrow> rtree \<Rightarrow> reachStore \<Rightarrow> bool" where
  "growing p b T0 s \<longleftrightarrow> treeStore s (graft p b T0) \<and> distinct (nodes T0) \<and> good (ivl s) T0 \<and> fits b (ivl s) (graft p b T0)
     \<and> p \<in> set (nodes T0) \<and> b \<notin> set (nodes T0)"

lemma growingD:
  assumes "growing p b T0 s"
  shows "treeStore s (graft p b T0)" and "distinct (nodes T0)" and "good (ivl s) T0" and "fits b (ivl s) (graft p b T0)"
    and "p \<in> set (nodes T0)" and "b \<notin> set (nodes T0)" and "distinct (nodes (graft p b T0))"
  using assms by (auto simp: growing_def treeStore_def)

lemma grown_subtree:
  assumes "growing p b T0 s" and "v \<in> set (subs (graft p b T0))" and "r \<in> set (nodes v)" and "r \<noteq> b"
  obtains v0 where "v0 \<in> set (subs T0)" and "v = graft p b v0" and "r \<in> set (nodes v0)"
  using assms growingD(5) [OF assms(1)] by (auto simp: subs_graft nodes_graft split: if_splits)

lemma grown_root:
  assumes "growing p b T0 s" and "v \<in> set (subs (graft p b T0))" and "rootOf v \<noteq> b"
  obtains v0 where "v0 \<in> set (subs T0)" and "v = graft p b v0"
  using grown_subtree [OF assms(1,2) rootOf_in_nodes assms(3)] by blast

lemma grown_ancestor:
  assumes G: "growing p b T0 s" and v: "v \<in> set (subs (graft p b T0))" "rootOf v \<noteq> b" and r: "r \<in> set (nodes T0)"
  shows "IsReachabilityTreeAncestorOf s (rootOf v) r = Inr (r \<in> set (nodes v))"
proof -
  obtain v0 where v0: "v0 \<in> set (subs T0)" "v = graft p b v0" using grown_root [OF G v] .
  obtain w where w: "w \<in> set (subs T0)" "r = rootOf w" using r unfolding nodes_subs by blast
  have rb: "r \<noteq> b" using r growingD(6) [OF G] by blast
  have rep: "rep s (graft p b T0)" using growingD(1) [OF G] by (simp add: treeStore_def)
  have "rootOf v \<in> set (nodes (graft p b T0))" using subsetD [OF subs_nodes [OF v(1)] rootOf_in_nodes] .
  moreover have "r \<in> set (nodes (graft p b T0))" using r by (simp add: nodes_graft)
  ultimately have "present s (rootOf v)" "present s r" using rep_present [OF rep] by blast+
  then have q: "IsReachabilityTreeAncestorOf s (rootOf v) r = Inr (intervalContains (ivl s (rootOf v0)) (ivl s r))"
    using v0(2) by (simp add: IsReachabilityTreeAncestorOf_present)
  have "intervalContains (ivl s (rootOf v0)) (ivl s r) \<longleftrightarrow> r \<in> set (nodes v0)"
  proof
    show "r \<in> set (nodes v0)" if "intervalContains (ivl s (rootOf v0)) (ivl s r)"
      using contains_ancestor [OF growingD(3) [OF G] v0(1) w(1)] that unfolding w(2) .
    show "intervalContains (ivl s (rootOf v0)) (ivl s r)" if "r \<in> set (nodes v0)"
      using good_within [OF good_subs [OF growingD(3) [OF G] v0(1)] that] by (simp add: intervalContains_iff)
  qed
  also have "\<dots> \<longleftrightarrow> r \<in> set (nodes v)" using v0(2) rb by (simp add: nodes_graft)
  finally show ?thesis using q by simp
qed

lemma grown_length:
  assumes G: "growing p b T0 s" and v: "v \<in> set (subs (graft p b T0))" "r \<in> set (nodes v)" "r \<in> set (nodes T0)"
  shows "ilen (ivl s r) \<le> ilen (ivl s (rootOf v))"
proof -
  have "r \<noteq> b" using v(3) growingD(6) [OF G] by blast
  then obtain v0 where v0: "v0 \<in> set (subs T0)" "v = graft p b v0" "r \<in> set (nodes v0)" using grown_subtree [OF G v(1,2)] by blast
  show ?thesis using good_within [OF good_subs [OF growingD(3) [OF G] v0(1)] v0(3)] v0(2) by (auto simp: ilen_def)
qed

text \<open>The new leaf is the last child of its parent.\<close>

lemma leaf_is_last:
  assumes G: "growing p b T0 s" and y: "y \<in> set (subs (graft p b T0))" and ch: "subtrees y = pre @ u # mid @ c # post"
  shows "rootOf u \<noteq> b"
proof
  assume u: "rootOf u = b"
  have "y \<noteq> leaf b" using ch by (cases y) auto
  then obtain y0 where y0: "y0 \<in> set (subs T0)" "y = graft p b y0"
    using y growingD(5) [OF G] by (auto simp: subs_graft)
  have "rootOf x \<noteq> b" if "x \<in> set (subtrees y0)" for x
    using subsetD [OF subs_nodes [OF subs_trans [OF y0(1) subs_child [OF that]]] rootOf_in_nodes] growingD(6) [OF G] by metis
  then have no: "u \<notin> set (List.map (graft p b) (subtrees y0))" using u by (metis imageE list.set_map rootOf_graft)
  have "subtrees y = List.map (graft p b) (subtrees y0) @ (if rootOf y0 = p then [leaf b] else [])"
    using y0(2) by (simp add: subtrees_graft)
  then have eq: "pre @ u # mid @ c # post = List.map (graft p b) (subtrees y0) @ (if rootOf y0 = p then [leaf b] else [])"
    using ch by simp
  have "u \<in> set (butlast (pre @ u # mid @ c # post))" by (simp add: butlast_append)
  then have "u \<in> set (List.map (graft p b) (subtrees y0))"
    unfolding eq by (simp split: if_splits) (metis in_set_butlastD list.set_map)
  then show False using no by simp
qed

section \<open>Climbing to an ancestor with enough room\<close>

lemma spaced_order:
  assumes "fits n f y" and "rootOf y \<noteq> n" and "subtrees y = pre @ u # mid @ c # post"
  shows "ihi (f (rootOf u)) \<le> ilo (f (rootOf c))"
  using spaced_split(2) [of _ "\<lambda>t. f (rootOf t)" pre u "mid @ c # post"] fits_spaced [OF assms(1,2)] assms(3) by simp

lemma split_two:
  assumes "u \<in> set xs" and "c \<in> set xs" and "u \<noteq> c"
  obtains pre mid post where "xs = pre @ u # mid @ c # post" | pre mid post where "xs = pre @ c # mid @ u # post"
proof -
  obtain pre post where xs: "xs = pre @ u # post" using split_list [OF assms(1)] by blast
  then consider "c \<in> set pre" | "c \<in> set post" using assms(2,3) by auto
  then show ?thesis
  proof cases
    case 1
    then obtain a m where "pre = a @ c # m" using split_list by fast
    then show ?thesis using xs that(2) [of a m post] by simp
  next
    case 2
    then obtain a m where "post = a @ c # m" using split_list by fast
    then show ?thesis using xs that(1) [of pre a m] by simp
  qed
qed

lemma reindexIntervalsEarlierThanRoot_correct:
  assumes G: "growing p b T0 s" and T: "T = graft p b T0" and ok: "sizesOk T cache" and r: "r \<in> set (nodes T0)"
    and cap: "unat (reindexSlack rt) * tsize T + 2 * tsize T \<le> ilen (ivl s r)"
    and a: "a \<in> set (subs T)" "u \<in> set (subtrees a)" "c \<in> set (subtrees a)" "c \<noteq> u" "b \<in> set (nodes u)" "r \<in> set (nodes c)"
    and m: "unat required = tsize u"
  shows "\<exists>cache' s'. reindexIntervalsEarlierThanRoot rt (rootOf u) r (rootOf a) required cache s = Some (Inr (cache', s'))
    \<and> sameShape s s' \<and> good (ivl s') T"
proof -
  note g = growingD [OF G, folded T]
  have uT: "u \<in> set (subs T)" and cT: "c \<in> set (subs T)" using subs_trans [OF a(1) subs_child] a(2,3) by blast+
  have fu: "fits (rootOf u) (ivl s) T" using fits_coarsen [OF g(4,7) uT a(5)] .
  have bs: "beside T a u c" using g(7) a(1-4) by (simp add: beside_def)
  note bf = beside_facts [OF bs fu]
  have R: "ready T (rootOf u) cache s" using g(1) ok fu by (simp add: ready_def)
  obtain pre0 post0 where sp: "subtrees a = pre0 @ c # post0" using split_list [OF a(3)] by blast
  have nxt: "FindNextAncestor s r (rootOf a) = Inr (rootOf c)"
    using FindNextAncestor_correct [OF g(1) a(1) sp fits_spaced [OF bf(2,1)] bf(4) a(6)] .
  have iv: "interval s (rootOf u) = Inr (Some (ivl s (rootOf u)))" "interval s (rootOf c) = Inr (Some (ivl s (rootOf c)))"
    using rep_root [OF treeStoreD(1) [OF g(1) uT]] rep_root [OF treeStoreD(1) [OF g(1) cT]] by (simp_all add: interval_present)
  show ?thesis
  proof (cases rule: split_two [OF a(2,3) a(4) [symmetric]])
    case (1 pre mid post)
    have "rootOf u \<noteq> b" using leaf_is_last [OF G, folded T, OF a(1) 1] .
    then obtain u0 where "u0 \<in> set (subs T0)" "u = graft p b u0" using grown_root [OF G] uT T by metis
    then have "ilo (ivl s (rootOf u)) < ihi (ivl s (rootOf u))" using good_root [OF good_subs [OF g(3)]] by fastforce
    then have "Start (ivl s (rootOf u)) < Start (ivl s (rootOf c))"
      using spaced_order [OF bf(2,1) 1] by (simp add: ilo_def word_less_nat_alt)
    moreover have "outerBefore a u c" using 1 by (auto simp: outerBefore_def)
    ultimately show ?thesis
      using reclaimBefore.reclaim_correct [OF bs _ m R a(6) cap] nxt iv
      by (simp add: reindexIntervalsEarlierThanRoot_def reclaimIntervalBefore_def nonNil_def)
  next
    case (2 pre mid post)
    have "\<not> Start (ivl s (rootOf u)) < Start (ivl s (rootOf c))"
      using spaced_order [OF bf(2,1) 2] good_root [OF bf(4)] by (simp add: ilo_def word_less_nat_alt)
    moreover have "outerAfter a u c" using 2 by (auto simp: outerAfter_def)
    ultimately show ?thesis
      using reclaimAfter.reclaim_correct [OF bs _ m R a(6) cap] nxt iv
      by (simp add: reindexIntervalsEarlierThanRoot_def reclaimIntervalAfter_def nonNil_def)
  qed
qed

lemma reindexIntervals_correct:
  assumes G: "growing p b T0 s" and T: "T = graft p b T0" and r: "r \<in> set (nodes T0)"
    and cap: "unat (reindexSlack rt) * tsize T + 2 * tsize T \<le> ilen (ivl s r)"
    and "u \<in> set (subs T)" and "b \<in> set (nodes u)" and "sizesOk T cache"
  shows "\<exists>cache' s'. reindexIntervals rt (rootOf u) r cache s = Some (Inr (cache', s')) \<and> sameShape s s' \<and> good (ivl s') T"
  using assms(5-)
proof (induction "tsize T - tsize u" arbitrary: u cache rule: less_induct)
  case less
  note g = growingD [OF G, folded T] and u = less.prems(1)
  have rb: "r \<noteq> b" using r g(6) by blast
  have fu: "fits (rootOf u) (ivl s) T" using fits_coarsen [OF g(4,7) u less.prems(2)] .
  have regu: "regular (ivl s (rootOf u))" using fits_root [OF fits_above [OF fu g(7) u rootOf_in_nodes]] .
  have fetch: "fetchInterval s (rootOf u) = Inr (ivl s (rootOf u))"
    using rep_root [OF treeStoreD(1) [OF g(1) u]] by (simp add: fetchInterval_present)
  obtain cache' where c: "countSubtrees s (rootOf u) cache = Some (Inr cache')" "sizesOk T cache'" "cache' (rootOf u) \<noteq> None"
    using countSubtrees_correct [OF g(1) u less.prems(3)] rootOf_in_nodes by blast
  have size: "unat (cachedSize cache' (rootOf u)) = tsize u"
    using c(2,3) u by (auto simp: sizesOk_def cachedSize_def)
  have enough: "cachedSize cache' (rootOf u) \<le> intervalSize (ivl s (rootOf u)) \<longleftrightarrow> tsize u \<le> ilen (ivl s (rootOf u))"
    using size unat_intervalSize [OF regu] by (simp add: word_le_nat_alt)
  show ?case
  proof (cases "tsize u \<le> ilen (ivl s (rootOf u))")
    case True
    then have "roomy (ivl s) u" using regu by (simp add: roomy_def)
    then obtain cache2 s2 where p: "propagateInterval rt (rootOf u) cache' s = Some (Inr (cache2, s2))" "sameShape s s2"
      "good (ivl s2) u" "\<forall>x. x \<notin> set (concat (List.map nodes (subtrees u))) \<longrightarrow> ivl s2 x = ivl s x"
      using propagateInterval_correct [OF g(1) u c(2), of rt] by blast
    have "good (ivl s2) T" using good_after_propagation [OF g(7) u fu p(3)] p(4) by blast
    then show ?thesis using p(1,2) fetch c(1) enough True by (subst reindexIntervals.simps) simp
  next
    case False
    have small: "tsize v \<le> ilen (ivl s (rootOf v))" if "v \<in> set (subs T)" "r \<in> set (nodes v)" for v
      using grown_length [OF G, folded T, OF that r] cap tsize_subs [OF that(1)] by linarith
    have ru: "r \<notin> set (nodes u)" using small [OF u] False by blast
    have "u \<noteq> T" using ru r T by (auto simp: nodes_graft)
    then obtain y where y: "y \<in> set (subs T)" "u \<in> set (subtrees y)" using subs_parent [OF u] by blast
    have par: "parent s (rootOf u) = Inr (Some (rootOf y))" using treeStoreD(5) [OF g(1) y] .
    have inb: "b \<in> set (nodes y)" using subsetD [OF subs_nodes [OF subs_child [OF y(2)]] less.prems(2)] .
    have "rootOf y \<notin> set (nodes u)" using root_not_inside [OF distinct_subs [OF g(7) y(1)] subs_self y(2)] .
    then have yb: "rootOf y \<noteq> b" using less.prems(2) by blast
    have anc: "isStrictAncestorOf s (rootOf y) r = Inr (rootOf y \<noteq> r \<and> r \<in> set (nodes y))"
      using grown_ancestor [OF G, folded T, OF y(1) yb r] by (simp add: isStrictAncestorOf_def)
    have un: "rootOf u \<noteq> r" using ru rootOf_in_nodes [of u] by metis
    show ?thesis
    proof (cases "rootOf y \<noteq> r \<and> r \<in> set (nodes y)")
      case True
      then obtain c' where c': "c' \<in> set (subtrees y)" "r \<in> set (nodes c')" by (cases y) auto
      then have "c' \<noteq> u" using ru by blast
      then show ?thesis
        using reindexIntervalsEarlierThanRoot_correct [OF G T c(2) r cap y c'(1) _ less.prems(2) c'(2) size]
          fetch c(1) enough False par un anc True by (subst reindexIntervals.simps) (simp add: nonNil_def)
    next
      case far: False
      have "tsize T - tsize y < tsize T - tsize u"
        using child_smaller [OF y(2)] tsize_subs [OF y(1)] by simp
      then have "\<exists>cache2 s2. reindexIntervals rt (rootOf y) r cache' s = Some (Inr (cache2, s2)) \<and> sameShape s s2 \<and> good (ivl s2) T"
        using less.hyps y(1) inb c(2) by blast
      then show ?thesis
        using fetch c(1) enough False par un anc far by (subst reindexIntervals.simps) (simp add: nonNil_def)
    qed
  qed
qed

section \<open>Adding the child\<close>

lemma stage_graft:
  assumes p: "present s p" "p \<noteq> b" and d: "reachabilityData s b = Some d" "Interval d \<noteq> None" "Children d = []" "FutureCoveringSet d = []"
  shows "\<exists>s1 s2. stageAddChild s p b = Inr s1 \<and> stageParent s1 b p = Inr s2 \<and> grafted p b s s2 \<and> ivl s2 = ivl s"
proof -
  obtain e where e: "reachabilityData s p = Some e" "Interval e \<noteq> None" using p(1) by (auto simp: present_def)
  define s1 where "s1 = stageData s p (AddChild b e)"
  define s2 where "s2 = stageData s1 b (SetParent p d)"
  have "stageAddChild s p b = Inr s1"
    using e by (simp add: stageAddChild_def reachabilityDataForInsertion_def CloneMutable_def s1_def)
  moreover have "stageParent s1 b p = Inr s2"
    using d p(2) by (simp add: stageParent_def reachabilityDataForInsertion_def CloneMutable_def s1_def s2_def stageData_def)
  moreover have "grafted p b s s2"
    using d e p(2) by (auto simp: grafted_def present_def children_def parent_def futureCoveringSet_def fetchData_def
        s1_def s2_def stageData_def AddChild_def SetParent_def)
  moreover have "ivl s2 = ivl s"
    using d e by (auto simp: ivl_def s1_def s2_def stageData_def AddChild_def SetParent_def)
  ultimately show ?thesis by blast
qed

lemma addChild_correct:
  assumes T: "treeStore s T0" "good (ivl s) T0" and p: "p \<in> set (nodes T0)" and r: "r \<in> set (nodes T0)" and b: "b \<notin> set (nodes T0)"
    and d: "reachabilityData s b = Some d" "Interval d \<noteq> None" "Children d = []" "FutureCoveringSet d = []"
    and cap: "(unat (reindexSlack rt) + 2) * (tsize T0 + 1) \<le> ilen (ivl s r)"
  shows "\<exists>s'. addChild rt p b r s = Some (Inr s') \<and> grafted p b s s' \<and> good (ivl s') (graft p b T0)"
proof -
  let ?T = "graft p b T0"
  obtain v where v: "v \<in> set (subs T0)" "rootOf v = p" using p unfolding nodes_subs by blast
  have pb: "p \<noteq> b" using p b by blast
  have dT: "distinct (nodes T0)" using T(1) by (simp add: treeStore_def)
  note gv = good_subs [OF T(2) v(1)]
  obtain ri where ri: "remainingIntervalAfter s p = Inr ri" "regular ri" "ilo ri = lastHi (ivl s) v" "ihi ri = ihi (ivl s p) - 1"
    using remainingIntervalAfter_correct [OF T(1) v(1) gv] v(2) by metis
  obtain s1 s2 where st: "stageAddChild s p b = Inr s1" "stageParent s1 b p = Inr s2" "grafted p b s s2" "ivl s2 = ivl s"
    using stage_graft [OF _ pb d] rep_root [OF treeStoreD(1) [OF T(1) v(1)]] v(2) by metis
  have sz: "tsize ?T = tsize T0 + 1" using graft_nodes_distinct [OF dT b, of p] p by simp
  have cap': "unat (reindexSlack rt) * tsize ?T + 2 * tsize ?T \<le> ilen (ivl s r)"
    using cap unfolding sz by (simp add: algebra_simps)
  have "tsize T0 + 1 < 2 ^ 64" using add_leD2 [OF cap'] ilen_less [of "ivl s r"] unfolding sz by simp
  note T2 = treeStore_graft [OF st(3) T(1) b this]
  have step: "\<exists>s3. stageInterval s2 b q = Inr s3 \<and> grafted p b s s3 \<and> growing p b T0 s3 \<and> ivl s3 = (ivl s)(b := q)"
    if q: "regular q" "ilo ri \<le> ilo q" "ihi q \<le> ihi ri" for q
  proof -
    have "present s2 b" using st(3) by (simp add: grafted_def)
    then obtain s3 where s3: "stageInterval s2 b q = Inr s3" "sameShape s2 s3" "ivl s3 = (ivl s)(b := q)"
      using stageInterval_present [of s2 b q] st(4) by auto
    have good0: "good (ivl s3) T0" using T(2) good_cong [of T0 "ivl s3" "ivl s"] b s3(3) by fastforce
    have last: "lastHi (ivl s3) v = lastHi (ivl s) v"
    proof -
      have "rootOf c \<noteq> b" if "c \<in> set (subtrees v)" for c
        using subsetD [OF subs_nodes [OF subs_trans [OF v(1) subs_child [OF that]]] rootOf_in_nodes] b by metis
      then have "roots (ivl s3) (subtrees v) = roots (ivl s) (subtrees v)" using s3(3) by (intro map_cong) auto
      moreover have "ivl s3 (rootOf v) = ivl s (rootOf v)" using s3(3) v(2) pb by simp
      ultimately show ?thesis by (simp only: lastHi_def)
    qed
    have "fits b (ivl s3) ?T"
    proof (rule fits_graft [OF dT good0 b])
      show "regular (ivl s3 b)" "ilo (ivl s3 b) \<le> ihi (ivl s3 b)" using q(1) s3(3) by (auto simp: regular_def)
      show "lastHi (ivl s3) w \<le> ilo (ivl s3 b) \<and> ihi (ivl s3 b) \<le> ihi (ivl s3 p) - 1"
        if "w \<in> set (subs T0)" "rootOf w = p" for w
        using subs_unique [OF dT that(1) v(1)] that(2) v(2) last q(2,3) ri(3,4) s3(3) pb by simp
    qed
    then have "growing p b T0 s3"
      using treeStore_sameShape [OF s3(2) T2] dT good0 p b by (simp add: growing_def)
    then show ?thesis using s3 grafted_sameShape [OF st(3) s3(2)] by blast
  qed
  show ?thesis
  proof (cases "intervalSize ri = 0")
    case True
    obtain s3 where s3: "stageInterval s2 b ri = Inr s3" "grafted p b s s3" "growing p b T0 s3" "ivl s3 = (ivl s)(b := ri)"
      using step [of ri] ri(2) by blast
    have bT: "leaf b \<in> set (subs ?T)" using p by (simp add: subs_graft)
    have "sizesOk ?T newReindexContext" by (simp add: sizesOk_def newReindexContext_def)
    moreover have "unat (reindexSlack rt) * tsize ?T + 2 * tsize ?T \<le> ilen (ivl s3 r)" using cap' s3(4) r b by auto
    ultimately obtain cache' s' where r: "reindexIntervals rt b r newReindexContext s3 = Some (Inr (cache', s'))"
      "sameShape s3 s'" "good (ivl s') ?T"
      using reindexIntervals_correct [OF s3(3) refl r _ bT, of rt newReindexContext] by auto
    then show ?thesis
      using ri(1) st(1,2) s3(1) True grafted_sameShape [OF s3(2) r(2)] by (simp add: addChild_def ret_def)
  next
    case False
    then have "ilo ri < ihi ri" using intervalSize_zero_iff [OF ri(2)] ri(2) by (auto simp: regular_def)
    then obtain l q where h: "intervalSplitInHalf (floatOutOfRange rt) ri = Inr (l, q)" "ilo l = ilo ri" "ilo l < ihi l" "ihi l \<le> ihi ri"
      using intervalSplitInHalf_left [OF ri(2)] by blast
    have "regular l" using h ri(2) by (auto simp: regular_def)
    then obtain s3 where s3: "stageInterval s2 b l = Inr s3" "grafted p b s s3" "growing p b T0 s3" "ivl s3 = (ivl s)(b := l)"
      using step [of l] h by auto
    note g = growingD [OF s3(3)]
    have "good (ivl s3) ?T"
    proof (rule fits_restore [OF g(4)])
      fix w assume "w \<in> set (subs ?T)" "rootOf w = b"
      then have "w = leaf b" using subs_unique [OF g(7), of w "leaf b"] p by (simp add: subs_graft)
      then show "good (ivl s3) w" using \<open>regular l\<close> h s3(4) by simp
    qed
    then show ?thesis using ri(1) st(1,2) s3(1,2) False h(1) by (simp add: addChild_def ret_def)
  qed
qed

end
