(* ===== verification/Reach_Cover.thy ===== *)
theory Reach_Cover
  imports Reach_AddChild
begin

text \<open>
  The future covering sets. Ancestry and the order from left to right are read off the tree,
  so that they survive reindexing, and agree with containment and order of any intervals that
  fit. A covering set is a list of blocks ordered from left to right; searching it and
  inserting a leaf into it are correct.
\<close>

section \<open>Ancestors and order in a tree\<close>

definition anc :: "rtree \<Rightarrow> DomainHash \<Rightarrow> DomainHash \<Rightarrow> bool" where
  "anc T x y \<longleftrightarrow> (\<exists>u\<in>set (subs T). rootOf u = x \<and> y \<in> set (nodes u))"

definition leftOf :: "rtree \<Rightarrow> DomainHash \<Rightarrow> DomainHash \<Rightarrow> bool" where
  "leftOf T x y \<longleftrightarrow> (\<exists>v\<in>set (subs T). \<exists>pre a mid c post. subtrees v = pre @ a # mid @ c # post
     \<and> x \<in> set (nodes a) \<and> y \<in> set (nodes c))"

lemma anc_nodes: "anc T x y \<Longrightarrow> x \<in> set (nodes T) \<and> y \<in> set (nodes T)"
  unfolding anc_def using subs_nodes rootOf_in_nodes by blast

lemma anc_refl:
  assumes "x \<in> set (nodes T)"
  shows "anc T x x"
proof -
  obtain u where "u \<in> set (subs T)" "x = rootOf u" using assms unfolding nodes_subs by blast
  then show ?thesis unfolding anc_def by auto
qed

lemma leftOf_nodes:
  assumes "leftOf T x y"
  shows "x \<in> set (nodes T) \<and> y \<in> set (nodes T)"
proof -
  obtain v pre a mid c post where v: "v \<in> set (subs T)" "subtrees v = pre @ a # mid @ c # post" "x \<in> set (nodes a)" "y \<in> set (nodes c)"
    using assms unfolding leftOf_def by blast
  have "a \<in> set (subs T)" "c \<in> set (subs T)" using subs_trans [OF v(1) subs_child] v(2) by auto
  then show ?thesis using v(3,4) by (meson subs_nodes subsetD)
qed

lemma tree_order:
  assumes "x \<in> set (nodes T)" and "y \<in> set (nodes T)"
  shows "anc T x y \<or> anc T y x \<or> leftOf T x y \<or> leftOf T y x"
  using assms
proof (induction T rule: nodes.induct)
  case (1 h ts)
  have root: "anc (RNode h ts) h z" if "z \<in> set (nodes (RNode h ts))" for z
    unfolding anc_def using that by (intro bexI [of _ "RNode h ts"]) auto
  show ?case
  proof (cases "x = h \<or> y = h")
    case True
    then show ?thesis using root 1(2,3) by blast
  next
    case False
    then obtain a c where ac: "a \<in> set ts" "x \<in> set (nodes a)" "c \<in> set ts" "y \<in> set (nodes c)" using 1(2,3) by auto
    show ?thesis
    proof (cases "a = c")
      case True
      have lift: "anc a i j \<Longrightarrow> anc (RNode h ts) i j" "leftOf a i j \<Longrightarrow> leftOf (RNode h ts) i j" for i j
        unfolding anc_def leftOf_def using ac(1) by (simp, blast)+
      then show ?thesis using 1(1) [OF ac(1,2)] ac(4) True by blast
    next
      case False
      have left: "leftOf (RNode h ts) i j" if "ts = pre @ a' # mid @ c' # post" "i \<in> set (nodes a')" "j \<in> set (nodes c')"
        for i j pre a' mid c' post
        unfolding leftOf_def using that subs_self [of "RNode h ts"] unfolding rtree.sel by (metis rtree.sel(2))
      show ?thesis using split_two [OF ac(1,3) False] left ac(2,4) by metis
    qed
  qed
qed

lemma anc_contains:
  assumes "good f T" and "x \<in> set (nodes T)" and "y \<in> set (nodes T)"
  shows "intervalContains (f x) (f y) \<longleftrightarrow> anc T x y"
proof -
  obtain u v where uv: "u \<in> set (subs T)" "x = rootOf u" "v \<in> set (subs T)" "y = rootOf v"
    using assms(2,3) unfolding nodes_subs by blast
  show ?thesis
  proof
    show "anc T x y" if "intervalContains (f x) (f y)"
      using contains_ancestor [OF assms(1) uv(1,3)] that uv unfolding anc_def by blast
    show "intervalContains (f x) (f y)" if "anc T x y"
      using that good_within [OF good_subs [OF assms(1)]] unfolding anc_def intervalContains_iff by blast
  qed
qed

lemma leftOf_ends: "good f T \<Longrightarrow> leftOf T x y \<Longrightarrow> ihi (f x) \<le> ilo (f y)"
proof -
  assume g: "good f T" and "leftOf T x y"
  then obtain v pre a mid c post where v: "v \<in> set (subs T)" "subtrees v = pre @ a # mid @ c # post" "x \<in> set (nodes a)" "y \<in> set (nodes c)"
    unfolding leftOf_def by blast
  have gv: "good f v" using good_subs [OF g v(1)] .
  have "ihi (f (rootOf a)) \<le> ilo (f (rootOf c))"
    using spaced_split(2) [of _ "\<lambda>t. f (rootOf t)" pre a "mid @ c # post"] good_spaced [OF gv] v(2) by simp
  moreover have "good f a" "good f c" using good_subs [OF gv subs_child] v(2) by auto
  ultimately show ?thesis using good_within v(3,4) by (meson le_trans)
qed

lemma good_nonempty: "good f T \<Longrightarrow> x \<in> set (nodes T) \<Longrightarrow> ilo (f x) < ihi (f x)"
  using good_within by blast

lemma leftOf_iff:
  assumes "good f T" and "x \<in> set (nodes T)" and "y \<in> set (nodes T)"
  shows "leftOf T x y \<longleftrightarrow> ihi (f x) \<le> ilo (f y)"
proof
  assume le: "ihi (f x) \<le> ilo (f y)"
  have ne: "ilo (f x) < ihi (f x)" "ilo (f y) < ihi (f y)" using good_nonempty [OF assms(1)] assms(2,3) by blast+
  have "\<not> anc T x y" "\<not> anc T y x"
    using le ne anc_contains [OF assms] anc_contains [OF assms(1,3,2)] by (auto simp: intervalContains_iff)
  moreover have "\<not> leftOf T y x" using leftOf_ends [OF assms(1), of y x] le ne by linarith
  ultimately show "leftOf T x y" using tree_order [OF assms(2,3)] by blast
qed (rule leftOf_ends [OF assms(1)])

lemma anc_query:
  assumes "rep s T" and "good (ivl s) T" and "x \<in> set (nodes T)" and "y \<in> set (nodes T)"
  shows "IsReachabilityTreeAncestorOf s x y = Inr (anc T x y)"
  using IsReachabilityTreeAncestorOf_present [OF rep_present [OF assms(1,3)] rep_present [OF assms(1,4)]]
    anc_contains [OF assms(2-4)] by simp

section \<open>Grafting keeps ancestors and order\<close>

lemma subs_graft_iff:
  assumes "b \<notin> set (nodes T)" and "u \<in> set (subs (graft p b T))"
  shows "(\<exists>v\<in>set (subs T). u = graft p b v) \<or> u = leaf b"
  using assms(2) by (auto simp: subs_graft split: if_splits)

lemma anc_graft_old:
  assumes "b \<notin> set (nodes T)" and "x \<in> set (nodes T)" and "y \<in> set (nodes T)"
  shows "anc (graft p b T) x y \<longleftrightarrow> anc T x y"
proof
  assume "anc (graft p b T) x y"
  then obtain u where u: "u \<in> set (subs (graft p b T))" "rootOf u = x" "y \<in> set (nodes u)" unfolding anc_def by blast
  have "u \<noteq> leaf b" using u(2) assms(1,2) by auto
  then obtain v where v: "v \<in> set (subs T)" "u = graft p b v" using subs_graft_iff [OF assms(1) u(1)] by blast
  have "y \<noteq> b" using assms(1,3) by blast
  then have "y \<in> set (nodes v)" using u(3) v(2) by (auto simp: nodes_graft split: if_splits)
  then show "anc T x y" unfolding anc_def using v u(2) by auto
next
  assume "anc T x y"
  then obtain v where v: "v \<in> set (subs T)" "rootOf v = x" "y \<in> set (nodes v)" unfolding anc_def by blast
  have "graft p b v \<in> set (subs (graft p b T))" using v(1) by (simp add: subs_graft)
  then show "anc (graft p b T) x y" unfolding anc_def using v(2,3) by (intro bexI) (auto simp: nodes_graft)
qed

lemma anc_graft_new:
  assumes "b \<notin> set (nodes T)" and "x \<in> set (nodes T)"
  shows "anc (graft p b T) x b \<longleftrightarrow> anc T x p"
proof
  assume "anc (graft p b T) x b"
  then obtain u where u: "u \<in> set (subs (graft p b T))" "rootOf u = x" "b \<in> set (nodes u)" unfolding anc_def by blast
  have "u \<noteq> leaf b" using u(2) assms by auto
  then obtain v where v: "v \<in> set (subs T)" "u = graft p b v" using subs_graft_iff [OF assms(1) u(1)] by blast
  have "b \<notin> set (nodes v)" using assms(1) subs_nodes [OF v(1)] by blast
  then have "p \<in> set (nodes v)" using u(3) v(2) by (auto simp: nodes_graft split: if_splits)
  then show "anc T x p" unfolding anc_def using v u(2) by auto
next
  assume "anc T x p"
  then obtain v where v: "v \<in> set (subs T)" "rootOf v = x" "p \<in> set (nodes v)" unfolding anc_def by blast
  have "graft p b v \<in> set (subs (graft p b T))" using v(1) by (simp add: subs_graft)
  then show "anc (graft p b T) x b" unfolding anc_def using v(2,3) by (intro bexI) (auto simp: nodes_graft)
qed

lemma anc_graft_leaf:
  assumes "b \<notin> set (nodes T)" and "p \<in> set (nodes T)"
  shows "anc (graft p b T) b y \<longleftrightarrow> y = b"
proof
  assume "anc (graft p b T) b y"
  then obtain u where u: "u \<in> set (subs (graft p b T))" "rootOf u = b" "y \<in> set (nodes u)" unfolding anc_def by blast
  have "rootOf v \<noteq> b" if "v \<in> set (subs T)" for v
    using subsetD [OF subs_nodes [OF that] rootOf_in_nodes] assms(1) by metis
  then have "u = leaf b" using subs_graft_iff [OF assms(1) u(1)] u(2) by (metis rootOf_graft)
  then show "y = b" using u(3) by simp
next
  show "anc (graft p b T) b y" if "y = b" unfolding that using assms(2) by (intro anc_refl) (simp add: nodes_graft)
qed

lemma leftOf_graft:
  assumes "leftOf T x y"
  shows "leftOf (graft p b T) x y"
proof -
  obtain v pre a mid c post where v: "v \<in> set (subs T)" "subtrees v = pre @ a # mid @ c # post" "x \<in> set (nodes a)" "y \<in> set (nodes c)"
    using assms unfolding leftOf_def by blast
  let ?g = "graft p b"
  have "?g v \<in> set (subs (?g T))" using v(1) by (simp add: subs_graft)
  moreover have "subtrees (?g v) = List.map ?g pre @ ?g a # List.map ?g mid @ ?g c # (List.map ?g post @ (if rootOf v = p then [leaf b] else []))"
    using v(2) by (simp add: subtrees_graft)
  moreover have "x \<in> set (nodes (?g a))" "y \<in> set (nodes (?g c))" using v(3,4) by (auto simp: nodes_graft)
  ultimately show ?thesis unfolding leftOf_def by blast
qed

section \<open>Searching a covering set\<close>

definition covering :: "rtree \<Rightarrow> DomainHash list \<Rightarrow> bool" where
  "covering T fcs \<longleftrightarrow> set fcs \<subseteq> set (nodes T) \<and> sorted_wrt (leftOf T) fcs"

definition covered :: "rtree \<Rightarrow> DomainHash list \<Rightarrow> DomainHash \<Rightarrow> bool" where
  "covered T fcs x \<longleftrightarrow> (\<exists>h\<in>set fcs. anc T h x)"

text \<open>The number of blocks of the list that start before a block ends.\<close>

definition startsBefore :: "reachStore \<Rightarrow> DomainHash list \<Rightarrow> DomainHash \<Rightarrow> nat" where
  "startsBefore s fcs x = length (takeWhile (\<lambda>h. ilo (ivl s h) < ihi (ivl s x)) fcs)"

lemma covering_nth:
  assumes "covering T fcs" and "good f T" and "i < j" and "j < length fcs"
  shows "ihi (f (fcs ! i)) \<le> ilo (f (fcs ! j))"
  using assms leftOf_ends sorted_wrt_nth_less unfolding covering_def by blast

lemma cut_correct:
  assumes c: "covering T fcs" and g: "good (ivl s) T"
  shows "startsBefore s fcs x \<le> length fcs"
    and "i < startsBefore s fcs x \<Longrightarrow> ilo (ivl s (fcs ! i)) < ihi (ivl s x)"
    and "startsBefore s fcs x \<le> i \<Longrightarrow> i < length fcs \<Longrightarrow> ihi (ivl s x) \<le> ilo (ivl s (fcs ! i))"
proof -
  let ?P = "\<lambda>h. ilo (ivl s h) < ihi (ivl s x)"
  show "startsBefore s fcs x \<le> length fcs" by (simp add: startsBefore_def length_takeWhile_le)
  show "i < startsBefore s fcs x \<Longrightarrow> ?P (fcs ! i)"
    unfolding startsBefore_def by (metis nth_mem set_takeWhileD takeWhile_nth)
  assume i: "startsBefore s fcs x \<le> i" "i < length fcs"
  then have "\<not> ?P (fcs ! startsBefore s fcs x)" using nth_length_takeWhile [of ?P fcs] by (simp add: startsBefore_def)
  moreover have "ilo (ivl s (fcs ! startsBefore s fcs x)) \<le> ilo (ivl s (fcs ! i))"
  proof (cases "startsBefore s fcs x = i")
    case False
    then have lt: "startsBefore s fcs x < i" using i by simp
    have "fcs ! startsBefore s fcs x \<in> set (nodes T)" using c lt i(2) by (auto simp: covering_def)
    then show ?thesis using covering_nth [OF c g lt i(2)] good_nonempty [OF g] by (meson le_trans less_imp_le)
  qed simp
  ultimately show "ihi (ivl s x) \<le> ilo (ivl s (fcs ! i))" by linarith
qed

lemma findAncestorIndex_cut:
  assumes T: "rep s T" "good (ivl s) T" and c: "covering T fcs" and x: "x \<in> set (nodes T)"
  shows "findAncestorIndexOfNode s fcs x = Inr (if startsBefore s fcs x = 0 then None else Some (startsBefore s fcs x - 1))"
proof (rule findAncestorIndexOfNode_result)
  show "present s x" "\<forall>y\<in>set fcs. present s y" using rep_present [OF T(1)] x c by (auto simp: covering_def)
qed (use cut_correct [OF c T(2)] in blast)+

lemma covered_cut:
  assumes g: "good (ivl s) T" and c: "covering T fcs" and x: "x \<in> set (nodes T)"
  shows "covered T fcs x \<longleftrightarrow> startsBefore s fcs x \<noteq> 0 \<and> anc T (fcs ! (startsBefore s fcs x - 1)) x"
proof
  let ?k = "startsBefore s fcs x"
  assume "covered T fcs x"
  then obtain i where i: "i < length fcs" "anc T (fcs ! i) x" unfolding covered_def by (metis in_set_conv_nth)
  have mem: "fcs ! i \<in> set (nodes T)" using anc_nodes [OF i(2)] by blast
  have cont: "ilo (ivl s (fcs ! i)) \<le> ilo (ivl s x)" "ihi (ivl s x) \<le> ihi (ivl s (fcs ! i))"
    using i(2) anc_contains [OF g mem x] by (auto simp: intervalContains_iff)
  have "ilo (ivl s (fcs ! i)) < ihi (ivl s x)" using cont(1) good_nonempty [OF g x] by linarith
  then have lt: "i < ?k" using cut_correct(3) [OF c g, of x i] i(1) by linarith
  have "i = ?k - 1"
  proof (rule ccontr)
    assume "i \<noteq> ?k - 1"
    then have "i < ?k - 1" "?k - 1 < ?k" using lt by auto
    then show False
      using covering_nth [OF c g, of i "?k - 1"] cut_correct(1) [OF c g, of x] cut_correct(2) [OF c g, of "?k - 1" x] cont(2)
      by linarith
  qed
  then show "?k \<noteq> 0 \<and> anc T (fcs ! (?k - 1)) x" using lt i(2) by auto
next
  assume a: "startsBefore s fcs x \<noteq> 0 \<and> anc T (fcs ! (startsBefore s fcs x - 1)) x"
  then have "startsBefore s fcs x - 1 < length fcs" using cut_correct(1) [OF c g, of x] by linarith
  then show "covered T fcs x" using a unfolding covered_def by (meson nth_mem)
qed

lemma futureCoveringSetHasAncestorOf_correct:
  assumes T: "rep s T" "good (ivl s) T" and f: "futureCoveringSet s h = Inr fcs" and c: "covering T fcs" and x: "x \<in> set (nodes T)"
  shows "futureCoveringSetHasAncestorOf s h x = Inr (covered T fcs x)"
proof (cases "startsBefore s fcs x = 0")
  case True
  then show ?thesis
    using f findAncestorIndex_cut [OF T c x] covered_cut [OF T(2) c x] by (simp add: futureCoveringSetHasAncestorOf_def)
next
  case False
  let ?c = "fcs ! (startsBefore s fcs x - 1)"
  have "startsBefore s fcs x - 1 < length fcs" using cut_correct(1) [OF c T(2), of x] False by linarith
  then have mem: "?c \<in> set (nodes T)" using c by (auto simp: covering_def)
  have "IsReachabilityTreeAncestorOf s ?c x = Inr (anc T ?c x)"
    using anc_query [OF T mem x] .
  then show ?thesis
    using False f findAncestorIndex_cut [OF T c x] covered_cut [OF T(2) c x] by (simp add: futureCoveringSetHasAncestorOf_def)
qed

section \<open>Inserting a leaf into a covering set\<close>

text \<open>What changes when the covering set of one block is staged.\<close>

definition onlyCovers :: "DomainHash \<Rightarrow> reachStore \<Rightarrow> reachStore \<Rightarrow> bool" where
  "onlyCovers h s s' \<longleftrightarrow> reachabilityReindexRoot s' = reachabilityReindexRoot s \<and> ivl s' = ivl s
     \<and> (\<forall>x. present s' x = present s x \<and> children s' x = children s x \<and> parent s' x = parent s x
          \<and> (x \<noteq> h \<longrightarrow> futureCoveringSet s' x = futureCoveringSet s x))"

lemma onlyCovers_refl [simp]: "onlyCovers h s s"
  by (simp add: onlyCovers_def)

lemma rep_onlyCovers: "onlyCovers h s s' \<Longrightarrow> rep s' t = rep s t"
  by (induction s t rule: rep.induct) (simp add: onlyCovers_def)

lemma stage_covers:
  assumes "reachabilityData s h = Some d" and "Interval d \<noteq> None"
  shows "onlyCovers h s (stageData s h (SetFutureCoveringSet fcs d))"
    and "futureCoveringSet (stageData s h (SetFutureCoveringSet fcs d)) h = Inr fcs"
  using assms by (auto simp: onlyCovers_def present_def children_def parent_def futureCoveringSet_def fetchData_def
      ivl_def stageData_def SetFutureCoveringSet_def fun_eq_iff)

text \<open>The list after inserting between the blocks that start before the leaf and the others.\<close>

lemma covering_insert:
  assumes g: "good (ivl s) T" and c: "covering T fcs" and b: "b \<in> set (nodes T)" and no: "\<not> covered T fcs b"
    and leaf: "\<And>y. anc T b y \<Longrightarrow> y = b"
  defines "k \<equiv> startsBefore s fcs b"
  shows "covering T (take k fcs @ b # drop k fcs)"
proof -
  have "sorted_wrt (leftOf T) (take k fcs @ drop k fcs)" using c by (simp add: covering_def)
  note sorted = iffD1 [OF sorted_wrt_append this]
  have mem: "fcs ! i \<in> set (nodes T)" if "i < length fcs" for i using c that by (auto simp: covering_def)
  have before: "leftOf T y b" if y: "y \<in> set (take k fcs)" for y
  proof -
    obtain i where i: "i < k" "i < length fcs" "y = fcs ! i" using y by (auto simp: in_set_conv_nth)
    note m = mem [OF i(2)]
    have "ilo (ivl s y) < ihi (ivl s b)" using cut_correct(2) [OF c g, of i b] i by (simp add: k_def)
    then have "\<not> leftOf T b y" using leftOf_ends [OF g, of b y] by linarith
    moreover have "\<not> anc T y b" using no i(2,3) by (auto simp: covered_def)
    moreover have "\<not> anc T b y" using leaf [of y] anc_refl [OF b] \<open>\<not> anc T y b\<close> by blast
    ultimately show ?thesis using tree_order [OF m b] i(3) by blast
  qed
  have after: "leftOf T b y" if y: "y \<in> set (drop k fcs)" for y
  proof -
    obtain i where i: "k \<le> i" "i < length fcs" "y = fcs ! i"
      using y by (auto simp: in_set_conv_nth) (metis add.commute le_add2 less_diff_conv)
    have "ihi (ivl s b) \<le> ilo (ivl s y)" using cut_correct(3) [OF c g, of b i] i by (simp add: k_def)
    then show ?thesis using leftOf_iff [OF g b] mem [OF i(2)] i(3) by simp
  qed
  have "set (take k fcs @ b # drop k fcs) \<subseteq> set (nodes T)"
    using c b set_take_subset [of k fcs] set_drop_subset [of k fcs] unfolding covering_def by auto
  then show ?thesis using sorted before after by (auto simp: covering_def sorted_wrt_append)
qed

lemma insertToFutureCoveringSet_correct:
  assumes T: "rep s T" "good (ivl s) T" and f: "futureCoveringSet s h = Inr fcs" and c: "covering T fcs"
    and h: "h \<in> set (nodes T)" and b: "b \<in> set (nodes T)" and leaf: "\<And>y. anc T b y \<Longrightarrow> y = b"
  shows "\<exists>s' fcs'. insertToFutureCoveringSet s h b = Inr s' \<and> onlyCovers h s s' \<and> futureCoveringSet s' h = Inr fcs'
    \<and> covering T fcs' \<and> (\<forall>x. covered T fcs' x \<longleftrightarrow> covered T fcs x \<or> x = b)"
proof -
  obtain d where d: "reachabilityData s h = Some d" "Interval d \<noteq> None" using rep_present [OF T(1) h] by (auto simp: present_def)
  have data: "reachabilityDataForInsertion s h = Inr d" "FutureCoveringSet d = fcs"
    using d f by (auto simp: reachabilityDataForInsertion_def CloneMutable_def futureCoveringSet_def fetchData_def)
  let ?k = "startsBefore s fcs b" and ?c = "fcs ! (startsBefore s fcs b - 1)"
  let ?new = "take ?k fcs @ b # drop ?k fcs"
  note find = findAncestorIndex_cut [OF T c b] and cov = covered_cut [OF T(2) c b]
  have isb: "anc T b x \<longleftrightarrow> x = b" for x using leaf [of x] anc_refl [OF b] by blast
  have mem: "x \<in> set ?new \<longleftrightarrow> x \<in> set fcs \<or> x = b" for x
  proof -
    have "x \<in> set fcs \<longleftrightarrow> x \<in> set (take ?k fcs) \<or> x \<in> set (drop ?k fcs)" by (metis Un_iff append_take_drop_id set_append)
    then show ?thesis by auto
  qed
  have new: "covered T ?new x \<longleftrightarrow> covered T fcs x \<or> x = b" for x
    unfolding covered_def using isb mem by blast
  show ?thesis
  proof (cases "covered T fcs b")
    case True
    then have k: "?k \<noteq> 0" "anc T ?c b" using cov by auto
    have q: "IsReachabilityTreeAncestorOf s ?c b = Inr True"
      using anc_query [OF T _ b] anc_nodes [OF k(2)] k(2) by simp
    have "insertToFutureCoveringSet s h b = Inr s"
      using data find k(1) q by (simp add: insertToFutureCoveringSet_def Let_def)
    moreover have "covered T fcs x \<longleftrightarrow> covered T fcs x \<or> x = b" for x using True by auto
    ultimately show ?thesis using f c onlyCovers_refl by blast
  next
    case False
    note ins = covering_insert [OF T(2) c b False leaf]
    have staged: "insertToFutureCoveringSet s h b = Inr (stageData s h (SetFutureCoveringSet ?new d))"
    proof (cases "?k = 0")
      case True
      then show ?thesis using data find by (simp add: insertToFutureCoveringSet_def Let_def)
    next
      case k: False
      then have "?k - 1 < length fcs" using cut_correct(1) [OF c T(2), of b] by linarith
      then have m: "?c \<in> set (nodes T)" using c by (auto simp: covering_def)
      have "\<not> anc T ?c b" using False cov k by blast
      then have "\<not> anc T b ?c" using isb anc_refl [OF b] by metis
      have q: "IsReachabilityTreeAncestorOf s ?c b = Inr False" "IsReachabilityTreeAncestorOf s b ?c = Inr False"
        using anc_query [OF T m b] anc_query [OF T b m] \<open>\<not> anc T ?c b\<close> \<open>\<not> anc T b ?c\<close> by simp_all
      then show ?thesis using data find k by (simp add: insertToFutureCoveringSet_def Let_def)
    qed
    show ?thesis using staged stage_covers [OF d] ins new by blast
  qed
qed

end
