(* ===== verification/Reach_Dag.thy ===== *)
theory Reach_Dag
  imports Reach_Cover
begin

text \<open>
  The contract of the reachability manager: on every store built by \<open>InitReachability\<close> and
  \<open>AddBlock\<close>, \<open>IsDAGAncestorOf\<close> decides reachability in the graph of the blocks. The graph is
  given by its edges from parents to children; a block is added with any set of parents that
  contains its selected parent and with the merge set that GHOSTDAG computes for it, the
  blocks of its past that are not in the past of the selected parent.
\<close>

section \<open>Stores that cover a graph\<close>

definition fcsOf :: "reachStore \<Rightarrow> DomainHash \<Rightarrow> DomainHash list" where
  "fcsOf s h = (case futureCoveringSet s h of Inr fcs \<Rightarrow> fcs | Inl e \<Rightarrow> [])"

lemma fcsOf_eq: "futureCoveringSet s h = Inr fcs \<Longrightarrow> fcsOf s h = fcs"
  by (simp add: fcsOf_def)

definition dagStore :: "reachStore \<Rightarrow> rtree \<Rightarrow> (DomainHash \<times> DomainHash) set \<Rightarrow> bool" where
  "dagStore s T E \<longleftrightarrow> treeStore s T \<and> good (ivl s) T \<and> E \<subseteq> set (nodes T) \<times> set (nodes T)
     \<and> (\<exists>r\<in>set (nodes T). reachabilityReindexRoot s = Some r)
     \<and> (\<forall>h\<in>set (nodes T). futureCoveringSet s h = Inr (fcsOf s h) \<and> covering T (fcsOf s h)
          \<and> (\<forall>x\<in>set (nodes T). (h, x) \<in> E\<^sup>* \<longleftrightarrow> anc T h x \<or> covered T (fcsOf s h) x))"

lemma dagStoreD:
  assumes "dagStore s T E"
  shows "treeStore s T" and "good (ivl s) T" and "E \<subseteq> set (nodes T) \<times> set (nodes T)" and "rep s T" and "distinct (nodes T)"
    and "h \<in> set (nodes T) \<Longrightarrow> futureCoveringSet s h = Inr (fcsOf s h)"
    and "h \<in> set (nodes T) \<Longrightarrow> covering T (fcsOf s h)"
    and "h \<in> set (nodes T) \<Longrightarrow> x \<in> set (nodes T) \<Longrightarrow> (h, x) \<in> E\<^sup>* \<longleftrightarrow> anc T h x \<or> covered T (fcsOf s h) x"
  using assms by (auto simp: dagStore_def treeStore_def)

lemma IsDAGAncestorOf_dagStore:
  assumes "dagStore s T E" and "x \<in> set (nodes T)" and "y \<in> set (nodes T)"
  shows "IsDAGAncestorOf s x y = Inr ((x, y) \<in> E\<^sup>*)"
proof -
  note d = dagStoreD [OF assms(1)]
  have "IsReachabilityTreeAncestorOf s x y = Inr (anc T x y)" using anc_query [OF d(4,2) assms(2,3)] .
  moreover have "futureCoveringSetHasAncestorOf s x y = Inr (covered T (fcsOf s x) y)"
    using futureCoveringSetHasAncestorOf_correct [OF d(4,2) d(6) [OF assms(2)] d(7) [OF assms(2)] assms(3)] .
  ultimately show ?thesis using d(8) [OF assms(2,3)] by (simp add: IsDAGAncestorOf_def)
qed

section \<open>A new sink of the graph\<close>

lemma rtrancl_sink:
  assumes "E \<subseteq> B \<times> B" and "b \<notin> B" and "P \<subseteq> B"
  shows "(x, y) \<in> (E \<union> P \<times> {b})\<^sup>* \<longleftrightarrow> (x, y) \<in> E\<^sup>* \<or> (y = b \<and> (\<exists>q\<in>P. (x, q) \<in> E\<^sup>*))"
proof
  assume "(x, y) \<in> (E \<union> P \<times> {b})\<^sup>*"
  then show "(x, y) \<in> E\<^sup>* \<or> (y = b \<and> (\<exists>q\<in>P. (x, q) \<in> E\<^sup>*))"
  proof (induction rule: rtrancl_induct)
    case (step y z)
    then have "y \<noteq> b" using assms by auto
    then show ?case using step by (auto intro: rtrancl_into_rtrancl)
  qed simp
next
  have mono: "E\<^sup>* \<subseteq> (E \<union> P \<times> {b})\<^sup>*" by (rule rtrancl_mono) blast
  assume "(x, y) \<in> E\<^sup>* \<or> (y = b \<and> (\<exists>q\<in>P. (x, q) \<in> E\<^sup>*))"
  then show "(x, y) \<in> (E \<union> P \<times> {b})\<^sup>*"
    using mono by (auto intro: rtrancl_into_rtrancl)
qed

lemma rtrancl_outside: "E \<subseteq> B \<times> B \<Longrightarrow> (x, y) \<in> E\<^sup>* \<Longrightarrow> x \<notin> B \<or> y \<notin> B \<Longrightarrow> x = y"
  by (metis (no_types, lifting) SigmaD1 SigmaD2 converse_rtranclE rtranclE subsetD)

section \<open>Inserting the new block into the covering sets\<close>

definition sameTree :: "reachStore \<Rightarrow> reachStore \<Rightarrow> bool" where
  "sameTree s s' \<longleftrightarrow> reachabilityReindexRoot s' = reachabilityReindexRoot s \<and> ivl s' = ivl s
     \<and> (\<forall>x. present s' x = present s x \<and> children s' x = children s x \<and> parent s' x = parent s x)"

lemma rep_sameTree: "sameTree s s' \<Longrightarrow> rep s' t = rep s t"
  by (induction s t rule: rep.induct) (simp add: sameTree_def)

lemma insertAll_correct:
  assumes "rep s T" and "good (ivl s) T" and b: "b \<in> set (nodes T)" and leaf: "\<And>y. anc T b y \<Longrightarrow> y = b"
    and "\<forall>h\<in>set (nodes T). futureCoveringSet s h = Inr (fcsOf s h) \<and> covering T (fcsOf s h)"
    and "set hs \<subseteq> set (nodes T)"
  shows "\<exists>s'. insertAll b hs s = Inr s' \<and> sameTree s s'
    \<and> (\<forall>h\<in>set (nodes T). futureCoveringSet s' h = Inr (fcsOf s' h) \<and> covering T (fcsOf s' h)
         \<and> (\<forall>x. covered T (fcsOf s' h) x \<longleftrightarrow> covered T (fcsOf s h) x \<or> (h \<in> set hs \<and> x = b)))"
  using assms(1,2,5,6)
proof (induction hs arbitrary: s)
  case Nil
  then show ?case by (auto simp: sameTree_def)
next
  case (Cons h hs)
  have h: "h \<in> set (nodes T)" using Cons.prems(4) by simp
  obtain s1 fcs1 where s1: "insertToFutureCoveringSet s h b = Inr s1" "onlyCovers h s s1" "futureCoveringSet s1 h = Inr fcs1"
      "covering T fcs1" "\<forall>x. covered T fcs1 x \<longleftrightarrow> covered T (fcsOf s h) x \<or> x = b"
    using insertToFutureCoveringSet_correct [OF Cons.prems(1,2) _ _ h b leaf] Cons.prems(3) h by metis
  have fcs1: "fcsOf s1 x = (if x = h then fcs1 else fcsOf s x)" for x
    using s1(2,3) by (simp add: fcsOf_def onlyCovers_def)
  have "\<forall>x\<in>set (nodes T). futureCoveringSet s1 x = Inr (fcsOf s1 x) \<and> covering T (fcsOf s1 x)"
    using Cons.prems(3) s1(2,3,4) fcs1 by (auto simp: onlyCovers_def)
  moreover have "rep s1 T" "good (ivl s1) T" using s1(2) Cons.prems(1,2) rep_onlyCovers [OF s1(2)] by (auto simp: onlyCovers_def)
  ultimately obtain s' where s': "insertAll b hs s1 = Inr s'" "sameTree s1 s'"
      "\<forall>x\<in>set (nodes T). futureCoveringSet s' x = Inr (fcsOf s' x) \<and> covering T (fcsOf s' x)
        \<and> (\<forall>y. covered T (fcsOf s' x) y \<longleftrightarrow> covered T (fcsOf s1 x) y \<or> (x \<in> set hs \<and> y = b))"
    using Cons.IH [of s1] Cons.prems(4) by auto
  have "insertAll b (h # hs) s = Inr s'" using s1(1) s'(1) by simp
  moreover have "sameTree s s'" using s1(2) s'(2) by (simp add: sameTree_def onlyCovers_def)
  moreover have "futureCoveringSet s' x = Inr (fcsOf s' x) \<and> covering T (fcsOf s' x)
      \<and> (\<forall>y. covered T (fcsOf s' x) y \<longleftrightarrow> covered T (fcsOf s x) y \<or> (x \<in> set (h # hs) \<and> y = b))"
    if "x \<in> set (nodes T)" for x
    using s'(3) that s1(5) fcs1 [of x] by auto
  ultimately show ?case by blast
qed

section \<open>Adding a block\<close>

lemma rep_cong: "(\<And>x. x \<in> set (nodes t) \<Longrightarrow> reachabilityData s' x = reachabilityData s x) \<Longrightarrow> rep s' t = rep s t"
proof (induction t rule: nodes.induct)
  case (1 h ts)
  have h: "reachabilityData s' h = reachabilityData s h" by (rule 1(2)) simp
  have "reachabilityData s' x = reachabilityData s x" if "t \<in> set ts" "x \<in> set (nodes t)" for t x
    using that by (intro 1(2)) auto
  then have "reachabilityData s' (rootOf t) = reachabilityData s (rootOf t)" "rep s' t = rep s t" if "t \<in> set ts" for t
    using that 1(1) rootOf_in_nodes by blast+
  then show ?case using h by (simp add: present_def children_def parent_def fetchData_def)
qed

lemma covered_graft:
  assumes "b \<notin> set (nodes T)" and "set fcs \<subseteq> set (nodes T)" and "x \<in> set (nodes T)"
  shows "covered (graft p b T) fcs x \<longleftrightarrow> covered T fcs x"
  unfolding covered_def using assms anc_graft_old [OF assms(1) _ assms(3)] by blast

lemma covered_graft_new:
  assumes "b \<notin> set (nodes T)" and "set fcs \<subseteq> set (nodes T)"
  shows "covered (graft p b T) fcs b \<longleftrightarrow> covered T fcs p"
  unfolding covered_def using assms anc_graft_new [OF assms(1)] by blast

lemma covering_graft: "covering T fcs \<Longrightarrow> covering (graft p b T) fcs"
  unfolding covering_def nodes_graft
  using sorted_wrt_mono_rel [of fcs "leftOf T" "leftOf (graft p b T)"] leftOf_graft by blast

text \<open>What the graph must satisfy for a block to be added to a store.\<close>

definition mergeSetOf :: "BlockGHOSTDAGData \<Rightarrow> DomainHash list" where
  "mergeSetOf d = mergeSetBlues d @ mergeSetReds d"

definition admissible ::
    "reachabilityManager \<Rightarrow> reachStore \<Rightarrow> DomainHash set \<Rightarrow> (DomainHash \<times> DomainHash) set \<Rightarrow> DomainHash \<Rightarrow> DomainHash set \<Rightarrow> bool" where
  "admissible rt s B E b P \<longleftrightarrow> b \<notin> B \<and> P \<subseteq> B
     \<and> (\<exists>d p r. ghostdagGet rt b = Inr d \<and> selectedParent d = Some p \<and> p \<in> P
          \<and> set (mergeSetOf d) \<subseteq> {x. \<exists>q\<in>P. (x, q) \<in> E\<^sup>*}
          \<and> {x. \<exists>q\<in>P. (x, q) \<in> E\<^sup>*} - {x. (x, p) \<in> E\<^sup>*} \<subseteq> set (mergeSetOf d)
          \<and> reachabilityReindexRoot s = Some r \<and> (unat (reindexSlack rt) + 2) * (card B + 1) \<le> ilen (ivl s r))"

lemma addChild_fresh:
  assumes D: "dagStore s T E" and b: "b \<notin> set (nodes T)" and pB: "p \<in> set (nodes T)" and rB: "r \<in> set (nodes T)"
    and cap: "(unat (reindexSlack rt) + 2) * (card (set (nodes T)) + 1) \<le> ilen (ivl s r)"
  shows "\<exists>s1. addChild rt p b r (stageData s b newReachabilityTreeData) = Some (Inr s1) \<and> treeStore s1 (graft p b T)
    \<and> good (ivl s1) (graft p b T) \<and> reachabilityReindexRoot s1 = reachabilityReindexRoot s
    \<and> (\<forall>h\<in>insert b (set (nodes T)). futureCoveringSet s1 h = Inr (fcsOf s1 h) \<and> fcsOf s1 h = (if h = b then [] else fcsOf s h))"
proof -
  let ?B = "set (nodes T)"
  note D' = dagStoreD [OF D]
  define s0 where "s0 = stageData s b newReachabilityTreeData"
  have data: "reachabilityData s0 x = reachabilityData s x" if "x \<in> ?B" for x using that b by (auto simp: s0_def stageData_def)
  have old: "ivl s0 x = ivl s x" "futureCoveringSet s0 x = futureCoveringSet s x" if "x \<in> ?B" for x
    using data [OF that] by (simp_all add: ivl_def futureCoveringSet_def fetchData_def)
  have T0: "treeStore s0 T" using D'(1) rep_cong [of T s0 s] data by (simp add: treeStore_def)
  have g0: "good (ivl s0) T" using D'(2) good_cong [of T "ivl s0" "ivl s"] old(1) by blast
  have new: "reachabilityData s0 b = Some newReachabilityTreeData" "Interval newReachabilityTreeData \<noteq> None"
    "Children newReachabilityTreeData = []" "FutureCoveringSet newReachabilityTreeData = []"
    by (simp_all add: s0_def stageData_def newReachabilityTreeData_def SetInterval_def EmptyReachabilityData_def)
  have "card ?B = tsize T" using D'(5) by (simp add: distinct_card)
  then have cap0: "(unat (reindexSlack rt) + 2) * (tsize T + 1) \<le> ilen (ivl s0 r)" using cap old(1) [OF rB] by simp
  obtain s1 where s1: "addChild rt p b r s0 = Some (Inr s1)" "grafted p b s0 s1" "good (ivl s1) (graft p b T)"
    using addChild_correct [OF T0 g0 pB rB b new cap0] by blast
  have "2 * (tsize T + 1) \<le> ilen (ivl s0 r)" using cap0 by simp
  then have "tsize T + 1 < 2 ^ 64" using ilen_less [of "ivl s0 r"] by simp
  note T1 = treeStore_graft [OF s1(2) T0 b this]
  have "futureCoveringSet s1 h = Inr (fcsOf s1 h) \<and> fcsOf s1 h = (if h = b then [] else fcsOf s h)" if "h \<in> insert b ?B" for h
  proof -
    have "futureCoveringSet s1 h = Inr (if h = b then [] else fcsOf s h)"
      using that s1(2) old(2) [of h] D'(6) [of h] by (auto simp: grafted_def)
    then show ?thesis using fcsOf_eq by metis
  qed
  moreover have "reachabilityReindexRoot s1 = reachabilityReindexRoot s" using s1(2) by (simp add: grafted_def s0_def stageData_def)
  ultimately show ?thesis using s1(1,3) T1 unfolding s0_def by blast
qed

text \<open>
  Reachability in the grown graph: the new block is in the future of a block exactly when it is
  below it in the tree, is covered through the selected parent, or was inserted.
\<close>

lemma reach_grafted:
  assumes D: "dagStore s T E" and b: "b \<notin> set (nodes T)" and P: "P \<subseteq> set (nodes T)" "p \<in> P"
    and M1: "M \<subseteq> {x. \<exists>q\<in>P. (x, q) \<in> E\<^sup>*}" and M2: "{x. \<exists>q\<in>P. (x, q) \<in> E\<^sup>*} - {x. (x, p) \<in> E\<^sup>*} \<subseteq> M"
    and cov: "\<And>x. covered (graft p b T) fcs' x \<longleftrightarrow> covered (graft p b T) (if h = b then [] else fcsOf s h) x \<or> (h \<in> M \<and> x = b)"
    and hx: "h \<in> insert b (set (nodes T))" "x \<in> insert b (set (nodes T))"
  shows "(h, x) \<in> (E \<union> P \<times> {b})\<^sup>* \<longleftrightarrow> anc (graft p b T) h x \<or> covered (graft p b T) fcs' x"
proof -
  let ?B = "set (nodes T)" and ?T = "graft p b T"
  note D' = dagStoreD [OF D]
  have pB: "p \<in> ?B" using P by blast
  note sink = rtrancl_sink [OF D'(3) b P(1), of h x]
  have fB: "set (fcsOf s h) \<subseteq> ?B" if "h \<in> ?B" using D'(7) [OF that] by (simp add: covering_def)
  consider "h \<in> ?B" "x \<in> ?B" | "h \<in> ?B" "x = b" | "h = b" using hx by blast
  then show ?thesis
  proof cases
    case 1
    then have "h \<noteq> b" "x \<noteq> b" using b by auto
    then show ?thesis
      using sink cov anc_graft_old [OF b 1] covered_graft [OF b fB [OF 1(1)] 1(2)] D'(8) [OF 1] by simp
  next
    case 2
    then have "h \<noteq> b" using b by blast
    then have "(h, b) \<notin> E\<^sup>*" using rtrancl_outside [OF D'(3)] b by blast
    moreover have "(h, p) \<in> E\<^sup>* \<or> h \<in> M \<longleftrightarrow> (\<exists>q\<in>P. (h, q) \<in> E\<^sup>*)" using M1 M2 P(2) by blast
    ultimately show ?thesis
      using sink cov anc_graft_new [OF b 2(1)] covered_graft_new [OF b fB [OF 2(1)]] D'(8) [OF 2(1) pB] 2 \<open>h \<noteq> b\<close> by auto
  next
    case 3
    have "(b, z) \<in> E\<^sup>* \<longleftrightarrow> z = b" for z using rtrancl_outside [OF D'(3)] b by blast
    moreover have "\<not> covered ?T [] x" by (simp add: covered_def)
    ultimately show ?thesis using sink cov anc_graft_leaf [OF b pB, of x] 3 by auto
  qed
qed

lemma AddBlock_dagStore:
  assumes D: "dagStore s T E" and A: "admissible rt s (set (nodes T)) E b P"
  shows "\<exists>s' T'. AddBlock rt b s = Some (Inr s') \<and> dagStore s' T' (E \<union> P \<times> {b}) \<and> set (nodes T') = insert b (set (nodes T))
    \<and> rootOf T' = rootOf T \<and> reachabilityReindexRoot s' = reachabilityReindexRoot s"
proof -
  let ?B = "set (nodes T)"
  note D' = dagStoreD [OF D]
  have b: "b \<notin> ?B" and P: "P \<subseteq> ?B" using A by (auto simp: admissible_def)
  obtain d p r where gd: "ghostdagGet rt b = Inr d" "selectedParent d = Some p" and p: "p \<in> P"
    and M1: "set (mergeSetOf d) \<subseteq> {x. \<exists>q\<in>P. (x, q) \<in> E\<^sup>*}"
    and M2: "{x. \<exists>q\<in>P. (x, q) \<in> E\<^sup>*} - {x. (x, p) \<in> E\<^sup>*} \<subseteq> set (mergeSetOf d)"
    and r: "reachabilityReindexRoot s = Some r" "(unat (reindexSlack rt) + 2) * (card ?B + 1) \<le> ilen (ivl s r)"
    using A unfolding admissible_def by blast
  have pB: "p \<in> ?B" and rB: "r \<in> ?B" using p P D r(1) by (auto simp: dagStore_def)
  let ?T = "graft p b T"
  have nodes: "set (nodes ?T) = insert b ?B" using pB by (simp add: nodes_graft)
  obtain s1 where s1: "addChild rt p b r (stageData s b newReachabilityTreeData) = Some (Inr s1)" "treeStore s1 ?T" "good (ivl s1) ?T"
      "reachabilityReindexRoot s1 = reachabilityReindexRoot s"
      "\<forall>h\<in>insert b ?B. futureCoveringSet s1 h = Inr (fcsOf s1 h) \<and> fcsOf s1 h = (if h = b then [] else fcsOf s h)"
    using addChild_fresh [OF D b pB rB r(2)] by blast
  have rep1: "rep s1 ?T" using s1(2) by (simp add: treeStore_def)
  have "covering ?T []" by (simp add: covering_def)
  then have cov1: "covering ?T (fcsOf s1 h)" if "h \<in> insert b ?B" for h
    using s1(5) that D'(7) covering_graft by auto
  have leaf: "anc ?T b y \<Longrightarrow> y = b" for y using anc_graft_leaf [OF b pB] by blast
  have "x \<in> ?B" if "q \<in> P" "(x, q) \<in> E\<^sup>*" for x q using rtrancl_outside [OF D'(3)] P that by blast
  then have "set (mergeSetOf d) \<subseteq> ?B" using M1 by blast
  then obtain s' where s': "insertAll b (mergeSetOf d) s1 = Inr s'" "sameTree s1 s'"
      "\<forall>h\<in>insert b ?B. futureCoveringSet s' h = Inr (fcsOf s' h) \<and> covering ?T (fcsOf s' h)
        \<and> (\<forall>x. covered ?T (fcsOf s' h) x \<longleftrightarrow> covered ?T (fcsOf s1 h) x \<or> (h \<in> set (mergeSetOf d) \<and> x = b))"
    using insertAll_correct [OF rep1 s1(3) _ leaf, of "mergeSetOf d"] s1(5) cov1 unfolding nodes by blast
  have reach: "(h, x) \<in> (E \<union> P \<times> {b})\<^sup>* \<longleftrightarrow> anc ?T h x \<or> covered ?T (fcsOf s' h) x"
    if "h \<in> insert b ?B" "x \<in> insert b ?B" for h x
    using reach_grafted [OF D b P p M1 M2 _ that, of "fcsOf s' h"] s'(3) s1(5) that(1) by auto
  have "AddBlock rt b s = Some (Inr s')"
    using gd s1(1) s'(1) r(1) by (simp add: AddBlock_def reindexRoot_def stageData_def nonNil_def ret_def mergeSetOf_def)
  moreover have root: "reachabilityReindexRoot s' = Some r" using s'(2) s1(4) r(1) by (simp add: sameTree_def)
  moreover have "dagStore s' ?T (E \<union> P \<times> {b})"
  proof -
    have "rep s' ?T" using rep_sameTree [OF s'(2)] rep1 by simp
    moreover have "good (ivl s') ?T" using s'(2) s1(3) by (simp add: sameTree_def)
    moreover have "E \<union> P \<times> {b} \<subseteq> insert b ?B \<times> insert b ?B" using D'(3) P by blast
    ultimately show ?thesis unfolding dagStore_def nodes using s1(2) root rB s'(3) reach by (simp add: treeStore_def)
  qed
  ultimately show ?thesis using nodes rootOf_graft r(1) by metis
qed

end
