(* ===== verification/Reach_Concentrate.thy ===== *)
theory Reach_Concentrate
  imports Reach_Dag
begin

text \<open>
  Moving the reindex root. \<open>concentrateInterval\<close> packs the siblings of the chosen child at the
  two ends of the interval of their parent and gives the rest to the chosen child; the loop
  of \<open>UpdateReindexRoot\<close> repeats this down to the new root. Between two steps the children of
  the node may lie outside its interval, which is what \<open>fits\<close> allows at one node. The result is
  a store of the same graph.
\<close>

section \<open>Packing siblings\<close>

lemma countChildren_correct:
  assumes "treeStore s T" and "set us \<subseteq> set (subs T)" and "sizesOk T cache"
  shows "\<exists>ws cache'. countChildren s (List.map rootOf us) cache = Some (Inr (ws, cache')) \<and> sizesOk T cache'
    \<and> List.map unat ws = List.map tsize us"
  using assms(2,3)
proof (induction us arbitrary: cache)
  case (Cons u us)
  then have u: "u \<in> set (subs T)" by simp
  obtain cache1 where c1: "countSubtrees s (rootOf u) cache = Some (Inr cache1)" "sizesOk T cache1" "cache1 (rootOf u) \<noteq> None"
    using countSubtrees_correct [OF assms(1) u Cons.prems(2)] rootOf_in_nodes by blast
  obtain ws cache2 where c2: "countChildren s (List.map rootOf us) cache1 = Some (Inr (ws, cache2))" "sizesOk T cache2"
    "List.map unat ws = List.map tsize us" using Cons.IH [OF _ c1(2)] Cons.prems(1) by auto
  then show ?case using c1(1) cachedSize_known [OF c1(2) u c1(3)] by (simp add: ret_def)
qed (simp add: ret_def)

lemma countChildrenSubtrees_correct:
  assumes T: "treeStore s T" "set us \<subseteq> set (subs T)" "sizesOk T cache" and lt: "(\<Sum>u\<leftarrow>us. tsize u) < 2 ^ 64"
  shows "\<exists>ws w cache'. countChildrenSubtrees s (List.map rootOf us) cache = Some (Inr ((ws, w), cache')) \<and> sizesOk T cache'
    \<and> List.map unat ws = List.map tsize us \<and> unat w = (\<Sum>u\<leftarrow>us. tsize u)"
proof -
  obtain ws cache' where c: "countChildren s (List.map rootOf us) cache = Some (Inr (ws, cache'))" "sizesOk T cache'"
    "List.map unat ws = List.map tsize us" using countChildren_correct [OF T] by blast
  then have "unat (foldl (+) 0 ws) = (\<Sum>u\<leftarrow>us. tsize u)" using unat_foldl_plus [of 0 ws] lt by simp
  then show ?thesis using c by (simp add: countChildrenSubtrees_def)
qed

lemma propagateChildren_correct:
  assumes "treeStore s T" and "set us \<subseteq> set (subs T)" and "distinct (concat (List.map nodes us))" and "sizesOk T cache"
    and "list_all2 (\<lambda>u q. regular q \<and> tsize u \<le> ilen q) us rs"
  shows "\<exists>cache' s'. propagateChildren rt (List.map rootOf us) rs cache s = Some (Inr (cache', s')) \<and> sizesOk T cache'
    \<and> sameShape s s' \<and> (\<forall>u\<in>set us. good (ivl s') u) \<and> roots (ivl s') us = rs \<and> (\<forall>x. x \<notin> waiting us \<longrightarrow> ivl s' x = ivl s x)"
  using assms
proof (induction us arbitrary: rs s cache)
  case Nil
  then show ?case by (simp add: ret_def)
next
  case (Cons u us)
  obtain q qs where rs: "rs = q # qs" and q: "regular q" "tsize u \<le> ilen q" "list_all2 (\<lambda>u q. regular q \<and> tsize u \<le> ilen q) us qs"
    using Cons.prems(5) by (auto simp: list_all2_Cons1)
  have u: "u \<in> set (subs T)" using Cons.prems(2) by simp
  obtain s1 where s1: "stageInterval s (rootOf u) q = Inr s1" "sameShape s s1" "ivl s1 = (ivl s)(rootOf u := q)"
    using stageInterval_present rep_root [OF treeStoreD(1) [OF Cons.prems(1) u]] by blast
  note T1 = treeStore_sameShape [OF s1(2) Cons.prems(1)]
  have "roomy (ivl s1) u" using q s1(3) by (simp add: roomy_def)
  then obtain cache2 s2 where s2: "propagateInterval rt (rootOf u) cache s1 = Some (Inr (cache2, s2))" "sizesOk T cache2"
    "sameShape s1 s2" "good (ivl s2) u" "\<forall>x. x \<notin> set (concat (List.map nodes (subtrees u))) \<longrightarrow> ivl s2 x = ivl s1 x"
    using propagateInterval_correct [OF T1 u Cons.prems(4), of rt] by blast
  obtain cache3 s3 where s3: "propagateChildren rt (List.map rootOf us) qs cache2 s2 = Some (Inr (cache3, s3))" "sizesOk T cache3"
    "sameShape s2 s3" "\<forall>v\<in>set us. good (ivl s3) v" "roots (ivl s3) us = qs" "\<forall>x. x \<notin> waiting us \<longrightarrow> ivl s3 x = ivl s2 x"
    using Cons.IH [OF treeStore_sameShape [OF s2(3) T1] _ _ s2(2) q(3)] Cons.prems(2,3) by auto
  have apart: "set (nodes u) \<inter> waiting us = {}" using Cons.prems(3) by (auto simp: waiting_def)
  then have "\<forall>x\<in>set (nodes u). ivl s3 x = ivl s2 x" using s3(6) by blast
  then have "good (ivl s3) u" using s2(4) good_cong by blast
  have "rootOf u \<notin> set (concat (List.map nodes (subtrees u)))" using Cons.prems(3) by (cases u) auto
  then have root: "ivl s3 (rootOf u) = q" using s2(5) s1(3) \<open>\<forall>x\<in>set (nodes u). _\<close> rootOf_in_nodes by (metis fun_upd_same)
  have inside: "set (concat (List.map nodes (subtrees u))) \<subseteq> set (nodes u)" by (cases u) auto
  have "ivl s3 x = ivl s x" if "x \<notin> waiting (u # us)" for x
  proof -
    have x: "x \<notin> set (nodes u)" "x \<notin> waiting us" using that by (auto simp: waiting_def)
    then have "x \<notin> set (concat (List.map nodes (subtrees u)))" "x \<noteq> rootOf u" using subsetD [OF inside] by auto
    then show ?thesis using s3(6) s2(5) s1(3) x(2) by simp
  qed
  moreover have "sameShape s s3" using s1(2) s2(3) s3(3) sameShape_trans by blast
  ultimately show ?case using s1(1) s2(1) s3(1,2,4,5) \<open>good (ivl s3) u\<close> root rs by simp
qed

text \<open>The interval a tightening step divides, and what it does to the siblings.\<close>

definition packed :: "rtree \<Rightarrow> rtree list \<Rightarrow> nat \<Rightarrow> subTreeSizes \<Rightarrow> reachStore \<Rightarrow> reachStore \<Rightarrow> bool" where
  "packed T us lo cache s s' \<longleftrightarrow> sizesOk T cache \<and> sameShape s s' \<and> (\<forall>u\<in>set us. good (ivl s') u)
     \<and> spaced lo (roots (ivl s') us) (lo + (\<Sum>u\<leftarrow>us. tsize u)) \<and> (\<forall>x. x \<notin> waiting us \<longrightarrow> ivl s' x = ivl s x)"

lemma propagateChildrenIntervals_correct:
  assumes T: "treeStore s T" "set us \<subseteq> set (subs T)" "distinct (concat (List.map nodes us))" "sizesOk T cache"
    and ri: "regular ri" "ilen ri = (\<Sum>u\<leftarrow>us. tsize u)" and ws: "List.map unat ws = List.map tsize us"
  shows "\<exists>cache' s'. propagateChildrenIntervals rt ri (List.map rootOf us) ws cache s = Some (Inr (cache', s'))
    \<and> packed T us (ilo ri) cache' s s'"
proof -
  have "(\<Sum>w\<leftarrow>ws. unat w) = ilen ri" using ri(2) ws by simp
  then obtain rs where rs: "intervalSplitExact ri ws = Inr rs" "tiles (ilo ri) rs (ihi ri)" "list_all2 (\<lambda>w q. ilen q = unat w) ws rs"
    using intervalSplitExact_tiles [OF ri(1)] by blast
  have "list_all2 (\<lambda>u q. regular q \<and> tsize u \<le> ilen q) us rs"
  proof (rule list_all2_all_nthI)
    show len: "length us = length rs" using rs(3) ws by (metis length_map list_all2_lengthD)
    show "regular (rs ! n) \<and> tsize (us ! n) \<le> ilen (rs ! n)" if "n < length us" for n
    proof -
      have "unat (ws ! n) = tsize (us ! n)" using ws that by (metis length_map nth_map)
      moreover have "ilen (rs ! n) = unat (ws ! n)" using rs(3) that len by (simp add: list_all2_conv_all_nth)
      moreover have "regular (rs ! n)" using tiles_regular [OF rs(2)] ri(1) that len by (simp add: regular_def)
      ultimately show ?thesis by simp
    qed
  qed
  then obtain cache' s' where p: "propagateChildren rt (List.map rootOf us) rs cache s = Some (Inr (cache', s'))" "sizesOk T cache'"
    "sameShape s s'" "\<forall>u\<in>set us. good (ivl s') u" "roots (ivl s') us = rs" "\<forall>x. x \<notin> waiting us \<longrightarrow> ivl s' x = ivl s x"
    using propagateChildren_correct [OF T] by blast
  have "ihi ri = ilo ri + (\<Sum>u\<leftarrow>us. tsize u)" using ri by (auto simp: regular_def ilen_def)
  then have "packed T us (ilo ri) cache' s s'" using p tiles_spaced [OF rs(2)] by (simp add: packed_def)
  then show ?thesis using p(1) rs(1) by (simp add: propagateChildrenIntervals_def)
qed

lemma tightenIntervalsBefore_correct:
  assumes T: "treeStore s T" "set us \<subseteq> set (subs T)" "distinct (concat (List.map nodes us))" "sizesOk T cache"
    and a: "a \<in> set (subs T)" "regular (ivl s (rootOf a))"
    and cap: "unat (reindexSlack rt) + (\<Sum>u\<leftarrow>us. tsize u) \<le> ilen (ivl s (rootOf a))"
  shows "\<exists>w cache' s'. tightenIntervalsBefore rt (rootOf a) (List.map rootOf us) cache s = Some (Inr (w, cache', s'))
    \<and> unat w = (\<Sum>u\<leftarrow>us. tsize u) \<and> packed T us (ilo (ivl s (rootOf a)) + unat (reindexSlack rt)) cache' s s'"
proof -
  let ?r = "ivl s (rootOf a)" and ?sum = "\<Sum>u\<leftarrow>us. tsize u"
  have lt: "ilo ?r + unat (reindexSlack rt) + ?sum < 2 ^ 64" and pos: "0 < ilo ?r" using a(2) cap by (auto simp: regular_def ilen_def)
  then obtain ws w cache1 where c: "countChildrenSubtrees s (List.map rootOf us) cache = Some (Inr ((ws, w), cache1))"
    "sizesOk T cache1" "List.map unat ws = List.map tsize us" "unat w = ?sum"
    using countChildrenSubtrees_correct [OF T(1,2,4)] by auto
  have st: "unat (Start ?r + reindexSlack rt) = ilo ?r + unat (reindexSlack rt)" using lt by (simp add: unat_u64_add ilo_def)
  let ?ri = "newReachabilityInterval (Start ?r + reindexSlack rt) (Start ?r + reindexSlack rt + w - 1)"
  have ri: "ilo ?ri = ilo ?r + unat (reindexSlack rt)" "ihi ?ri = ilo ?r + unat (reindexSlack rt) + ?sum"
    using sizedInterval [of "Start ?r + reindexSlack rt" w] st lt pos c(4) by auto
  then have "regular ?ri" "ilen ?ri = ?sum" using lt pos by (auto simp: regular_def ilen_def)
  then obtain cache' s' where "propagateChildrenIntervals rt ?ri (List.map rootOf us) ws cache1 s = Some (Inr (cache', s'))"
    "packed T us (ilo ?ri) cache' s s'"
    using propagateChildrenIntervals_correct [OF T(1-3) c(2) _ _ c(3)] by blast
  moreover have "fetchInterval s (rootOf a) = Inr ?r"
    using rep_root [OF treeStoreD(1) [OF T(1) a(1)]] by (simp add: fetchInterval_present)
  ultimately show ?thesis using c(1,4) ri(1) by (simp add: tightenIntervalsBefore_def ret_def)
qed

lemma tightenIntervalsAfter_correct:
  assumes T: "treeStore s T" "set us \<subseteq> set (subs T)" "distinct (concat (List.map nodes us))" "sizesOk T cache"
    and a: "a \<in> set (subs T)" "regular (ivl s (rootOf a))"
    and cap: "unat (reindexSlack rt) + (\<Sum>u\<leftarrow>us. tsize u) + 1 \<le> ilen (ivl s (rootOf a))"
  shows "\<exists>w cache' s'. tightenIntervalsAfter rt (rootOf a) (List.map rootOf us) cache s = Some (Inr (w, cache', s'))
    \<and> unat w = (\<Sum>u\<leftarrow>us. tsize u)
    \<and> packed T us (ihi (ivl s (rootOf a)) - 1 - unat (reindexSlack rt) - (\<Sum>u\<leftarrow>us. tsize u)) cache' s s'"
proof -
  let ?r = "ivl s (rootOf a)" and ?sum = "\<Sum>u\<leftarrow>us. tsize u" and ?k = "unat (reindexSlack rt)"
  have lt: "ilo ?r + ?k + ?sum + 1 \<le> ihi ?r" "ihi ?r < 2 ^ 64" and pos: "0 < ilo ?r"
    using a(2) cap by (auto simp: regular_def ilen_def)
  then obtain ws w cache1 where c: "countChildrenSubtrees s (List.map rootOf us) cache = Some (Inr ((ws, w), cache1))"
    "sizesOk T cache1" "List.map unat ws = List.map tsize us" "unat w = ?sum"
    using countChildrenSubtrees_correct [OF T(1,2,4)] by auto
  have e: "unat (End ?r - reindexSlack rt) = ihi ?r - 1 - ?k" using lt by (simp add: unat_u64_diff ihi_def)
  then have e2: "unat (End ?r - reindexSlack rt - w) = ihi ?r - 1 - ?k - ?sum" "unat (End ?r - reindexSlack rt - 1) = ihi ?r - 1 - ?k - 1"
    using lt pos c(4) by (simp_all add: unat_u64_diff)
  let ?ri = "newReachabilityInterval (End ?r - reindexSlack rt - w) (End ?r - reindexSlack rt - 1)"
  have ri: "ilo ?ri = ihi ?r - 1 - ?k - ?sum" "ihi ?ri = ihi ?r - 1 - ?k"
    using e2 lt pos by (simp_all add: ilo_def ihi_def)
  then have "regular ?ri" "ilen ?ri = ?sum" using lt pos unfolding regular_def ilen_def ri by linarith+
  then obtain cache' s' where "propagateChildrenIntervals rt ?ri (List.map rootOf us) ws cache1 s = Some (Inr (cache', s'))"
    "packed T us (ilo ?ri) cache' s s'"
    using propagateChildrenIntervals_correct [OF T(1-3) c(2) _ _ c(3)] by blast
  moreover have "fetchInterval s (rootOf a) = Inr ?r"
    using rep_root [OF treeStoreD(1) [OF T(1) a(1)]] by (simp add: fetchInterval_present)
  ultimately show ?thesis using c(1,4) ri(1) by (simp add: tightenIntervalsAfter_def ret_def)
qed

section \<open>Giving the rest to the chosen child\<close>

text \<open>The children of a node follow each other and have fitting subtrees, wherever the node itself lies.\<close>

definition ordered :: "(DomainHash \<Rightarrow> ReachabilityInterval) \<Rightarrow> rtree \<Rightarrow> bool" where
  "ordered f t \<longleftrightarrow> (\<exists>lo hi. spaced lo (roots f (subtrees t)) hi) \<and> (\<forall>d\<in>set (subtrees t). good f d)"

lemma good_ordered: "good f t \<Longrightarrow> ordered f t"
  unfolding ordered_def using good_spaced good_subs subs_child by blast

lemma ordered_cong:
  assumes "\<And>x. x \<in> set (nodes t) \<Longrightarrow> x \<noteq> rootOf t \<Longrightarrow> f x = g x" and "distinct (nodes t)" and "ordered f t"
  shows "ordered g t"
proof -
  have in_t: "x \<in> set (nodes t) \<and> x \<noteq> rootOf t" if "d \<in> set (subtrees t)" "x \<in> set (nodes d)" for d x
    using that assms(2) by (cases t) auto
  have "roots f (subtrees t) = roots g (subtrees t)" using assms(1) in_t by (intro map_cong) auto
  moreover have "good g d" if "d \<in> set (subtrees t)" "good f d" for d
    using good_cong [of d f g] assms(1) in_t that by blast
  ultimately show ?thesis using assms(3) unfolding ordered_def by metis
qed

lemma good_enlarge:
  assumes "good f t" and "distinct (nodes t)" and "regular q" and "intervalContains q (f (rootOf t))"
  shows "good (f(rootOf t := q)) t"
proof -
  obtain h ts where t: "t = RNode h ts" by (cases t)
  have out: "h \<notin> set (nodes d)" if "d \<in> set ts" for d using assms(2) that by (auto simp: t)
  have g: "good (f(h := q)) d" if "d \<in> set ts" for d
  proof -
    have "good (f(h := q)) d = good f d" by (rule good_cong) (use out [OF that] in auto)
    then show ?thesis using assms(1) that by (simp add: t)
  qed
  have ends: "ilo q \<le> ilo (f h)" "ihi (f h) \<le> ihi q" using assms(4) by (simp_all add: t intervalContains_iff)
  have "roots (f(h := q)) ts = roots f ts" using out rootOf_in_nodes by (intro map_cong) auto
  moreover have "spaced (ilo q) (roots f ts) (ihi q - 1)"
    using assms(1) spaced_mono [of "ilo (f h)" "roots f ts" "ihi (f h) - 1"] ends by (simp add: t)
  ultimately have sp: "spaced (ilo q) (roots (f(h := q)) ts) (ihi q - 1)" by (simp only:)
  have "ilo q < ihi q" using assms(1) ends by (simp add: t)
  then show ?thesis unfolding t rtree.sel good.simps fun_upd_same using sp assms(3) g by blast
qed

lemma chosen_ends:
  assumes "regular r" and "ilo r + unat wB + n + 4 * unat k + unat wA + 1 \<le> ihi r"
  defines "q \<equiv> newReachabilityInterval (Start r + wB + k) (End r - wA - k - 1)"
  shows "ilo q = ilo r + unat wB + unat k" and "ihi q = ihi r - 1 - unat wA - unat k" and "regular q"
    and "ilo q + n + 2 * unat k \<le> ihi q"
proof -
  have b: "0 < ilo r" "ihi r < 2 ^ 64" using assms(1) by (auto simp: regular_def)
  have "unat (Start r + wB) = ilo r + unat wB" using assms(2) b by (simp add: unat_u64_add ilo_def)
  then show lo: "ilo q = ilo r + unat wB + unat k" using assms(2) b by (simp add: q_def unat_u64_add ilo_def)
  have "unat (End r - wA) = ihi r - 1 - unat wA" using assms(2) by (simp add: unat_u64_diff ihi_def)
  then have "unat (End r - wA - k) = ihi r - 1 - unat wA - unat k" using assms(2) by (simp add: unat_u64_diff)
  then show hi: "ihi q = ihi r - 1 - unat wA - unat k" using assms(2) b by (simp add: q_def unat_u64_diff ihi_def)
  show "regular q" "ilo q + n + 2 * unat k \<le> ihi q" using assms(2) b unfolding regular_def lo hi by linarith+
qed

lemma expandIntervalToChosen_correct:
  assumes T: "treeStore s T" "sizesOk T cache" "a \<in> set (subs T)" "c \<in> set (subs T)" "regular (ivl s (rootOf a))" and g: "good (ivl s) c"
    and room: "ilo (ivl s (rootOf a)) + unat wB + tsize c + 4 * unat (reindexSlack rt) + unat wA + 1 \<le> ihi (ivl s (rootOf a))"
  shows "\<exists>cache' s'. expandIntervalToChosen rt (rootOf a) (rootOf c) wB wA final cache s = Some (Inr (cache', s'))
    \<and> sizesOk T cache' \<and> sameShape s s' \<and> regular (ivl s' (rootOf c))
    \<and> ilo (ivl s' (rootOf c)) = ilo (ivl s (rootOf a)) + unat wB + unat (reindexSlack rt)
    \<and> ihi (ivl s' (rootOf c)) = ihi (ivl s (rootOf a)) - 1 - unat wA - unat (reindexSlack rt)
    \<and> (\<forall>x. x \<notin> set (nodes c) \<longrightarrow> ivl s' x = ivl s x) \<and> ordered (ivl s') c \<and> (final \<longrightarrow> good (ivl s') c)"
proof -
  let ?r = "ivl s (rootOf a)" and ?k = "unat (reindexSlack rt)"
  define q where "q = newReachabilityInterval (Start ?r + wB + reindexSlack rt) (End ?r - wA - reindexSlack rt - 1)"
  note ends = chosen_ends [OF T(5) room, folded q_def]
  note lo = ends(1) and hi = ends(2) and reg = ends(3) and wide = ends(4)
  have d: "distinct (nodes c)" using treeStoreD(2) [OF T(1,4)] .
  have out: "x \<notin> set (nodes c) \<Longrightarrow> x \<noteq> rootOf c" for x by auto
  have pres: "present s (rootOf c)" "fetchInterval s (rootOf a) = Inr ?r" "interval s (rootOf c) = Inr (Some (ivl s (rootOf c)))"
    using rep_root [OF treeStoreD(1) [OF T(1,3)]] rep_root [OF treeStoreD(1) [OF T(1,4)]]
    by (simp_all add: fetchInterval_present interval_present)
  show ?thesis
  proof (cases "final \<and> \<not> intervalContains q (ivl s (rootOf c))")
    case True
    define q1 where "q1 = newReachabilityInterval (Start q + reindexSlack rt) (End q - reindexSlack rt)"
    have "0 < tsize c" by (cases c) simp
    then have q1: "ilo q1 = ilo q + ?k" "ihi q1 = ihi q - ?k"
      using wide reg by (simp_all add: q1_def ilo_def ihi_def regular_def unat_u64_add unat_u64_diff)
    then have "regular q1" "tsize c \<le> ilen q1" using wide reg unfolding regular_def ilen_def q1 by linarith+
    obtain s1 where s1: "stageInterval s (rootOf c) q1 = Inr s1" "sameShape s s1" "ivl s1 = (ivl s)(rootOf c := q1)"
      using stageInterval_present [OF pres(1)] by blast
    note T1 = treeStore_sameShape [OF s1(2) T(1)]
    have "roomy (ivl s1) c" using s1(3) \<open>regular q1\<close> \<open>tsize c \<le> ilen q1\<close> by (simp add: roomy_def)
    then obtain cache2 s2 where s2: "propagateInterval rt (rootOf c) cache s1 = Some (Inr (cache2, s2))" "sizesOk T cache2"
      "sameShape s1 s2" "good (ivl s2) c" "\<forall>x. x \<notin> set (concat (List.map nodes (subtrees c))) \<longrightarrow> ivl s2 x = ivl s1 x"
      using propagateInterval_correct [OF T1 T(4,2), of rt] by blast
    have "present s2 (rootOf c)" using pres(1) s1(2) s2(3) by (simp add: sameShape_def)
    then obtain s3 where s3: "stageInterval s2 (rootOf c) q = Inr s3" "sameShape s2 s3" "ivl s3 = (ivl s2)(rootOf c := q)"
      using stageInterval_present by blast
    have "rootOf c \<notin> set (concat (List.map nodes (subtrees c)))" using d by (cases c) auto
    then have "ivl s2 (rootOf c) = q1" using s2(5) s1(3) by simp
    then have g3: "good (ivl s3) c" using good_enlarge [OF s2(4) d reg] q1 unfolding s3(3) by (simp add: intervalContains_iff)
    have inside: "set (concat (List.map nodes (subtrees c))) \<subseteq> set (nodes c)" by (cases c) auto
    have "ivl s3 x = ivl s x" if x: "x \<notin> set (nodes c)" for x
    proof -
      have "x \<notin> set (concat (List.map nodes (subtrees c)))" using subsetD [OF inside] x by blast
      then have "ivl s2 x = ivl s1 x" using s2(5) by blast
      then show ?thesis using s3(3) s1(3) out [OF x] by simp
    qed
    moreover have "sameShape s s3" using s1(2) s2(3) s3(2) sameShape_trans by blast
    moreover have "expandIntervalToChosen rt (rootOf a) (rootOf c) wB wA final cache s = Some (Inr (cache2, s3))"
      using pres True s1(1) s2(1) s3(1)
      by (simp add: expandIntervalToChosen_def q_def [symmetric] q1_def [symmetric] nonNil_def ret_def)
    ultimately show ?thesis using s2(2) s3(3) reg lo hi g3 good_ordered [OF g3] by simp
  next
    case False
    obtain s1 where s1: "stageInterval s (rootOf c) q = Inr s1" "sameShape s s1" "ivl s1 = (ivl s)(rootOf c := q)"
      using stageInterval_present [OF pres(1)] by blast
    have "expandIntervalToChosen rt (rootOf a) (rootOf c) wB wA final cache s = Some (Inr (cache, s1))"
      using pres False s1(1) by (auto simp: expandIntervalToChosen_def q_def [symmetric] nonNil_def ret_def)
    moreover have "ordered (ivl s1) c" using ordered_cong [OF _ d good_ordered [OF g], of "ivl s1"] s1(3) by simp
    moreover have "final \<longrightarrow> good (ivl s1) c" using good_enlarge [OF g d reg] False s1(3) by simp
    moreover have "ivl s1 x = ivl s x" if "x \<notin> set (nodes c)" for x using s1(3) out [OF that] by simp
    ultimately show ?thesis using T(2) s1(2,3) reg lo hi by simp
  qed
qed

section \<open>One step towards the new root\<close>

text \<open>A tree that fits outside a node and inside its subtree except at a deeper node fits except there.\<close>

lemma fits_refine:
  assumes "fits (rootOf u) f t" and "fits n f u" and "distinct (nodes t)" and "u \<in> set (subs t)" and "n \<in> set (nodes u)"
  shows "fits n f t"
  using assms
proof (induction t rule: nodes.induct)
  case (1 h ts)
  show ?case
  proof (cases "u = RNode h ts")
    case True
    then show ?thesis using 1(3) by simp
  next
    case False
    then obtain c where c: "c \<in> set ts" "u \<in> set (subs c)" using 1(5) by auto
    have sub: "set (nodes u) \<subseteq> set (nodes c)" using subs_nodes [OF c(2)] .
    have "h \<notin> set (nodes c)" using 1(4) c(1) by auto
    then have h: "h \<noteq> rootOf u" "h \<noteq> n" using subsetD [OF sub rootOf_in_nodes] subsetD [OF sub 1(6)] by metis+
    have d: "distinct (concat (List.map nodes ts))" using 1(4) by simp
    have "fits n f v" if "v \<in> set ts" for v
    proof (cases "v = c")
      case True
      then show ?thesis using 1(1) [OF c(1)] 1(2,3,4,6) h c by (auto simp: distinct_concat_iff)
    next
      case False
      then have "rootOf u \<notin> set (nodes v)"
        using siblings_apart [OF d that c(1)] subsetD [OF sub rootOf_in_nodes] by blast
      then show ?thesis using 1(2) h(1) that fits_good good_fits by fastforce
    qed
    then show ?thesis using 1(2) h by simp
  qed
qed

definition roomFor :: "reachabilityManager \<Rightarrow> (DomainHash \<Rightarrow> ReachabilityInterval) \<Rightarrow> rtree \<Rightarrow> bool" where
  "roomFor rt f t \<longleftrightarrow> (2 * unat (reindexSlack rt) + 1) * tsize t + 2 * unat (reindexSlack rt) \<le> ilen (f (rootOf t))"

lemma packed_fits:
  assumes ch: "subtrees a = pre @ c # post" and da: "distinct (nodes a)" and r: "regular (f (rootOf a))" "regular (f (rootOf c))"
    and g: "\<forall>u\<in>set pre \<union> set post. good f u"
    and sp: "spaced lo (roots f pre) (ilo (f (rootOf c)))" "spaced (ihi (f (rootOf c))) (roots f post) hi"
    and ends: "ilo (f (rootOf a)) \<le> lo" "hi < ihi (f (rootOf a))"
  shows "fits (rootOf c) f a"
proof -
  have c: "c \<in> set (subtrees a)" using ch by simp
  have "rootOf a \<notin> set (nodes c)" using root_not_inside [OF da subs_self c] .
  then have ne: "rootOf a \<noteq> rootOf c" using rootOf_in_nodes [of c] by metis
  have le: "ilo (f (rootOf c)) \<le> ihi (f (rootOf c))" using r(2) by (simp add: regular_def)
  have "spaced (ilo (f (rootOf a))) (roots f pre) (ilo (f (rootOf c)))" using spaced_mono [OF sp(1) ends(1)] by simp
  moreover have "spaced (ihi (f (rootOf c))) (roots f post) (ihi (f (rootOf a)) - 1)" using spaced_mono [OF sp(2)] ends(2) by simp
  ultimately have "spaced (ilo (f (rootOf a))) (roots f pre @ f (rootOf c) # roots f post) (ihi (f (rootOf a)) - 1)"
    unfolding spaced_append using le by (intro exI [of _ "ilo (f (rootOf c))"]) simp
  moreover have "ilo (f (rootOf a)) < ihi (f (rootOf a))" using spaced_le [OF sp(1)] spaced_le [OF sp(2)] le ends by linarith
  moreover have "fits (rootOf c) f c" using r(2) by (cases c) simp
  moreover have "fits (rootOf c) f u" if "u \<in> set pre \<union> set post" for u using g that good_fits by blast
  ultimately show ?thesis using r(1) ne ch by (cases a) auto
qed

lemma room_for_child:
  fixes k :: nat
  assumes "(2 * k + 1) * n + 2 * k \<le> len" and "n = Suc (B + m + A)" and "0 < m"
  shows "n + 4 * k \<le> len" and "(2 * k + 1) * m + 2 * k + 1 + B + A + 2 * k \<le> len"
proof -
  have "2 * k * Suc m \<le> 2 * k * n" using assms(2) by (intro mult_le_mono2) simp
  moreover have "2 * k * 1 \<le> 2 * k * n" using assms(2) by (intro mult_le_mono2) simp
  moreover have "(2 * k + 1) * n = 2 * k * n + n" "(2 * k + 1) * m = 2 * k * m + m" "2 * k * Suc m = 2 * k * m + 2 * k"
    by (simp_all add: algebra_simps)
  ultimately show "n + 4 * k \<le> len" "(2 * k + 1) * m + 2 * k + 1 + B + A + 2 * k \<le> len" using assms by linarith+
qed

lemma around_child:
  assumes "distinct (nodes a)" and "subtrees a = pre @ c # post"
  shows "distinct (concat (List.map nodes pre))" and "distinct (concat (List.map nodes post))" and "rootOf a \<notin> waiting pre"
    and "rootOf a \<notin> waiting post" and "set (nodes c) \<inter> waiting pre = {}" and "set (nodes c) \<inter> waiting post = {}"
    and "waiting pre \<inter> waiting post = {}" and "tsize a = Suc ((\<Sum>u\<leftarrow>pre. tsize u) + tsize c + (\<Sum>u\<leftarrow>post. tsize u))"
    and "set (concat (List.map nodes (subtrees a))) = waiting pre \<union> set (nodes c) \<union> waiting post"
proof -
  have na: "nodes a = rootOf a # concat (List.map nodes pre) @ nodes c @ concat (List.map nodes post)"
    using nodes_eq [of a] assms(2) by simp
  show "distinct (concat (List.map nodes pre))" "distinct (concat (List.map nodes post))" "rootOf a \<notin> waiting pre"
    "rootOf a \<notin> waiting post" "set (nodes c) \<inter> waiting pre = {}" "set (nodes c) \<inter> waiting post = {}"
    "waiting pre \<inter> waiting post = {}"
    using assms(1) unfolding na waiting_def by auto
  show "tsize a = Suc ((\<Sum>u\<leftarrow>pre. tsize u) + tsize c + (\<Sum>u\<leftarrow>post. tsize u))" using tsize_eq [of a] assms(2) by simp
  show "set (concat (List.map nodes (subtrees a))) = waiting pre \<union> set (nodes c) \<union> waiting post"
    using assms(2) by (auto simp: waiting_def)
qed

lemma concentrateInterval_inside:
  assumes T: "treeStore s T" "sizesOk T cache" and a: "a \<in> set (subs T)" "subtrees a = pre @ c # post" and reg: "regular (ivl s (rootOf a))"
    and o: "ordered (ivl s) a" and cap: "roomFor rt (ivl s) a"
  shows "\<exists>cache' s'. concentrateInterval rt (rootOf a) (rootOf c) final cache s = Some (Inr (cache', s')) \<and> sameShape s s'
    \<and> sizesOk T cache' \<and> fits (rootOf c) (ivl s') a \<and> (\<forall>x. x \<notin> set (concat (List.map nodes (subtrees a))) \<longrightarrow> ivl s' x = ivl s x)
    \<and> ordered (ivl s') c \<and> roomFor rt (ivl s') c \<and> (final \<longrightarrow> good (ivl s') c)"
proof -
  let ?r = "ivl s (rootOf a)" and ?k = "unat (reindexSlack rt)"
  let ?B = "\<Sum>u\<leftarrow>pre. tsize u" and ?A = "\<Sum>u\<leftarrow>post. tsize u"
  have da: "distinct (nodes a)" using treeStoreD(2) [OF T(1) a(1)] .
  note ar = around_child [OF da a(2)]
  have cT: "c \<in> set (subs T)" and preT: "set pre \<subseteq> set (subs T)" and postT: "set post \<subseteq> set (subs T)"
    using subs_trans [OF a(1) subs_child] a(2) by auto
  have "0 < tsize c" by (cases c) simp
  then have len: "tsize a + 4 * ?k \<le> ilen ?r" "(2 * ?k + 1) * tsize c + 2 * ?k + 1 + ?B + ?A + 2 * ?k \<le> ilen ?r"
    using room_for_child [of ?k "tsize a" "ilen ?r" ?B "tsize c" ?A] cap ar(8) unfolding roomFor_def by blast+
  have capB: "?k + ?B \<le> ilen ?r" and capA: "?k + ?A + 1 \<le> ilen ?r" using len(1) ar(8) by linarith+
  obtain wB cache1 s1 where s1: "tightenIntervalsBefore rt (rootOf a) (List.map rootOf pre) cache s = Some (Inr (wB, cache1, s1))"
    "unat wB = ?B" "packed T pre (ilo ?r + ?k) cache1 s s1"
    using tightenIntervalsBefore_correct [OF T(1) preT ar(1) T(2) a(1) reg capB] by blast
  have r1: "ivl s1 (rootOf a) = ?r" using s1(3) ar(3) by (simp add: packed_def)
  have T1: "treeStore s1 T" "sizesOk T cache1" using s1(3) treeStore_sameShape [OF _ T(1)] by (auto simp: packed_def)
  obtain wA cache2 s2 where s2: "tightenIntervalsAfter rt (rootOf a) (List.map rootOf post) cache1 s1 = Some (Inr (wA, cache2, s2))"
    "unat wA = ?A" "packed T post (ihi ?r - 1 - ?k - ?A) cache2 s1 s2"
    using tightenIntervalsAfter_correct [OF T1(1) postT ar(2) T1(2) a(1), unfolded r1, OF reg capA] by blast
  have r2: "ivl s2 (rootOf a) = ?r" using s2(3) ar(4) r1 by (simp add: packed_def)
  have T2: "treeStore s2 T" "sizesOk T cache2" using s2(3) treeStore_sameShape [OF _ T1(1)] by (auto simp: packed_def)
  have "ivl s2 x = ivl s x" if "x \<in> set (nodes c)" for x using s1(3) s2(3) that ar(5,6) unfolding packed_def by (metis disjoint_iff)
  then have g2: "good (ivl s2) c" using o a(2) good_cong [of c "ivl s2" "ivl s"] by (auto simp: ordered_def)
  have room: "ilo ?r + unat wB + tsize c + 4 * ?k + unat wA + 1 \<le> ihi ?r"
    using len(1) ar(8) s1(2) s2(2) reg by (auto simp: regular_def ilen_def)
  obtain cache3 s3 where s3: "expandIntervalToChosen rt (rootOf a) (rootOf c) wB wA final cache2 s2 = Some (Inr (cache3, s3))"
    "sizesOk T cache3" "sameShape s2 s3" "regular (ivl s3 (rootOf c))" "ilo (ivl s3 (rootOf c)) = ilo ?r + ?B + ?k"
    "ihi (ivl s3 (rootOf c)) = ihi ?r - 1 - ?A - ?k" "\<forall>x. x \<notin> set (nodes c) \<longrightarrow> ivl s3 x = ivl s2 x"
    "ordered (ivl s3) c" "final \<longrightarrow> good (ivl s3) c"
    using expandIntervalToChosen_correct [OF T2 a(1) cT, unfolded r2, OF reg g2 room] s1(2) s2(2) by metis
  have pre3: "ivl s3 x = ivl s1 x" if "x \<in> waiting pre" for x
    using s3(7) s2(3) that ar(5,7) unfolding packed_def by (metis disjoint_iff)
  have post3: "ivl s3 x = ivl s2 x" if "x \<in> waiting post" for x using s3(7) that ar(6) by (metis disjoint_iff)
  have mem: "x \<in> waiting us" if "u \<in> set us" "x \<in> set (nodes u)" for u us x using that by (auto simp: waiting_def)
  have g3: "\<forall>u\<in>set pre \<union> set post. good (ivl s3) u"
  proof
    fix u assume "u \<in> set pre \<union> set post"
    then show "good (ivl s3) u"
      using s1(3) s2(3) good_cong [of u "ivl s3" "ivl s1"] good_cong [of u "ivl s3" "ivl s2"] pre3 post3 mem unfolding packed_def by blast
  qed
  have roots: "roots (ivl s3) pre = roots (ivl s1) pre" "roots (ivl s3) post = roots (ivl s2) post"
    using pre3 post3 mem [OF _ rootOf_in_nodes] by (auto intro!: map_cong)
  have frame: "ivl s3 x = ivl s x" if "x \<notin> set (concat (List.map nodes (subtrees a)))" for x
    using that s1(3) s2(3) s3(7) unfolding ar(9) packed_def by auto
  have r3: "ivl s3 (rootOf a) = ?r" using frame da by (cases a) auto
  have "fits (rootOf c) (ivl s3) a"
  proof (rule packed_fits [OF a(2) da _ s3(4) g3])
    show "spaced (ilo ?r + ?k) (roots (ivl s3) pre) (ilo (ivl s3 (rootOf c)))"
      using s1(3) unfolding roots(1) s3(5) packed_def by (simp add: add.commute add.left_commute)
    show "spaced (ihi (ivl s3 (rootOf c))) (roots (ivl s3) post) (ihi ?r - 1 - ?k - ?A + ?A)"
      using s2(3) unfolding roots(2) s3(6) packed_def by (simp add: add.commute)
  qed (use r3 reg room s2(2) in auto)
  moreover have "roomFor rt (ivl s3) c"
    using len(2) unfolding roomFor_def ilen_def s3(5,6) by linarith
  moreover have "concentrateInterval rt (rootOf a) (rootOf c) final cache s = Some (Inr (cache3, s3))"
    using siblings_of(2) [OF T(1) a] s1(1) s2(1) s3(1) by (simp add: concentrateInterval_def)
  moreover have "sameShape s s3" using s1(3) s2(3) s3(3) sameShape_trans unfolding packed_def by blast
  ultimately show ?thesis using s3(2,8,9) frame by blast
qed

lemma concentrateInterval_correct:
  assumes R: "ready T (rootOf a) cache s" and a: "a \<in> set (subs T)" "c \<in> set (subtrees a)"
    and o: "ordered (ivl s) a" and cap: "roomFor rt (ivl s) a"
  shows "\<exists>cache' s'. concentrateInterval rt (rootOf a) (rootOf c) final cache s = Some (Inr (cache', s')) \<and> sameShape s s'
    \<and> ready T (rootOf c) cache' s' \<and> ordered (ivl s') c \<and> roomFor rt (ivl s') c \<and> (final \<longrightarrow> good (ivl s') T)"
proof -
  note T = readyD(1) [OF R] and F = readyD(3) [OF R] and dT = readyD(4) [OF R]
  obtain pre post where ch: "subtrees a = pre @ c # post" using split_list [OF a(2)] by blast
  have reg: "regular (ivl s (rootOf a))" using fits_root [OF fits_above [OF F dT a(1) rootOf_in_nodes]] .
  obtain cache' s' where s': "concentrateInterval rt (rootOf a) (rootOf c) final cache s = Some (Inr (cache', s'))" "sameShape s s'"
    "sizesOk T cache'" "fits (rootOf c) (ivl s') a" "\<forall>x. x \<notin> set (concat (List.map nodes (subtrees a))) \<longrightarrow> ivl s' x = ivl s x"
    "ordered (ivl s') c" "roomFor rt (ivl s') c" "final \<longrightarrow> good (ivl s') c"
    using concentrateInterval_inside [OF T readyD(2) [OF R] a(1) ch reg o cap] by blast
  have ca: "rootOf c \<in> set (nodes a)" using subsetD [OF subs_nodes [OF subs_child [OF a(2)]] rootOf_in_nodes] .
  have cT: "c \<in> set (subs T)" using subs_trans [OF a(1) subs_child [OF a(2)]] .
  have "fits (rootOf a) (ivl s') T" using fits_changed_below [OF dT a(1) F] s'(5) by blast
  then have fc: "fits (rootOf c) (ivl s') T" using fits_refine [OF _ s'(4) dT a(1) ca] by blast
  have "good (ivl s') T" if final using fits_restore [OF fc] s'(8) that subs_unique [OF dT _ cT] by metis
  then show ?thesis using s' fc treeStore_sameShape [OF s'(2) T] by (auto simp: ready_def)
qed

section \<open>The walk to the new root\<close>

lemma concentrateLoop_correct:
  assumes "ready T (rootOf a) cache s" and "a \<in> set (subs T)" and "ordered (ivl s) a" and "roomFor rt (ivl s) a"
    and "n \<in> set (subs a)" and "n \<noteq> a" and "tip \<in> set (nodes n)"
  shows "\<exists>s'. concentrateLoop rt tip (rootOf n) (rootOf a) cache s = Some (Inr s') \<and> sameShape s s' \<and> good (ivl s') T"
  using assms
proof (induction "tsize a" arbitrary: a cache s rule: less_induct)
  case less
  note T = readyD(1) [OF less.prems(1)] and dT = readyD(4) [OF less.prems(1)]
  have da: "distinct (nodes a)" using distinct_subs [OF dT less.prems(2)] .
  obtain c where c: "c \<in> set (subtrees a)" "n \<in> set (subs c)" using less.prems(5,6) by (cases a) auto
  have tc: "tip \<in> set (nodes c)" using subsetD [OF subs_nodes [OF c(2)] less.prems(7)] .
  have cT: "c \<in> set (subs T)" using subs_trans [OF less.prems(2) subs_child [OF c(1)]] .
  obtain pre post where ch: "subtrees a = pre @ c # post" using split_list [OF c(1)] by blast
  obtain lo hi where sp: "spaced lo (roots (ivl s) (subtrees a)) hi" and gc: "good (ivl s) c"
    using less.prems(3) c(1) unfolding ordered_def by blast
  have find: "FindNextAncestor s tip (rootOf a) = Inr (rootOf c)"
    using FindNextAncestor_correct [OF T less.prems(2) ch sp gc tc] .
  obtain cache' s' where s': "concentrateInterval rt (rootOf a) (rootOf c) (rootOf c = rootOf n) cache s = Some (Inr (cache', s'))"
    "sameShape s s'" "ready T (rootOf c) cache' s'" "ordered (ivl s') c" "roomFor rt (ivl s') c"
    "rootOf c = rootOf n \<longrightarrow> good (ivl s') T"
    using concentrateInterval_correct [OF less.prems(1,2) c(1) less.prems(3,4)] by blast
  show ?case
  proof (cases "rootOf c = rootOf n")
    case True
    then show ?thesis using find s'(1,2,6) by (subst concentrateLoop.simps) (simp add: ret_def)
  next
    case False
    then have "n \<noteq> c" by auto
    then obtain s2 where "concentrateLoop rt tip (rootOf n) (rootOf c) cache' s' = Some (Inr s2)" "sameShape s' s2" "good (ivl s2) T"
      using less.hyps [OF child_smaller [OF c(1)] s'(3) cT s'(4,5) c(2) _ less.prems(7)] by blast
    then show ?thesis using find s'(1) False sameShape_trans [OF s'(2)] by (subst concentrateLoop.simps) simp
  qed
qed

text \<open>Blue scores are known for every block but the root of the tree and grow along its branches.\<close>

definition scoreOf :: "reachabilityManager \<Rightarrow> DomainHash \<Rightarrow> u64" where
  "scoreOf rt h = (case ghostdagGet rt h of Inr d \<Rightarrow> blueScore d | Inl e \<Rightarrow> 0)"

definition scored :: "reachabilityManager \<Rightarrow> rtree \<Rightarrow> bool" where
  "scored rt T \<longleftrightarrow> (\<forall>h\<in>set (nodes T). h \<noteq> rootOf T \<longrightarrow> (\<exists>d. ghostdagGet rt h = Inr d)
     \<and> (\<forall>y. anc T h y \<longrightarrow> y \<noteq> h \<longrightarrow> scoreOf rt h < scoreOf rt y))"

lemma nextReindexRoot_correct:
  assumes T: "treeStore s T" "good (ivl s) T" "scored rt T" and w: "0 < reindexWindow rt"
    and "a \<in> set (subs T)" and "tip \<in> set (nodes a)" and "tip \<noteq> rootOf a"
  shows "\<exists>n\<in>set (subs a). nextReindexRoot rt s tip (scoreOf rt tip) (rootOf a) = Some (Inr (rootOf n)) \<and> tip \<in> set (nodes n)"
  using assms(5-)
proof (induction "tsize a" arbitrary: a rule: less_induct)
  case less
  have ga: "good (ivl s) a" using good_subs [OF T(2) less.prems(1)] .
  obtain c where c: "c \<in> set (subtrees a)" "tip \<in> set (nodes c)" using less.prems(2,3) by (cases a) auto
  have cT: "c \<in> set (subs T)" using subs_trans [OF less.prems(1) subs_child [OF c(1)]] .
  obtain pre post where ch: "subtrees a = pre @ c # post" using split_list [OF c(1)] by blast
  have find: "FindNextAncestor s tip (rootOf a) = Inr (rootOf c)"
    using FindNextAncestor_correct [OF T(1) less.prems(1) ch good_spaced [OF ga] good_subs [OF T(2) cT] c(2)] .
  have "rootOf T \<notin> set (nodes c)" using root_not_inside [OF _ less.prems(1) c(1)] T(1) by (simp add: treeStore_def)
  then have nr: "rootOf c \<noteq> rootOf T" using rootOf_in_nodes [of c] by metis
  have cN: "rootOf c \<in> set (nodes T)" using subsetD [OF subs_nodes [OF cT] rootOf_in_nodes] .
  have anc: "anc T (rootOf c) tip" unfolding anc_def using cT c(2) by blast
  obtain d where d: "ghostdagGet rt (rootOf c) = Inr d" using T(3) cN nr unfolding scored_def by blast
  have le: "blueScore d \<le> scoreOf rt tip"
    using T(3) cN nr anc d unfolding scored_def scoreOf_def by (cases "tip = rootOf c") (force simp: less_imp_le)+
  show ?case
  proof (cases "scoreOf rt tip - blueScore d < reindexWindow rt")
    case True
    then have "nextReindexRoot rt s tip (scoreOf rt tip) (rootOf a) = Some (Inr (rootOf a))"
      using find d le by (subst nextReindexRoot.simps) (simp add: ret_def)
    then show ?thesis using less.prems(2) subs_self by blast
  next
    case False
    then have "tip \<noteq> rootOf c" using d w by (auto simp: scoreOf_def)
    then obtain n where "n \<in> set (subs c)" "nextReindexRoot rt s tip (scoreOf rt tip) (rootOf c) = Some (Inr (rootOf n))" "tip \<in> set (nodes n)"
      using less.hyps [OF child_smaller [OF c(1)] cT c(2)] by blast
    moreover have "nextReindexRoot rt s tip (scoreOf rt tip) (rootOf a) = nextReindexRoot rt s tip (scoreOf rt tip) (rootOf c)"
      using find d leD [OF le] False by (subst nextReindexRoot.simps) simp
    ultimately show ?thesis using subs_trans [OF subs_child [OF c(1)]] by metis
  qed
qed

lemma findCommonAncestor_correct:
  assumes T: "treeStore s T" "good (ivl s) T" and r: "r \<in> set (nodes T)" and "v \<in> set (subs T)"
  shows "\<exists>w\<in>set (subs T). findCommonAncestor s (rootOf v) r = Some (Inr (rootOf w)) \<and> v \<in> set (subs w) \<and> r \<in> set (nodes w)"
  using assms(4)
proof (induction "tsize T - tsize v" arbitrary: v rule: less_induct)
  case less
  have rep: "rep s T" using T(1) by (simp add: treeStore_def)
  have query: "IsReachabilityTreeAncestorOf s (rootOf v) r = Inr (r \<in> set (nodes v))"
    using tree_ancestor_correct [OF rep T(2) less.prems r] .
  show ?case
  proof (cases "r \<in> set (nodes v)")
    case True
    then have "findCommonAncestor s (rootOf v) r = Some (Inr (rootOf v))"
      using query by (subst findCommonAncestor.simps) (simp add: ret_def)
    then show ?thesis using True less.prems subs_self by blast
  next
    case False
    then have "v \<noteq> T" using r by blast
    then obtain y where y: "y \<in> set (subs T)" "v \<in> set (subtrees y)" using subs_parent [OF less.prems] by blast
    have "tsize T - tsize y < tsize T - tsize v" using child_smaller [OF y(2)] tsize_subs [OF y(1)] by simp
    then obtain w where w: "w \<in> set (subs T)" "findCommonAncestor s (rootOf y) r = Some (Inr (rootOf w))" "y \<in> set (subs w)" "r \<in> set (nodes w)"
      using less.hyps y(1) by blast
    have "findCommonAncestor s (rootOf v) r = findCommonAncestor s (rootOf y) r"
      using query False treeStoreD(5) [OF T(1) y] by (subst findCommonAncestor.simps) (simp add: nonNil_def)
    then show ?thesis using w subs_trans [OF w(3) subs_child [OF y(2)]] by metis
  qed
qed

lemma findNextReindexRoot_correct:
  assumes T: "treeStore s T" "good (ivl s) T" "scored rt T" and w: "0 < reindexWindow rt"
    and r: "r \<in> set (nodes T)" and tip: "tip \<in> set (nodes T)" "tip \<noteq> rootOf T" "tip \<noteq> r"
  shows "\<exists>a\<in>set (subs T). \<exists>n\<in>set (subs a). findNextReindexRoot rt s r tip = Some (Inr (rootOf a, rootOf n))
    \<and> r \<in> set (nodes a) \<and> (n = a \<or> tip \<in> set (nodes n))"
proof -
  have rep: "rep s T" using T(1) by (simp add: treeStore_def)
  obtain v where v: "v \<in> set (subs T)" "rootOf v = r" using r unfolding nodes_subs by blast
  obtain td where td: "ghostdagGet rt tip = Inr td" using T(3) tip(1,2) unfolding scored_def by blast
  then have ts: "scoreOf rt tip = blueScore td" by (simp add: scoreOf_def)
  have query: "IsReachabilityTreeAncestorOf s r tip = Inr (tip \<in> set (nodes v))"
    using tree_ancestor_correct [OF rep T(2) v(1) tip(1)] v(2) by simp
  have rv: "r \<in> set (nodes v)" using v(2) rootOf_in_nodes by metis
  show ?thesis
  proof (cases "tip \<in> set (nodes v)")
    case True
    then obtain n where n: "n \<in> set (subs v)" "nextReindexRoot rt s tip (blueScore td) r = Some (Inr (rootOf n))" "tip \<in> set (nodes n)"
      using nextReindexRoot_correct [OF T w v(1) True] tip(3) v(2) ts by metis
    then have "findNextReindexRoot rt s r tip = Some (Inr (rootOf v, rootOf n))"
      using td query True v(2) by (simp add: findNextReindexRoot_def ret_def)
    then show ?thesis using v(1) n rv by blast
  next
    case False
    have "r \<noteq> rootOf T" using False v subs_unique [of T v T] T(1) tip(1) by (auto simp: treeStore_def)
    then obtain rd where rd: "ghostdagGet rt r = Inr rd" using T(3) r unfolding scored_def by blast
    show ?thesis
    proof (cases "blueScore td < blueScore rd \<or> blueScore td - blueScore rd < reindexSlack rt")
      case True
      then have "findNextReindexRoot rt s r tip = Some (Inr (rootOf v, rootOf v))"
        using td query False rd v(2) by (simp add: findNextReindexRoot_def ret_def)
      then show ?thesis using v(1) rv by (intro bexI [of _ v]) auto
    next
      case far: False
      obtain t where t: "t \<in> set (subs T)" "rootOf t = tip" using tip(1) unfolding nodes_subs by blast
      obtain a where a: "a \<in> set (subs T)" "findCommonAncestor s tip r = Some (Inr (rootOf a))" "t \<in> set (subs a)" "r \<in> set (nodes a)"
        using findCommonAncestor_correct [OF T(1,2) r t(1)] t(2) by metis
      have ta: "tip \<in> set (nodes a)" using subsetD [OF subs_nodes [OF a(3)] rootOf_in_nodes] t(2) by simp
      have "tip \<noteq> rootOf a"
      proof
        assume "tip = rootOf a"
        then have "anc T tip r" unfolding anc_def using a(1,4) by blast
        then have "scoreOf rt tip < scoreOf rt r" using T(3) tip unfolding scored_def by metis
        then show False using far td rd by (simp add: scoreOf_def)
      qed
      then obtain n where n: "n \<in> set (subs a)" "nextReindexRoot rt s tip (blueScore td) (rootOf a) = Some (Inr (rootOf n))" "tip \<in> set (nodes n)"
        using nextReindexRoot_correct [OF T w a(1) ta] ts by metis
      then have "findNextReindexRoot rt s r tip = Some (Inr (rootOf a, rootOf n))"
        using td query False rd far a(2) by (simp add: findNextReindexRoot_def ret_def)
      then show ?thesis using a(1,4) n by blast
    qed
  qed
qed

section \<open>Moving the reindex root\<close>

lemma dagStore_sameShape:
  assumes "dagStore s T E" and "sameShape s s'" and "good (ivl s') T"
  shows "dagStore s' T E"
proof -
  have "fcsOf s' = fcsOf s" using assms(2) by (simp add: fcsOf_def sameShape_def fun_eq_iff)
  then show ?thesis using assms treeStore_sameShape [OF assms(2)] unfolding dagStore_def by (auto simp: sameShape_def)
qed

lemma dagStore_stageReindexRoot:
  assumes "dagStore s T E" and "r \<in> set (nodes T)"
  shows "dagStore (stageReindexRoot s r) T E"
proof -
  let ?s = "stageReindexRoot s r"
  have eq: "ivl ?s = ivl s" "fcsOf ?s = fcsOf s" "futureCoveringSet ?s = futureCoveringSet s" "present ?s = present s"
    by (simp_all add: fun_eq_iff ivl_def fcsOf_def futureCoveringSet_def fetchData_def present_def stageReindexRoot_def)
  have "rep ?s t = rep s t" for t
    by (rule rep_cong) (simp add: stageReindexRoot_def)
  then show ?thesis using assms eq unfolding dagStore_def treeStore_def by (auto simp: stageReindexRoot_def)
qed

definition movable :: "reachabilityManager \<Rightarrow> reachStore \<Rightarrow> rtree \<Rightarrow> DomainHash \<Rightarrow> bool" where
  "movable rt s T tip \<longleftrightarrow> 0 < reindexWindow rt \<and> scored rt T \<and> tip \<in> set (nodes T) \<and> tip \<noteq> rootOf T
     \<and> (\<exists>r. reachabilityReindexRoot s = Some r \<and> tip \<noteq> r
          \<and> (2 * unat (reindexSlack rt) + 1) * tsize T + 2 * unat (reindexSlack rt) \<le> ilen (ivl s r))"

lemma UpdateReindexRoot_dagStore:
  assumes D: "dagStore s T E" and M: "movable rt s T tip"
  shows "\<exists>s'. UpdateReindexRoot rt tip s = Some (Inr s') \<and> dagStore s' T E"
proof -
  note D' = dagStoreD [OF D]
  obtain r where r: "reachabilityReindexRoot s = Some r" "tip \<noteq> r"
    "(2 * unat (reindexSlack rt) + 1) * tsize T + 2 * unat (reindexSlack rt) \<le> ilen (ivl s r)"
    using M unfolding movable_def by blast
  have rT: "r \<in> set (nodes T)" using D r(1) by (auto simp: dagStore_def)
  have m: "scored rt T" "0 < reindexWindow rt" "tip \<in> set (nodes T)" "tip \<noteq> rootOf T" using M by (auto simp: movable_def)
  obtain a n where an: "a \<in> set (subs T)" "n \<in> set (subs a)" "findNextReindexRoot rt s r tip = Some (Inr (rootOf a, rootOf n))"
    "r \<in> set (nodes a)" "n = a \<or> tip \<in> set (nodes n)"
    using findNextReindexRoot_correct [OF D'(1,2) m(1,2) rT m(3,4) r(2)] by blast
  have nT: "rootOf n \<in> set (nodes T)" using subsetD [OF subs_nodes [OF subs_trans [OF an(1,2)]] rootOf_in_nodes] .
  have root: "reindexRoot s = Inr r" using r(1) by (simp add: reindexRoot_def nonNil_def)
  consider "r = rootOf n" | "r \<noteq> rootOf n" "rootOf n = rootOf a" | "r \<noteq> rootOf n" "rootOf n \<noteq> rootOf a" by blast
  then show ?thesis
  proof cases
    case 1
    then have "UpdateReindexRoot rt tip s = Some (Inr s)" using root an(3) by (simp add: UpdateReindexRoot_def ret_def)
    then show ?thesis using D by blast
  next
    case 2
    then have "UpdateReindexRoot rt tip s = Some (Inr (stageReindexRoot s (rootOf n)))"
      using root an(3) by (simp add: UpdateReindexRoot_def ret_def)
    then show ?thesis using dagStore_stageReindexRoot [OF D nT] by blast
  next
    case 3
    have ga: "good (ivl s) a" using good_subs [OF D'(2) an(1)] .
    have "ilen (ivl s r) \<le> ilen (ivl s (rootOf a))" using good_within [OF ga an(4)] by (auto simp: ilen_def)
    moreover have "(2 * unat (reindexSlack rt) + 1) * tsize a \<le> (2 * unat (reindexSlack rt) + 1) * tsize T"
      using tsize_subs [OF an(1)] by (intro mult_le_mono2)
    ultimately have room: "roomFor rt (ivl s) a" using r(3) unfolding roomFor_def by linarith
    have "sizesOk T newReindexContext" by (simp add: sizesOk_def newReindexContext_def)
    then have ready: "ready T (rootOf a) newReindexContext s" using D'(1) good_fits [OF D'(2)] by (simp add: ready_def)
    have tn: "n \<noteq> a" "tip \<in> set (nodes n)" using 3(2) an(5) by auto
    obtain s1 where s1: "concentrateLoop rt tip (rootOf n) (rootOf a) newReindexContext s = Some (Inr s1)" "sameShape s s1" "good (ivl s1) T"
      using concentrateLoop_correct [OF ready an(1) good_ordered [OF ga] room an(2) tn] by blast
    have "UpdateReindexRoot rt tip s = Some (Inr (stageReindexRoot s1 (rootOf n)))"
      using root an(3) 3 s1(1) by (simp add: UpdateReindexRoot_def ret_def)
    then show ?thesis using dagStore_stageReindexRoot [OF dagStore_sameShape [OF D s1(2,3)] nT] by blast
  qed
qed

end
