(* ===== verification/Reach_Manager.thy ===== *)
theory Reach_Manager
  imports Reach_Concentrate
begin

text \<open>
  The reachability manager as a state machine: from the store \<open>InitReachability\<close> makes, blocks
  are added and the reindex root is moved, in any order. Every reachable store represents a
  tree rooted in the virtual genesis, both operations succeed as long as the interval of the
  reindex root has the capacity, and \<open>IsDAGAncestorOf\<close> decides reachability in the graph of the
  blocks.
\<close>

definition movableTip ::
    "reachabilityManager \<Rightarrow> reachStore \<Rightarrow> DomainHash set \<Rightarrow> (DomainHash \<times> DomainHash) set \<Rightarrow> DomainHash \<Rightarrow> bool" where
  "movableTip rt s B E tip \<longleftrightarrow> 0 < reindexWindow rt \<and> tip \<in> B \<and> tip \<noteq> VirtualGenesisBlockHash
     \<and> (\<forall>h\<in>B. h \<noteq> VirtualGenesisBlockHash \<longrightarrow> (\<exists>d. ghostdagGet rt h = Inr d)
          \<and> (\<forall>y\<in>B. IsReachabilityTreeAncestorOf s h y = Inr True \<longrightarrow> y \<noteq> h \<longrightarrow> scoreOf rt h < scoreOf rt y))
     \<and> (\<exists>r. reachabilityReindexRoot s = Some r \<and> tip \<noteq> r
          \<and> (2 * unat (reindexSlack rt) + 1) * card B + 2 * unat (reindexSlack rt) \<le> ilen (ivl s r))"

inductive reaches :: "reachStore \<Rightarrow> DomainHash set \<Rightarrow> (DomainHash \<times> DomainHash) set \<Rightarrow> bool" where
  start: "reachabilityData s = Map.empty \<Longrightarrow> reaches (InitReachability s) {VirtualGenesisBlockHash} {}"
| add: "reaches s B E \<Longrightarrow> admissible rt s B E b P \<Longrightarrow> AddBlock rt b s = Some (Inr s')
    \<Longrightarrow> reaches s' (insert b B) (E \<union> P \<times> {b})"
| move: "reaches s B E \<Longrightarrow> movableTip rt s B E tip \<Longrightarrow> UpdateReindexRoot rt tip s = Some (Inr s') \<Longrightarrow> reaches s' B E"

inductive_cases reachesE: "reaches s B E"

definition rooted :: "reachStore \<Rightarrow> DomainHash set \<Rightarrow> (DomainHash \<times> DomainHash) set \<Rightarrow> rtree \<Rightarrow> bool" where
  "rooted s B E T \<longleftrightarrow> dagStore s T E \<and> set (nodes T) = B \<and> rootOf T = VirtualGenesisBlockHash"

lemma init_rooted:
  assumes "reachabilityData s = Map.empty"
  shows "rooted (InitReachability s) {VirtualGenesisBlockHash} {} (leaf VirtualGenesisBlockHash)"
proof -
  let ?g = VirtualGenesisBlockHash and ?s = "InitReachability s"
  have data: "reachabilityData ?s ?g = Some newReachabilityTreeData" "reachabilityReindexRoot ?s = Some ?g"
    using assms by (simp_all add: InitReachability_def stageData_def stageReindexRoot_def)
  then have iv: "ivl ?s ?g = newReachabilityInterval 1 18446744073709551614"
    by (simp add: ivl_def newReachabilityTreeData_def SetInterval_def)
  have g: "good (ivl ?s) (leaf ?g)" unfolding good.simps iv by (simp add: regular_def ilo_def ihi_def)
  have "rep ?s (leaf ?g)" "futureCoveringSet ?s ?g = Inr []"
    using data by (simp_all add: present_def children_def futureCoveringSet_def fetchData_def newReachabilityTreeData_def
        SetInterval_def EmptyReachabilityData_def)
  moreover have "fcsOf ?s ?g = []" using calculation(2) by (rule fcsOf_eq)
  moreover have "anc (leaf ?g) ?g ?g" by (rule anc_refl) simp
  ultimately show ?thesis using g data(2) by (simp add: rooted_def dagStore_def treeStore_def covering_def)
qed

lemma movableTip_movable:
  assumes "rooted s B E T" and "movableTip rt s B E tip"
  shows "movable rt s T tip"
proof -
  have D: "dagStore s T E" "set (nodes T) = B" "rootOf T = VirtualGenesisBlockHash" using assms(1) by (auto simp: rooted_def)
  note D' = dagStoreD [OF D(1)]
  have "scored rt T" unfolding scored_def
  proof (intro ballI impI conjI allI)
    fix h assume h: "h \<in> set (nodes T)" "h \<noteq> rootOf T"
    then show "\<exists>d. ghostdagGet rt h = Inr d" using assms(2) D(2,3) unfolding movableTip_def by simp
    fix y assume y: "anc T h y" "y \<noteq> h"
    have "IsReachabilityTreeAncestorOf s h y = Inr True" using anc_query [OF D'(4,2) h(1), of y] anc_nodes [OF y(1)] y(1) by simp
    then show "scoreOf rt h < scoreOf rt y" using assms(2) h y anc_nodes [OF y(1)] D(2,3) unfolding movableTip_def by auto
  qed
  moreover have "card B = tsize T" using D(2) D'(5) by (metis distinct_card)
  ultimately show ?thesis using assms(2) D(2,3) unfolding movable_def movableTip_def by auto
qed

lemma AddBlock_rooted:
  assumes "rooted s B E T" and "admissible rt s B E b P"
  shows "\<exists>s' T'. AddBlock rt b s = Some (Inr s') \<and> rooted s' (insert b B) (E \<union> P \<times> {b}) T'
    \<and> reachabilityReindexRoot s' = reachabilityReindexRoot s"
  using AddBlock_dagStore [of s T E rt b P] assms unfolding rooted_def by metis

lemma UpdateReindexRoot_rooted:
  assumes "rooted s B E T" and "movableTip rt s B E tip"
  shows "\<exists>s'. UpdateReindexRoot rt tip s = Some (Inr s') \<and> rooted s' B E T"
  using UpdateReindexRoot_dagStore movableTip_movable [OF assms] assms(1) unfolding rooted_def by metis

lemma reaches_rooted: "reaches s B E \<Longrightarrow> \<exists>T. rooted s B E T"
proof (induction rule: reaches.induct)
  case (start s)
  then show ?case using init_rooted by blast
next
  case (add s B E rt b P s')
  then obtain T where "rooted s B E T" by blast
  then show ?case using AddBlock_rooted [OF _ add.hyps(2)] add.hyps(3) by fastforce
next
  case (move s B E rt tip s')
  then obtain T where "rooted s B E T" by blast
  then show ?case using UpdateReindexRoot_rooted [OF _ move.hyps(2)] move.hyps(3) by fastforce
qed

text \<open>Every node of the tree other than its root is listed by the block its data names as parent.\<close>

lemma tree_parent_known:
  assumes T: "dagStore s T E" "set (nodes T) = B" and x: "x \<in> set (nodes T)" "x \<noteq> rootOf T" and d: "reachabilityData s x = Some d"
  shows "\<exists>p\<in>B. Parent d = Some p \<and> (\<exists>d'. reachabilityData s p = Some d' \<and> x \<in> set (Children d'))"
proof -
  note D = dagStoreD [OF T(1)]
  obtain c where c: "c \<in> set (subs T)" "rootOf c = x" using x(1) unfolding nodes_subs by blast
  then obtain u where u: "u \<in> set (subs T)" "c \<in> set (subtrees u)" using subs_parent [OF c(1)] x(2) by auto
  have p: "rootOf u \<in> set (nodes T)" using subsetD [OF subs_nodes [OF u(1)] rootOf_in_nodes] .
  obtain d' where d': "reachabilityData s (rootOf u) = Some d'" using rep_present [OF D(4) p] by (auto simp: present_def)
  have "Parent d = Some (rootOf u)" using treeStoreD(5) [OF D(1) u] c(2) d by (simp add: parent_def fetchData_def)
  moreover have "Children d' = List.map rootOf (subtrees u)"
    using treeStoreD(4) [OF D(1) u(1)] d' by (simp add: children_def fetchData_def)
  ultimately show ?thesis using d' p T(2) u(2) c(2) by auto
qed

section \<open>Properties\<close>

text \<open>One block on top of the virtual genesis, as a concrete run for the properties below.\<close>

definition firstBlock :: DomainHash where
  "firstBlock = [1]"

definition exampleManager :: reachabilityManager where
  "exampleManager = \<lparr>reindexSlack = 0, reindexWindow = 1, floatOutOfRange = (\<lambda>_. 0),
     ghostdagStore = [(firstBlock, False) \<mapsto> \<lparr>blueScore = 1, blueWork = 1, selectedParent = Some VirtualGenesisBlockHash,
       mergeSetBlues = [VirtualGenesisBlockHash], mergeSetReds = [], bluesAnticoneSizes = Map.empty\<rparr>]\<rparr>"

definition emptyStore :: reachStore where
  "emptyStore = \<lparr>reachabilityData = Map.empty, reachabilityReindexRoot = None\<rparr>"

lemma firstBlock_new: "firstBlock \<noteq> VirtualGenesisBlockHash"
  by (simp add: firstBlock_def VirtualGenesisBlockHash_def numeral_eq_Suc)

lemma example_start: "reaches (InitReachability emptyStore) {VirtualGenesisBlockHash} {}"
  by (rule reaches.start) (simp add: emptyStore_def)

lemma example_admissible:
  "admissible exampleManager (InitReachability emptyStore) {VirtualGenesisBlockHash} {} firstBlock {VirtualGenesisBlockHash}"
proof -
  have "reachabilityReindexRoot (InitReachability emptyStore) = Some VirtualGenesisBlockHash"
    "ivl (InitReachability emptyStore) VirtualGenesisBlockHash = newReachabilityInterval 1 18446744073709551614"
    by (simp_all add: InitReachability_def emptyStore_def stageData_def stageReindexRoot_def ivl_def newReachabilityTreeData_def SetInterval_def)
  then show ?thesis
    using firstBlock_new by (auto simp: admissible_def ghostdagGet_def nonNil_def exampleManager_def mergeSetOf_def ilen_def ilo_def ihi_def)
qed

lemma example_store:
  obtains s where "reaches s {firstBlock, VirtualGenesisBlockHash} {(VirtualGenesisBlockHash, firstBlock)}"
    and "reachabilityReindexRoot s = Some VirtualGenesisBlockHash"
proof -
  have "rooted (InitReachability emptyStore) {VirtualGenesisBlockHash} {} (leaf VirtualGenesisBlockHash)"
    by (rule init_rooted) (simp add: emptyStore_def)
  then obtain s where s: "AddBlock exampleManager firstBlock (InitReachability emptyStore) = Some (Inr s)"
    "reachabilityReindexRoot s = reachabilityReindexRoot (InitReachability emptyStore)"
    using AddBlock_rooted [OF _ example_admissible] by blast
  have "reachabilityReindexRoot s = Some VirtualGenesisBlockHash"
    using s(2) by (simp add: InitReachability_def emptyStore_def stageData_def stageReindexRoot_def)
  then show thesis using that reaches.add [OF example_start example_admissible s(1)] by simp
qed

lemma example_movable:
  assumes "reaches s {firstBlock, VirtualGenesisBlockHash} {(VirtualGenesisBlockHash, firstBlock)}"
    and "reachabilityReindexRoot s = Some VirtualGenesisBlockHash"
  shows "movableTip exampleManager s {firstBlock, VirtualGenesisBlockHash} {(VirtualGenesisBlockHash, firstBlock)} firstBlock"
proof -
  obtain T where T: "dagStore s T {(VirtualGenesisBlockHash, firstBlock)}" "set (nodes T) = {firstBlock, VirtualGenesisBlockHash}"
    "rootOf T = VirtualGenesisBlockHash" using reaches_rooted [OF assms(1)] unfolding rooted_def by blast
  note D = dagStoreD [OF T(1)]
  have "card {firstBlock, VirtualGenesisBlockHash} = tsize T" using D(5) T(2) by (metis distinct_card)
  moreover have "tsize T \<le> ilen (ivl s VirtualGenesisBlockHash)" using good_size [OF D(2)] T(3) by simp
  moreover have "IsReachabilityTreeAncestorOf s firstBlock VirtualGenesisBlockHash \<noteq> Inr True"
  proof
    assume "IsReachabilityTreeAncestorOf s firstBlock VirtualGenesisBlockHash = Inr True"
    then have "anc T firstBlock VirtualGenesisBlockHash" using anc_query [OF D(4,2), of firstBlock VirtualGenesisBlockHash] T(2) by simp
    then have "(firstBlock, VirtualGenesisBlockHash) \<in> {(VirtualGenesisBlockHash, firstBlock)}\<^sup>*"
      using D(8) [of firstBlock VirtualGenesisBlockHash] T(2) by simp
    then show False by (rule converse_rtranclE) (use firstBlock_new in auto)
  qed
  ultimately show ?thesis
    using assms(2) firstBlock_new
    by (auto simp: movableTip_def exampleManager_def ghostdagGet_def nonNil_def)
qed

text \<open>C1. On every store the reachability manager builds, \<open>IsDAGAncestorOf\<close> answers for any two
  blocks, without error, whether the second can be reached from the first along edges from
  parents to children: intervals and future covering sets together decide exactly the
  reflexive and transitive closure of the parent relation of the block graph.\<close>

theorem IsDAGAncestorOf_decides_reachability:
  assumes "reaches s B E" and "x \<in> B" and "y \<in> B"
  shows "IsDAGAncestorOf s x y = Inr ((x, y) \<in> E\<^sup>*)"
proof -
  obtain T where T: "dagStore s T E" "set (nodes T) = B" using reaches_rooted [OF assms(1)] unfolding rooted_def by blast
  then show ?thesis using IsDAGAncestorOf_dagStore [OF T(1)] assms(2,3) by simp
qed

theorem IsDAGAncestorOf_decides_reachability_witness:
  "\<exists>s. IsDAGAncestorOf s VirtualGenesisBlockHash firstBlock = Inr True \<and> IsDAGAncestorOf s firstBlock VirtualGenesisBlockHash = Inr False"
proof -
  let ?g = VirtualGenesisBlockHash and ?E = "{(VirtualGenesisBlockHash, firstBlock)}"
  obtain s where s: "reaches s {firstBlock, ?g} ?E" by (rule example_store)
  have "(firstBlock, ?g) \<notin> ?E\<^sup>*" using firstBlock_new by (auto elim: converse_rtranclE)
  moreover have "(?g, firstBlock) \<in> ?E\<^sup>*" by blast
  ultimately show ?thesis
    using IsDAGAncestorOf_decides_reachability [OF s, of ?g firstBlock] IsDAGAncestorOf_decides_reachability [OF s, of firstBlock ?g] by auto
qed

text \<open>C4. \<open>AddBlock\<close> always succeeds on such a store, whatever the shape of the tree and however
  the intervals have to be reindexed: a new block whose parents are known, whose merge set
  is the past of the block without the past of its selected parent, and for which the
  interval of the reindex root has room, is added, and the result is again such a store, for
  the graph with the new block.\<close>

theorem AddBlock_succeeds:
  assumes "reaches s B E" and "admissible rt s B E b P"
  shows "\<exists>s'. AddBlock rt b s = Some (Inr s') \<and> reaches s' (insert b B) (E \<union> P \<times> {b})"
  using reaches_rooted [OF assms(1)] AddBlock_rooted [OF _ assms(2)] reaches.add [OF assms] by blast

theorem AddBlock_succeeds_witness:
  "\<exists>s'. AddBlock exampleManager firstBlock (InitReachability emptyStore) = Some (Inr s')
    \<and> reaches s' {firstBlock, VirtualGenesisBlockHash} ({} \<union> {VirtualGenesisBlockHash} \<times> {firstBlock})"
  using AddBlock_succeeds [OF example_start example_admissible] by simp

text \<open>C5. \<open>UpdateReindexRoot\<close> terminates and succeeds on such a store for every tip other than the
  current reindex root, when blue scores are known and grow along the tree and the
  interval of the current reindex root has room; concentrating the intervals towards the new
  root leaves a store of the same graph.\<close>

theorem UpdateReindexRoot_succeeds:
  assumes "reaches s B E" and "movableTip rt s B E tip"
  shows "\<exists>s'. UpdateReindexRoot rt tip s = Some (Inr s') \<and> reaches s' B E"
  using reaches_rooted [OF assms(1)] UpdateReindexRoot_rooted [OF _ assms(2)] reaches.move [OF assms] by blast

theorem UpdateReindexRoot_succeeds_witness:
  "\<exists>s s'. UpdateReindexRoot exampleManager firstBlock s = Some (Inr s')
    \<and> reaches s' {firstBlock, VirtualGenesisBlockHash} {(VirtualGenesisBlockHash, firstBlock)}"
proof -
  obtain s where s: "reaches s {firstBlock, VirtualGenesisBlockHash} {(VirtualGenesisBlockHash, firstBlock)}"
    "reachabilityReindexRoot s = Some VirtualGenesisBlockHash" by (rule example_store)
  then show ?thesis using UpdateReindexRoot_succeeds [OF s(1) example_movable [OF s]] by blast
qed

text \<open>C8. The data of every reachable store is well formed: each known block has data with an
  interval that is neither empty nor wraps around, its children and its future covering set are
  known blocks, and each child names the block as its parent. The \<open>Parent\<close> of every block other
  than the virtual genesis is a known block that lists the block among its children.\<close>

theorem reaches_well_formed:
  assumes "reaches s B E"
  shows "\<forall>x\<in>B. \<exists>d r. reachabilityData s x = Some d \<and> Interval d = Some r \<and> 0 < Start r \<and> Start r \<le> End r \<and> End r < 0xFFFFFFFFFFFFFFFF
    \<and> set (Children d) \<subseteq> B \<and> set (FutureCoveringSet d) \<subseteq> B \<and> (\<forall>c\<in>set (Children d). parent s c = Inr (Some x))
    \<and> (x \<noteq> VirtualGenesisBlockHash \<longrightarrow> (\<exists>p\<in>B. Parent d = Some p \<and> (\<exists>d'. reachabilityData s p = Some d' \<and> x \<in> set (Children d'))))"
proof
  fix x assume "x \<in> B"
  obtain T where T: "dagStore s T E" "set (nodes T) = B" and "rootOf T = VirtualGenesisBlockHash"
    using reaches_rooted [OF assms] unfolding rooted_def by blast
  note D = dagStoreD [OF T(1)]
  have xT: "x \<in> set (nodes T)" using \<open>x \<in> B\<close> T(2) by simp
  obtain u where u: "u \<in> set (subs T)" "rootOf u = x" using xT unfolding nodes_subs by blast
  obtain d r where d: "reachabilityData s x = Some d" "Interval d = Some r"
    using rep_present [OF D(4) xT] by (auto simp: present_def)
  then have r: "ivl s x = r" by (simp add: ivl_def)
  have g: "regular r" "ilo r < ihi r" using good_root [OF good_subs [OF D(2) u(1)]] u(2) r by auto
  then have "0 < unat (Start r)" "unat (Start r) \<le> unat (End r)" "unat (End r) < unat (0xFFFFFFFFFFFFFFFF :: u64)"
    by (auto simp: regular_def ilo_def ihi_def)
  then have iv: "0 < Start r" "Start r \<le> End r" "End r < 0xFFFFFFFFFFFFFFFF"
    by (simp_all add: word_less_nat_alt word_le_nat_alt)
  have "Children d = List.map rootOf (subtrees u)" "futureCoveringSet s x = Inr (FutureCoveringSet d)"
    using treeStoreD(4) [OF D(1) u(1)] u(2) d(1) by (simp_all add: children_def futureCoveringSet_def fetchData_def)
  moreover have "rootOf c \<in> B" if "c \<in> set (subtrees u)" for c
    using subsetD [OF subs_nodes [OF subs_trans [OF u(1) subs_child [OF that]]] rootOf_in_nodes] T(2) by simp
  moreover have "parent s (rootOf c) = Inr (Some x)" if "c \<in> set (subtrees u)" for c
    using treeStoreD(5) [OF D(1) u(1) that] u(2) by simp
  moreover have "set (FutureCoveringSet d) \<subseteq> B"
    using D(6,7) [OF xT] calculation(2) T(2) by (simp add: covering_def)
  moreover have "\<exists>p\<in>B. Parent d = Some p \<and> (\<exists>d'. reachabilityData s p = Some d' \<and> x \<in> set (Children d'))" if "x \<noteq> VirtualGenesisBlockHash"
    using tree_parent_known [OF T xT] that d(1) \<open>rootOf T = VirtualGenesisBlockHash\<close> by simp
  ultimately show "\<exists>d r. reachabilityData s x = Some d \<and> Interval d = Some r \<and> 0 < Start r \<and> Start r \<le> End r \<and> End r < 0xFFFFFFFFFFFFFFFF
    \<and> set (Children d) \<subseteq> B \<and> set (FutureCoveringSet d) \<subseteq> B \<and> (\<forall>c\<in>set (Children d). parent s c = Inr (Some x))
    \<and> (x \<noteq> VirtualGenesisBlockHash \<longrightarrow> (\<exists>p\<in>B. Parent d = Some p \<and> (\<exists>d'. reachabilityData s p = Some d' \<and> x \<in> set (Children d'))))"
    using d iv by (intro exI [of _ d] exI [of _ r]) auto
qed

theorem reaches_well_formed_witness:
  "\<exists>(s :: reachStore) (d :: ReachabilityData). reachabilityData s firstBlock = Some d \<and> set (Children d) \<subseteq> {firstBlock, VirtualGenesisBlockHash}
    \<and> (\<exists>p\<in>{firstBlock, VirtualGenesisBlockHash}. Parent d = Some p)"
proof -
  obtain s where s: "reaches s {firstBlock, VirtualGenesisBlockHash} {(VirtualGenesisBlockHash, firstBlock)}" by (rule example_store)
  obtain d where "reachabilityData s firstBlock = Some d" "set (Children d) \<subseteq> {firstBlock, VirtualGenesisBlockHash}"
    "\<exists>p\<in>{firstBlock, VirtualGenesisBlockHash}. Parent d = Some p"
    using bspec [OF reaches_well_formed [OF s], of firstBlock] firstBlock_new by (simp, elim exE conjE) blast
  then show ?thesis by blast
qed

text \<open>C9. The intervals of a reachable store are laminar, as the tree is: the intervals of two
  different blocks are disjoint, or one contains the other and the other does not contain it.\<close>

theorem reaches_laminar:
  assumes "reaches s B E" and "x \<in> B" and "y \<in> B" and "x \<noteq> y"
  shows "End (ivl s x) < Start (ivl s y) \<or> End (ivl s y) < Start (ivl s x)
    \<or> intervalContains (ivl s x) (ivl s y) \<noteq> intervalContains (ivl s y) (ivl s x)"
proof -
  obtain T where T: "dagStore s T E" "set (nodes T) = B" using reaches_rooted [OF assms(1)] unfolding rooted_def by blast
  note D = dagStoreD [OF T(1)]
  have xy: "x \<in> set (nodes T)" "y \<in> set (nodes T)" using assms(2,3) T(2) by auto
  have left: "End (ivl s i) < Start (ivl s j)" if "leftOf T i j" for i j
    using leftOf_ends [OF D(2) that] by (simp add: ilo_def ihi_def word_less_nat_alt)
  have strict: "\<not> intervalContains (ivl s j) (ivl s i)" if ij: "anc T i j" "i \<noteq> j" for i j
  proof -
    obtain u where u: "u \<in> set (subs T)" "rootOf u = i" "j \<in> set (nodes u)" using ij(1) unfolding anc_def by blast
    then have "ihi (ivl s j) < ihi (ivl s i)" using good_strictly_within [OF good_subs [OF D(2) u(1)] u(3)] ij(2) by simp
    then show ?thesis by (simp add: intervalContains_iff)
  qed
  show ?thesis
    using tree_order [OF xy] left strict [of x y] strict [of y x] assms(4) anc_contains [OF D(2) xy] anc_contains [OF D(2) xy(2,1)]
    by blast
qed

theorem reaches_laminar_witness:
  "\<exists>s. End (ivl s firstBlock) < Start (ivl s VirtualGenesisBlockHash) \<or> End (ivl s VirtualGenesisBlockHash) < Start (ivl s firstBlock)
    \<or> intervalContains (ivl s firstBlock) (ivl s VirtualGenesisBlockHash) \<noteq> intervalContains (ivl s VirtualGenesisBlockHash) (ivl s firstBlock)"
proof -
  obtain s where s: "reaches s {firstBlock, VirtualGenesisBlockHash} {(VirtualGenesisBlockHash, firstBlock)}" by (rule example_store)
  then show ?thesis using reaches_laminar [OF s, of firstBlock VirtualGenesisBlockHash] firstBlock_new by blast
qed

end
