(* ===== verification/Spec2Isabelle.thy ===== *)
theory Spec2Isabelle
  imports Utxo_Diff Tx_Encoding Tx_Validator Script_Builder Reach_Manager
begin

text \<open>
  Verification of the consensus core of Eiyaro, a node for a proof-of-work ledger whose blocks form a
  directed acyclic graph.

  \<^bold>\<open>The program.\<close> A transaction spends outputs that earlier transactions created. The set of unspent
  outputs at a block is kept as a difference to the set at another block (domain/consensus/utils/utxo).
  Each output carries a script; an input supplies a signature script; the script engine
  (domain/consensus/utils/txscript) runs both and decides whether the input may spend the output.
  Signatures cover a hash of parts of the transaction (domain/consensus/utils/consensushashing). The
  transaction validator (domain/consensus/processes/transactionvalidator) ties these together. The
  parts interact as follows: the validator runs the engine for each input with the output script
  found in the UTXO entry, the engine asks for signature hashes and keeps verified signatures in a
  cache, and an accepted transaction is added to a UTXO diff. The reachability manager orders blocks
  for the rest of the consensus.

  \<^bold>\<open>Conventions.\<close> Paths are relative to src/domain/consensus unless they start with src. Go's fixed
  width unsigned integers are words, \<open>int64\<close> is \<open>int\<close> with its wrap-around written out (\<open>wrap64\<close>), and
  byte slices are lists of 8-bit words. A pair of value and error is a sum, with the error on the left;
  a Go panic is a value of the error type, so absence of panics can be stated. Go maps are association
  lists with distinct keys, in an arbitrary order, which is the order in which a \<open>range\<close> loop visits
  them. Functions of packages outside src (secp256k1, blake2b, blake3) are parameters; what is assumed of them is a
  named hypothesis of the theorem that needs it. SHA-256 of the standard library is modelled.

  \<^bold>\<open>Shared theories.\<close>
  \<^item> \<open>Eiyaro_Prelude\<close>: results, \<open>int64\<close> arithmetic, little endian byte strings, Go maps.
  \<^item> \<open>External_Api\<close>: hashes, outpoints, entries and transactions (model/externalapi), the subnetworks
    and the consensus constants; the hash order is a strict linear order.
  \<^item> \<open>Go_Sha256\<close>: \<open>crypto/sha256\<close>.

  \<^bold>\<open>UTXO diffs.\<close> \<open>Patch_Algebra\<close> is the interface: patches with application, composition and inverse as a
  locale. \<open>Utxo_Diff\<close> models diff_algebra.go, utxo_collection.go and mutable_utxo_diff.go and interprets
  the interface. Its theorems say that composing, comparing, extending and reversing diffs mean what
  they should on the UTXO set a diff stands for.

  \<^bold>\<open>Transaction hashing.\<close> \<open>Tx_Hashing\<close> models the serialisation and the signature hashes. \<open>Tx_Encoding\<close>
  shows that the serialisation is injective, that signature hashes cover exactly what their type says,
  and that the hashes reused between inputs are only a cache.

  \<^bold>\<open>Scripts.\<close>
  \<^item> \<open>Script_Num\<close>, \<open>Script_Stack\<close>: script numbers and the stack; encodings are unique, arithmetic on
    decoded numbers does not overflow, every stack operation and its failures.
  \<^item> \<open>Script_Opcodes\<close>, \<open>Script_Parse\<close>: the opcode table, the parser and printer; parsing ends and
    printing inverts it.
  \<^item> \<open>Sig_Cache\<close>: the signature caches; the locale \<open>verification_cache\<close> is what the engine relies on.
  \<^item> \<open>Script_Machine\<close>, \<open>Script_Checksig\<close>, \<open>Script_Engine\<close>: the engine state as a record, one definition
    per opcode handler as a computation on the engine, \<open>Step\<close>, \<open>Execute\<close>, \<open>Init\<close>. The loop of \<open>Execute\<close>
    is a total function: its termination is proved from the scripts and opcodes left.
  \<^item> \<open>Script_Safety\<close>, \<open>Script_Invariant\<close>: rules for composing computations that do not panic and keep the
    limits, the invariant of reachable engines, and that execution ends without a panic.
  \<^item> \<open>Script_Caches\<close>: engines that differ in their caches only behave alike.
  \<^item> \<open>Script_Builder\<close>: the script builder; what it adds to a script is what executing the script pushes.

  \<^bold>\<open>Transaction validation.\<close> \<open>Tx_Validator\<close> models validation in isolation and in context. Acceptance is
  characterised over natural numbers, so no amount can wrap around; the result does not depend on
  caches, on recycled engines or on the order in which concurrent checks finish.

  \<^bold>\<open>Reachability.\<close> processes/reachabilitymanager answers whether a block is in the past of another. It
  keeps a tree with an interval for every block, so that ancestors in the tree are found by comparing
  intervals, and for every block a future covering set for the rest of the graph.
  \<^item> \<open>Go_Float\<close>, \<open>Go_Loop\<close>, \<open>Ghostdag_Data\<close>: binary64 numbers with their rounding, loops that may run
    forever, and the data GHOSTDAG keeps for a block.
  \<^item> \<open>Reach_Interval\<close> models interval.go, \<open>Reach_Tree\<close> the accessors, the tree queries and the future
    covering sets, \<open>Reach_Reindex\<close> all of reindex_context.go, \<open>addChild\<close>, \<open>updateReindexRoot\<close>, \<open>AddBlock\<close>
    and \<open>Init\<close>. The store is the view of staging area, cache and database: a map from hashes to data.
  \<^item> \<open>Reach_Shape\<close> abstracts a store to a finite ordered tree and says when intervals fit it;
    \<open>Reach_Count\<close>, \<open>Reach_Propagate\<close> and \<open>Reach_Fits\<close> show counting, propagation and the binary search
    correct, the last two also when one subtree does not fit.
  \<^item> \<open>Reach_Reclaim\<close> treats one step of reclaiming interval from a chain, \<open>Reach_Chain\<close> the walk along the
    chain as a locale over the operations of one side, and \<open>Reach_Sides\<close> interprets it for both sides.
  \<^item> \<open>Reach_Graft\<close>, \<open>Reach_AddChild\<close>: adding a leaf, with every reindexing path. \<open>Reach_Concentrate\<close>: moving
    the reindex root. \<open>Reach_Cover\<close>, \<open>Reach_Dag\<close>: the covering sets and the graph.
  \<^item> \<open>Reach_Manager\<close>: the manager as a step relation. Its operations succeed while the reindex root has
    capacity, and the ancestor query decides reachability in the block graph.

  \<^bold>\<open>Bounds and fuel.\<close> No fuel is used. Loops over slices are structural; the parsing loop is a partial
  function proved to return on every script; the execution loop is a function with a termination proof.
  The loops of the reachability manager run forever on a cyclic store and are partial functions; the
  theorems show that they return on every store the manager builds.
  The limits of the code (stack size 244, element size 520, 201 operations, script size 10000) are
  constants of the model.

  \<^bold>\<open>Not modelled.\<close> Input and output, networking, RPC, the wallet, configuration, logging and the
  database engine, which are effects without a specification in this code; generated protocol buffers;
  locks and goroutine scheduling beyond the order of results; debug strings. The inspection of JSON
  payloads in the validator uses image decoding and floating point and is a parameter.
\<close>

end
